(* ===== verification/Prelude.thy ===== *)
theory Prelude imports Main "HOL-Library.Word" begin

text \<open>
  Shared vocabulary of the development: the machine types of the C++ code, faults (what the
  code does outside defined behaviour, and what it throws), byte copies with their bounds,
  the little-endian image of a 32-bit value, and the decimal text that
  \<^verbatim>\<open>std::to_string\<close> makes of an unsigned number. The generic lemmas about them are collected
  in \<^verbatim>\<open>wrap\<close> (modular arithmetic of words) and \<^verbatim>\<open>copy\<close> (byte copies).
\<close>

unbundle bit_operations_syntax

section \<open>Machine types\<close>

type_synonym u8 = "8 word"
type_synonym u32 = "32 word"
type_synonym i32 = "32 word"
type_synonym u64 = "64 word"
type_synonym bytes = "u8 list"

named_theorems wrap \<open>modular arithmetic of machine words\<close>
named_theorems copy \<open>byte copies within bounds\<close>

section \<open>Faults\<close>

text \<open>
  A run of the code ends in a value or in a fault. \<^verbatim>\<open>OutOfBounds\<close>, \<^verbatim>\<open>NullPointer\<close>,
  \<^verbatim>\<open>UseAfterFree\<close>, \<^verbatim>\<open>Uninitialised\<close>, \<^verbatim>\<open>SignedOverflow\<close> and
  \<^verbatim>\<open>NotOwner\<close> (unlocking a mutex of another thread) are undefined behaviour of C++, \<^verbatim>\<open>AssertFailed\<close> an
  \<^verbatim>\<open>assert\<close> that aborts, \<^verbatim>\<open>Terminated\<close> a call of \<^verbatim>\<open>std::terminate\<close>, \<^verbatim>\<open>Thrown\<close> a
  thrown string and \<^verbatim>\<open>RedisError\<close> a thrown \<^verbatim>\<open>sw::redis::Error\<close>.
\<close>

datatype fault =
    OutOfBounds
  | NullPointer
  | UseAfterFree
  | Uninitialised
  | AssertFailed
  | Terminated
  | Thrown string
  | RedisError string
  | SignedOverflow
  | NotOwner

section \<open>Wrap-around\<close>

lemma unat_and_mask [wrap]:
  fixes x :: "'a::len word"
  shows "unat (x AND (2 ^ k - 1)) = unat x mod 2 ^ k"
proof -
  have "x AND (2 ^ k - 1) = take_bit k x"
    by (simp only: take_bit_eq_mask mask_eq_exp_minus_1)
  then have "unat (x AND (2 ^ k - 1)) = take_bit k (unat x)"
    by (simp only: unsigned_take_bit_eq)
  then show ?thesis
    by (simp only: take_bit_eq_mod)
qed

lemma unat_exp:
  assumes "k < 32"
  shows "unat (2 ^ k :: u32) = 2 ^ k"
proof -
  have "(2::nat) ^ k < 2 ^ 32"
    using assms by (intro power_strict_increasing) simp_all
  then have "unat (of_nat (2 ^ k) :: u32) = 2 ^ k"
    by (simp only: unat_of_nat len_of_numeral_defs) simp
  then show ?thesis by (simp only: of_nat_power of_nat_numeral)
qed

lemma unat_eq_exp_iff:
  fixes b :: u32
  assumes "k < 32"
  shows "unat b = 2 ^ k \<longleftrightarrow> b = 2 ^ k"
  using unat_exp [OF assms] by (metis word_unat_eq_iff)

lemma unat_add_mod_dvd [wrap]:
  fixes x y :: u32
  assumes "n dvd 2 ^ 32"
  shows "unat (x + y) mod n = (unat x + unat y) mod n"
  using assms by (simp add: unat_word_ariths mod_mod_cancel)

lemma unat_add_small [wrap]:
  fixes x y :: u32
  assumes "unat x + unat y < 2 ^ 32"
  shows "unat (x + y) = unat x + unat y"
  using assms by (simp add: unat_word_ariths)

lemma unat_sub_le [wrap]:
  fixes x y :: u32
  assumes "unat y \<le> unat x"
  shows "unat (x - y) = unat x - unat y"
  using assms by (simp add: unat_sub word_le_nat_alt)

lemma unat_add_diff [wrap]:
  fixes x y n :: u32
  assumes "unat (x - y) + unat n < 2 ^ 32"
  shows "unat (x + n - y) = unat (x - y) + unat n"
  using unat_add_small [OF assms] by (simp only: add_diff_eq diff_add_eq add.commute)

lemma unat_diff_shift [wrap]:
  fixes x y n :: u32
  assumes "unat n \<le> unat (x - y)"
  shows "unat (x - (y + n)) = unat (x - y) - unat n"
  using unat_sub_le [OF assms] by (simp only: diff_diff_eq)

text \<open>Reading a 32-bit value as an \<^verbatim>\<open>int\<close>.\<close>

lemma sint_small [wrap]:
  fixes w :: i32
  assumes "unat w < 2147483648"
  shows "sint w = int (unat w)"
proof -
  have "int (unat w) < 2147483648" using assms by linarith
  then have "uint w < 2 ^ 31" by simp
  moreover have "- (2 ^ 31) \<le> uint w" by (rule order_trans [of _ 0]) simp_all
  ultimately have "signed_take_bit 31 (uint w) = uint w"
    by (intro signed_take_bit_int_eq_self)
  then show ?thesis by (simp add: sint_uint)
qed

lemma sint_nonneg [wrap]:
  fixes w :: i32
  assumes "0 \<le> sint w"
  shows "unat w < 2147483648" and "sint w = int (unat w)"
proof -
  have b: "sint w < 2 ^ 31" using sint_lt [of w] by simp
  have "take_bit 32 (uint w) = uint w"
    using uint_lt2p [of w] by (intro take_bit_int_eq_self) simp_all
  moreover have "take_bit 32 (sint w) = take_bit 32 (uint w)"
    by (simp add: sint_uint take_bit_signed_take_bit)
  moreover have "take_bit 32 (sint w) = sint w"
    using assms b by (intro take_bit_int_eq_self) simp_all
  ultimately show eq: "sint w = int (unat w)" by simp
  from b have "int (unat w) < 2147483648" unfolding eq by simp
  then show "unat w < 2147483648" by linarith
qed

lemma unat_min [simp]: "unat (min a b) = min (unat a) (unat (b :: 'a::len word))"
  by (simp add: min_def word_le_nat_alt)

section \<open>Byte copies\<close>

text \<open>
  \<^verbatim>\<open>memcpy(dst + doff, src + soff, n)\<close> on byte arrays that end where the lists end.
\<close>

definition memcpy :: "bytes \<Rightarrow> nat \<Rightarrow> bytes \<Rightarrow> nat \<Rightarrow> nat \<Rightarrow> fault + bytes" where
  "memcpy dst doff src soff n =
     (if doff + n \<le> length dst \<and> soff + n \<le> length src
      then Inr (take doff dst @ take n (drop soff src) @ drop (doff + n) dst)
      else Inl OutOfBounds)"

lemma memcpy_Inr [copy]:
  "doff + n \<le> length dst \<Longrightarrow> soff + n \<le> length src \<Longrightarrow>
   memcpy dst doff src soff n = Inr (take doff dst @ take n (drop soff src) @ drop (doff + n) dst)"
  by (simp add: memcpy_def)

lemma memcpy_length: "memcpy dst doff src soff n = Inr d \<Longrightarrow> length d = length dst"
  by (auto simp: memcpy_def split: if_splits)

lemma nth_splice:
  assumes "doff + n \<le> length dst" "length xs = n" "i < length dst"
  shows "(take doff dst @ xs @ drop (doff + n) dst) ! i =
    (if doff \<le> i \<and> i < doff + n then xs ! (i - doff) else dst ! i)"
  using assms by (auto simp: nth_append min_def)

section \<open>The little-endian image of a 32-bit value\<close>

text \<open>
  The four bytes that \<^verbatim>\<open>(uint8_t*)&x\<close> points to on the platforms the build accepts
  (x86-64 and aarch64 are little-endian), and the value that reading them back gives.
\<close>

definition le32 :: "u32 \<Rightarrow> bytes" where
  "le32 w = map (\<lambda>i. of_nat (unat w div 256 ^ i)) [0, 1, 2, 3]"

definition un_le32 :: "bytes \<Rightarrow> u32" where
  "un_le32 bs = of_nat (\<Sum>i \<leftarrow> [0, 1, 2, 3]. unat (bs ! i) * 256 ^ i)"

text \<open>How the two are evaluated: with shifts instead of powers of natural numbers.\<close>

lemma byte_of_word: "of_nat (unat w div 2 ^ n) = (ucast (drop_bit n w) :: u8)" for w :: u32
proof -
  have "unat w div 2 ^ n = unat (drop_bit n w)"
    by (simp only: unat_drop_bit_eq) (simp only: drop_bit_eq_div)
  then show ?thesis
    by (metis of_nat_unat)
qed

lemma le32_code [code]: "le32 w = [ucast w, ucast (drop_bit 8 w), ucast (drop_bit 16 w), ucast (drop_bit 24 w)]"
  using byte_of_word [of w 0] byte_of_word [of w 8] byte_of_word [of w 16] byte_of_word [of w 24] by (simp add: le32_def)

lemma un_le32_code [code]: "un_le32 bs = ucast (bs ! 0) + ucast (bs ! 1) * 256 + ucast (bs ! 2) * 65536 + ucast (bs ! 3) * 16777216"
  by (simp add: un_le32_def)

lemma length_le32 [simp]: "length (le32 w) = 4"
  by (simp add: le32_def)

lemma le32_split:
  fixes n :: nat
  assumes "n < 4294967296"
  shows "n mod 256 + n div 256 mod 256 * 256 + n div 65536 mod 256 * 65536
    + n div 16777216 mod 256 * 16777216 = n"
proof -
  define a where "a = n div 256"
  define b where "b = a div 256"
  define c where "c = b div 256"
  have ab: "n div 65536 = b" "n div 16777216 = c"
    by (simp_all add: a_def b_def c_def flip: div_mult2_eq)
  have "n = a * 256 + n mod 256" "a = b * 256 + a mod 256" "b = c * 256 + b mod 256"
    by (simp_all only: a_def b_def c_def div_mult_mod_eq)
  moreover have "c mod 256 = c"
    using assms by (simp add: ab(2) [symmetric] less_mult_imp_div_less)
  ultimately show ?thesis
    unfolding ab a_def [symmetric] by linarith
qed

lemma un_le32_le32 [simp]: "un_le32 (le32 w) = w"
proof -
  have "unat w < 4294967296"
    using unsigned_less [of w] by simp
  from le32_split [OF this]
  have "(\<Sum>i \<leftarrow> [0, 1, 2, 3]. unat (le32 w ! i) * 256 ^ i) = unat w"
    using \<open>unat w < 4294967296\<close>
    by (simp add: le32_def unat_of_nat add.assoc unsigned_ucast_eq take_bit_eq_mod less_mult_imp_div_less)
  then show ?thesis
    by (simp add: un_le32_def)
qed

lemma un_le32_append [simp]: "un_le32 (le32 w @ bs) = w"
proof -
  have "un_le32 (le32 w @ bs) = un_le32 (le32 w)"
    by (simp add: un_le32_def nth_append)
  then show ?thesis by simp
qed

lemma ucast_of_nat_64 [simp]: "ucast (of_nat n :: u64) = (of_nat n :: u32)"
  by (simp add: unsigned_of_nat word_of_nat_eq_iff)

section \<open>Decimal text\<close>

text \<open>\<^verbatim>\<open>std::to_string\<close> of an unsigned value.\<close>

fun to_string :: "nat \<Rightarrow> string" where
  "to_string n = (if n < 10 then [char_of (48 + n)] else to_string (n div 10) @ [char_of (48 + n mod 10)])"

declare to_string.simps [simp del]

definition is_digit :: "char \<Rightarrow> bool" where
  "is_digit c \<longleftrightarrow> (48::nat) \<le> of_char c \<and> of_char c \<le> (57::nat)"

lemma to_string_digits: "\<forall>c \<in> set (to_string n). is_digit c"
proof (induction n rule: to_string.induct)
  case (1 n)
  then show ?case
    by (subst to_string.simps) (auto simp: is_digit_def)
qed

lemma to_string_nonempty [simp]: "to_string n \<noteq> []"
  by (subst to_string.simps) simp

lemma char_of_digit_inj:
  "m < 10 \<Longrightarrow> n < 10 \<Longrightarrow> (char_of (48 + m) :: char) = char_of (48 + n) \<Longrightarrow> m = (n::nat)"
  by (auto dest: arg_cong [where f = "of_char :: char \<Rightarrow> nat"])

lemma to_string_inj: "to_string m = to_string n \<Longrightarrow> m = n"
proof (induction m arbitrary: n rule: to_string.induct)
  case (1 m)
  have len1: "length (to_string k) = 1 \<longleftrightarrow> k < 10" for k
    by (subst to_string.simps) simp
  show ?case
  proof (cases "m < 10")
    case True
    then have "n < 10" using len1 [of m] len1 [of n] 1(2) by simp
    with True 1(2) show ?thesis
      by (simp add: to_string.simps [of m] to_string.simps [of n] char_of_digit_inj)
  next
    case False
    then have "\<not> n < 10" using len1 [of m] len1 [of n] 1(2) by simp
    with False 1(2) have eq: "to_string (m div 10) = to_string (n div 10)"
      and last: "(char_of (48 + m mod 10) :: char) = char_of (48 + n mod 10)"
      by (simp_all add: to_string.simps [of m] to_string.simps [of n])
    from 1(1) [OF False eq] have "m div 10 = n div 10" .
    moreover from last have "m mod 10 = n mod 10"
      by (intro char_of_digit_inj) simp_all
    ultimately show ?thesis by (metis div_mult_mod_eq)
  qed
qed

lemma to_string_eq_iff [simp]: "to_string m = to_string n \<longleftrightarrow> m = n"
  using to_string_inj by blast

text \<open>
  Text in front of a separator is determined when what follows it holds no separator.
\<close>

lemma split_last_separator:
  assumes "xs @ c # ys = xs' @ c # ys'" "c \<notin> set ys" "c \<notin> set ys'"
  shows "xs = xs' \<and> ys = ys'"
proof -
  have "takeWhile (\<lambda>x. x \<noteq> c) (rev ys @ c # rev xs) = takeWhile (\<lambda>x. x \<noteq> c) (rev ys' @ c # rev xs')"
    using assms(1) [THEN arg_cong [where f = rev]] by simp
  moreover have "takeWhile (\<lambda>x. x \<noteq> c) (rev ys @ c # rev xs) = rev ys"
    using assms(2) by (subst takeWhile_append2) auto
  moreover have "takeWhile (\<lambda>x. x \<noteq> c) (rev ys' @ c # rev xs') = rev ys'"
    using assms(3) by (subst takeWhile_append2) auto
  ultimately have "ys = ys'" by simp
  with assms(1) show ?thesis by simp
qed

end
