(* ===== verification/Prog.thy ===== *)
theory Prog imports Prelude begin

text \<open>
  Programs over an explicit state. A run of a program ends in a value or in a fault, each with
  the state it leaves behind (a C++ exception does not undo what was done before it), or does
  not end within the fuel it was given (\<^verbatim>\<open>None\<close>). The Hoare triple \<^verbatim>\<open>hoare P m Q X\<close> covers the
  first two (\<^verbatim>\<open>Q\<close> for values, \<^verbatim>\<open>X\<close> for faults); that a run ends is the separate \<^verbatim>\<open>ends\<close>.
  Objects behind raw pointers are values of \<^verbatim>\<open>ptr\<close>, so that a use after \<^verbatim>\<open>delete\<close> is a fault.
\<close>

section \<open>Programs\<close>

type_synonym ('s, 'a) prog = "'s \<Rightarrow> ((fault + 'a) \<times> 's) option"

named_theorems prog \<open>the program combinators, for evaluating a run\<close>
named_theorems rules \<open>rules of the Hoare logic\<close>

definition ret :: "'a \<Rightarrow> ('s, 'a) prog" where [prog]:
  "ret a s = Some (Inr a, s)"

definition raise :: "fault \<Rightarrow> ('s, 'a) prog" where [prog]:
  "raise e s = Some (Inl e, s)"

definition stuck :: "('s, 'a) prog" where [prog]:
  "stuck s = None"

definition bind :: "('s, 'a) prog \<Rightarrow> ('a \<Rightarrow> ('s, 'b) prog) \<Rightarrow> ('s, 'b) prog" where [prog]:
  "bind m f s =
     (case m s of
        None \<Rightarrow> None
      | Some (Inl e, s') \<Rightarrow> Some (Inl e, s')
      | Some (Inr a, s') \<Rightarrow> f a s')"

definition gets :: "('s \<Rightarrow> 'a) \<Rightarrow> ('s, 'a) prog" where [prog]:
  "gets f s = Some (Inr (f s), s)"

definition modify :: "('s \<Rightarrow> 's) \<Rightarrow> ('s, unit) prog" where [prog]:
  "modify f s = Some (Inr (), f s)"

text \<open>A call of code outside the repository: it sees and changes only the world.\<close>

definition ask :: "('w \<Rightarrow> 'a \<times> 'w) \<Rightarrow> ('c \<times> 'w, 'a) prog" where [prog]:
  "ask f s = (let (a, w) = f (snd s) in Some (Inr a, (fst s, w)))"

definition get_obj :: "('c \<Rightarrow> 'a) \<Rightarrow> ('c \<times> 'w, 'a) prog" where [prog]:
  "get_obj f s = Some (Inr (f (fst s)), s)"

definition set_obj :: "('c \<Rightarrow> 'c) \<Rightarrow> ('c \<times> 'w, unit) prog" where [prog]:
  "set_obj f s = Some (Inr (), (f (fst s), snd s))"

text \<open>\<^verbatim>\<open>try { m } catch (...)\<close>: the handler chooses by the fault, \<^verbatim>\<open>None\<close> rethrows.\<close>

definition try_catch :: "('s, 'a) prog \<Rightarrow> (fault \<Rightarrow> ('s, 'a) prog option) \<Rightarrow> ('s, 'a) prog" where [prog]:
  "try_catch m h s =
     (case m s of
        Some (Inl e, s') \<Rightarrow> (case h e of None \<Rightarrow> Some (Inl e, s') | Some k \<Rightarrow> k s')
      | r \<Rightarrow> r)"

fun from_sum :: "fault + 'a \<Rightarrow> ('s, 'a) prog" where
  "from_sum (Inl e) = raise e"
| "from_sum (Inr a) = ret a"

text \<open>Running the first statement of a sequence.\<close>

named_theorems runs \<open>one step of a run\<close>

lemma bind_bind [runs]: "bind (bind m f) g = bind m (\<lambda>x. bind (f x) g)"
  by (auto simp: bind_def fun_eq_iff split: option.split prod.split sum.split)

lemma bind_ret [runs]: "bind (ret a) f = f a"
  by (simp add: bind_def ret_def fun_eq_iff)

lemma bind_raise [runs]: "bind (raise e) f = raise e"
  by (simp add: bind_def raise_def fun_eq_iff)

lemma bind_get_obj [runs]: "bind (get_obj f) g (c, w) = g (f c) (c, w)"
  by (simp add: bind_def get_obj_def)

lemma bind_set_obj [runs]: "bind (set_obj f) g (c, w) = g () (f c, w)"
  by (simp add: bind_def set_obj_def)

lemma bind_ask [runs]: "bind (ask f) g (c, w) = g (fst (f w)) (c, snd (f w))"
  by (simp add: bind_def ask_def split: prod.split)

lemma bind_if [runs]: "bind (if b then m else k) f = (if b then bind m f else bind k f)"
  by simp

lemma bind_from_sum [runs]:
  "bind (from_sum (Inr a)) f = f a" "bind (from_sum (Inl e)) f = raise e"
  by (simp_all add: bind_def ret_def raise_def fun_eq_iff)

lemma bind_run: "m s = Some (Inr a, s') \<Longrightarrow> bind m f s = f a s'"
  by (simp add: bind_def)

lemma bind_runI: "m s = Some (Inr a, s') \<Longrightarrow> f a s' = r \<Longrightarrow> bind m f s = r"
  by (simp add: bind_def)

lemma bind_run_fault: "m s = Some (Inl e, s') \<Longrightarrow> bind m f s = Some (Inl e, s')"
  by (simp add: bind_def)

lemma bind_run_stuck: "m s = None \<Longrightarrow> bind m f s = None"
  by (simp add: bind_def)

section \<open>Pointers\<close>

datatype 'a ptr = Unset | Null | Freed | Live 'a

fun deref :: "'a ptr \<Rightarrow> fault + 'a" where
  "deref Unset = Inl Uninitialised"
| "deref Null = Inl NullPointer"
| "deref Freed = Inl UseAfterFree"
| "deref (Live a) = Inr a"

text \<open>A condition \<^verbatim>\<open>if (p)\<close> on a pointer: reading it before it is set is undefined.\<close>

fun ptr_test :: "'a ptr \<Rightarrow> fault + bool" where
  "ptr_test Unset = Inl Uninitialised"
| "ptr_test Null = Inr False"
| "ptr_test Freed = Inr True"
| "ptr_test (Live a) = Inr True"

section \<open>Hoare triples\<close>

definition hoare :: "('s \<Rightarrow> bool) \<Rightarrow> ('s, 'a) prog \<Rightarrow> ('a \<Rightarrow> 's \<Rightarrow> bool) \<Rightarrow> (fault \<Rightarrow> 's \<Rightarrow> bool) \<Rightarrow> bool" where
  "hoare P m Q X \<longleftrightarrow>
     (\<forall>s. P s \<longrightarrow>
        (case m s of
           None \<Rightarrow> True
         | Some (Inl e, s') \<Rightarrow> X e s'
         | Some (Inr a, s') \<Rightarrow> Q a s'))"

definition ends :: "('s, 'a) prog \<Rightarrow> 's \<Rightarrow> bool" where
  "ends m s \<longleftrightarrow> m s \<noteq> None"

lemma hoareI:
  assumes "\<And>s e s'. P s \<Longrightarrow> m s = Some (Inl e, s') \<Longrightarrow> X e s'"
    and "\<And>s a s'. P s \<Longrightarrow> m s = Some (Inr a, s') \<Longrightarrow> Q a s'"
  shows "hoare P m Q X"
  using assms by (auto simp: hoare_def split: option.splits prod.splits sum.splits)

lemma hoare_value: "hoare P m Q X \<Longrightarrow> P s \<Longrightarrow> m s = Some (Inr a, s') \<Longrightarrow> Q a s'"
  unfolding hoare_def by fastforce

lemma hoare_fault: "hoare P m Q X \<Longrightarrow> P s \<Longrightarrow> m s = Some (Inl e, s') \<Longrightarrow> X e s'"
  unfolding hoare_def by fastforce

lemma hoare_weaken:
  assumes "hoare P' m Q' X'" "\<And>s. P s \<Longrightarrow> P' s"
    and "\<And>a s. Q' a s \<Longrightarrow> Q a s" "\<And>e s. X' e s \<Longrightarrow> X e s"
  shows "hoare P m Q X"
proof (rule hoareI)
  show "X e s'" if "P s" "m s = Some (Inl e, s')" for s e s'
    using assms(4) hoare_fault [OF assms(1) assms(2)] that by simp
  show "Q a s'" if "P s" "m s = Some (Inr a, s')" for s a s'
    using assms(3) hoare_value [OF assms(1) assms(2)] that by simp
qed

lemma hoare_pre: "hoare P' m Q X \<Longrightarrow> (\<And>s. P s \<Longrightarrow> P' s) \<Longrightarrow> hoare P m Q X"
  by (simp add: hoare_def)

lemma hoare_assume: "(C \<Longrightarrow> hoare P m Q X) \<Longrightarrow> hoare (\<lambda>s. C \<and> P s) m Q X"
  by (auto simp: hoare_def)

lemma hoare_ret [rules]: "hoare (Q a) (ret a) Q X"
  by (auto simp: hoare_def ret_def)

lemma hoare_raise [rules]: "hoare (X e) (raise e) Q X"
  by (auto simp: hoare_def raise_def)

lemma hoare_stuck [rules]: "hoare (\<lambda>_. True) stuck Q X"
  by (auto simp: hoare_def stuck_def)

lemma hoare_gets [rules]: "hoare (\<lambda>s. Q (f s) s) (gets f) Q X"
  by (auto simp: hoare_def gets_def)

lemma hoare_get_obj [rules]: "hoare (\<lambda>s. Q (f (fst s)) s) (get_obj f) Q X"
  by (auto simp: hoare_def get_obj_def)

lemma hoare_modify [rules]: "hoare (\<lambda>s. Q () (f s)) (modify f) Q X"
  by (auto simp: hoare_def modify_def)

lemma hoare_set_obj [rules]: "hoare (\<lambda>s. Q () (f (fst s), snd s)) (set_obj f) Q X"
  by (auto simp: hoare_def set_obj_def)

lemma hoare_ask [rules]: "hoare (\<lambda>s. \<forall>a w. f (snd s) = (a, w) \<longrightarrow> Q a (fst s, w)) (ask f) Q X"
  by (auto simp: hoare_def ask_def split: prod.splits)

lemma hoare_from_sum [rules]:
  "hoare (\<lambda>s. case r of Inl e \<Rightarrow> X e s | Inr a \<Rightarrow> Q a s) (from_sum r) Q X"
  by (cases r) (auto simp: hoare_def ret_def raise_def)

lemma hoare_bind:
  assumes "hoare P m R X" "\<And>a. hoare (R a) (f a) Q X"
  shows "hoare P (bind m f) Q X"
  unfolding hoare_def
proof (intro allI impI)
  fix s assume "P s"
  show "case bind m f s of None \<Rightarrow> True | Some (Inl e, s') \<Rightarrow> X e s' | Some (Inr a, s') \<Rightarrow> Q a s'"
  proof (cases "m s")
    case None
    then show ?thesis by (simp add: bind_def)
  next
    case (Some r)
    obtain x s1 where r: "r = (x, s1)"
      by (cases r)
    show ?thesis
    proof (cases x)
      case (Inl e)
      then show ?thesis
        using Some r \<open>P s\<close> assms(1) by (simp add: bind_def hoare_fault)
    next
      case (Inr a)
      have "R a s1"
        using Some r Inr \<open>P s\<close> assms(1) hoare_value by fastforce
      then show ?thesis
        using Some r Inr assms(2) by (simp add: bind_def hoare_def)
    qed
  qed
qed

lemma hoare_if [rules]:
  assumes "hoare P1 m1 Q X" "hoare P2 m2 Q X"
  shows "hoare (\<lambda>s. if b then P1 s else P2 s) (if b then m1 else m2) Q X"
  using assms by simp

lemma hoare_try:
  assumes "hoare P m Q Y"
    and "\<And>e k. h e = Some k \<Longrightarrow> hoare (Y e) k Q X"
    and "\<And>e s. h e = None \<Longrightarrow> Y e s \<Longrightarrow> X e s"
  shows "hoare P (try_catch m h) Q X"
proof (rule hoareI)
  fix s e s' assume P: "P s" and run: "try_catch m h s = Some (Inl e, s')"
  then obtain e1 s1 where m: "m s = Some (Inl e1, s1)"
    by (auto simp: try_catch_def split: option.splits prod.splits sum.splits)
  have Y: "Y e1 s1"
    using assms(1) P m by (rule hoare_fault)
  show "X e s'"
  proof (cases "h e1")
    case None
    then show ?thesis
      using run m assms(3) Y by (auto simp: try_catch_def)
  next
    case (Some k)
    then show ?thesis
      using run m Y assms(2) hoare_fault by (fastforce simp: try_catch_def)
  qed
next
  fix s a s' assume P: "P s" and run: "try_catch m h s = Some (Inr a, s')"
  show "Q a s'"
  proof (cases "\<exists>e1 s1. m s = Some (Inl e1, s1)")
    case True
    then obtain e1 s1 where m: "m s = Some (Inl e1, s1)"
      by blast
    have Y: "Y e1 s1"
      using assms(1) P m by (rule hoare_fault)
    then show ?thesis
      using run m assms(2) hoare_value by (fastforce simp: try_catch_def split: option.splits)
  next
    case False
    then have "m s = Some (Inr a, s')"
      using run by (auto simp: try_catch_def split: option.splits prod.splits sum.splits)
    then show ?thesis
      using assms(1) P by (blast intro: hoare_value)
  qed
qed

lemma hoare_conj:
  assumes "hoare P m Q X" "hoare P m Q' X'"
  shows "hoare P m (\<lambda>a s. Q a s \<and> Q' a s) (\<lambda>e s. X e s \<and> X' e s)"
  using assms by (auto simp: hoare_def split: option.splits prod.splits sum.splits)

section \<open>Runs that end\<close>

lemma ends_simps [simp]:
  "ends (ret a) s" "ends (raise e) s" "ends (gets f) s" "ends (modify g) s"
  "ends (get_obj k) t" "ends (set_obj l) t" "ends (ask m) t" "ends (from_sum r) s"
proof -
  show "ends (from_sum r) s"
    by (cases r) (simp_all add: ends_def prog)
qed (simp_all add: ends_def prog split: prod.splits)

lemma ends_bind:
  assumes "ends m s" "\<And>a s'. m s = Some (Inr a, s') \<Longrightarrow> ends (f a) s'"
  shows "ends (bind m f) s"
  using assms by (auto simp: ends_def bind_def split: option.splits prod.splits sum.splits)

lemma ends_if: "(b \<Longrightarrow> ends m s) \<Longrightarrow> (\<not> b \<Longrightarrow> ends k s) \<Longrightarrow> ends (if b then m else k) s"
  by simp

section \<open>Relations that a run respects\<close>

text \<open>
  \<^verbatim>\<open>obeys R m\<close>: a run of \<^verbatim>\<open>m\<close> that ends, in a value or a fault, takes the world along the
  preorder \<^verbatim>\<open>R\<close>. What the calls outside the repository leave alone is stated this way.
\<close>

definition preorder :: "('w \<Rightarrow> 'w \<Rightarrow> bool) \<Rightarrow> bool" where
  "preorder R \<longleftrightarrow> (\<forall>w. R w w) \<and> (\<forall>u v w. R u v \<longrightarrow> R v w \<longrightarrow> R u w)"

definition obeys :: "('w \<Rightarrow> 'w \<Rightarrow> bool) \<Rightarrow> ('c \<times> 'w, 'a) prog \<Rightarrow> bool" where
  "obeys R m \<longleftrightarrow> (\<forall>c w x c' w'. m (c, w) = Some (x, c', w') \<longrightarrow> R w w')"

lemma obeysD: "obeys R m \<Longrightarrow> m (c, w) = Some (x, c', w') \<Longrightarrow> R w w'"
  unfolding obeys_def by blast

lemma obeys_pure:
  assumes "preorder R"
  shows "obeys R (ret a)" "obeys R (raise e)" "obeys R stuck" "obeys R (gets f)"
    "obeys R (get_obj g)" "obeys R (set_obj h)" "obeys R (from_sum r)"
proof -
  show "obeys R (from_sum r)"
    using assms by (cases r) (auto simp: obeys_def preorder_def prog)
qed (use assms in \<open>auto simp: obeys_def preorder_def prog\<close>)

lemma obeys_ask:
  assumes "\<And>w. R w (snd (f w))"
  shows "obeys R (ask f)"
  using assms by (auto simp: obeys_def ask_def split: prod.splits) (metis snd_conv)

lemma obeys_bind:
  assumes "preorder R" "obeys R m" "\<And>a. obeys R (f a)"
  shows "obeys R (bind m f)"
  unfolding obeys_def
proof (intro allI impI)
  fix c w x c' w' assume run: "bind m f (c, w) = Some (x, c', w')"
  obtain y c1 w1 where 1: "m (c, w) = Some (y, c1, w1)"
    using run by (cases "m (c, w)") (auto simp: bind_def)
  have R1: "R w w1"
    using assms(2) 1 by (rule obeysD)
  show "R w w'"
  proof (cases y)
    case (Inl e)
    then show ?thesis
      using run 1 R1 by (simp add: bind_def)
  next
    case (Inr a)
    then have "R w1 w'"
      using run 1 assms(3) by (auto simp: bind_def intro: obeysD)
    then show ?thesis
      using R1 assms(1) unfolding preorder_def by blast
  qed
qed

lemma obeys_try:
  assumes "preorder R" "obeys R m" "\<And>e k. h e = Some k \<Longrightarrow> obeys R k"
  shows "obeys R (try_catch m h)"
  unfolding obeys_def
proof (intro allI impI)
  fix c w x c' w' assume run: "try_catch m h (c, w) = Some (x, c', w')"
  obtain y c1 w1 where 1: "m (c, w) = Some (y, c1, w1)"
    using run by (cases "m (c, w)") (auto simp: try_catch_def)
  have R1: "R w w1"
    using assms(2) 1 by (rule obeysD)
  show "R w w'"
  proof (cases "\<exists>e k. y = Inl e \<and> h e = Some k")
    case True
    then obtain e k where "y = Inl e" "h e = Some k"
      by blast
    then have "R w1 w'"
      using run 1 assms(3) by (auto simp: try_catch_def intro: obeysD)
    then show ?thesis
      using R1 assms(1) unfolding preorder_def by blast
  next
    case False
    then have "w' = w1"
      using run 1 by (auto simp: try_catch_def split: sum.splits option.splits)
    then show ?thesis
      using R1 by simp
  qed
qed

end
