(* ===== verification/RedisClient.thy ===== *)
theory RedisClient imports Prog begin

text \<open>
  \<^verbatim>\<open>src/src/redis_client.cpp\<close>: the wrapper that chooses between a single Redis server, a
  cluster and a sentinel group by environment variables. The redis++ library, the JSON parser
  and the process environment are the record \<^verbatim>\<open>redis_api\<close>; a call of redis++ returns or throws
  a \<^verbatim>\<open>sw::redis::Error\<close>. Single-server and cluster commands are different C++ classes, so every
  command of the record says for which class it is.
\<close>

section \<open>What the code calls\<close>

datatype server = SingleServer | ClusterServer

text \<open>Constructor arguments of \<^verbatim>\<open>Redis\<close> and \<^verbatim>\<open>RedisCluster\<close>; the sentinel form carries the nodes, the
  sentinel password, the master name, the password, and the two timeouts in milliseconds.\<close>

datatype redis_options =
    ByUrl string
  | ByHost string int "string option"
  | BySentinel "(string \<times> int) list" "string option" string "string option" nat nat

record 'w redis_api =
  getenv :: "string \<Rightarrow> string option"
  json_nodes :: "string \<Rightarrow> (string \<times> int) list option"
  redis_open :: "server \<Rightarrow> redis_options \<Rightarrow> 'w \<Rightarrow> (string + nat) \<times> 'w"
  redis_close :: "server \<Rightarrow> nat \<Rightarrow> 'w \<Rightarrow> 'w"
  redis_ping :: "nat \<Rightarrow> 'w \<Rightarrow> (string + string) \<times> 'w"
  redis_brpop :: "server \<Rightarrow> nat \<Rightarrow> string \<Rightarrow> int \<Rightarrow> 'w \<Rightarrow> (string + (string \<times> bytes) option) \<times> 'w"
  redis_hset :: "server \<Rightarrow> nat \<Rightarrow> string \<Rightarrow> (string \<times> string) list \<Rightarrow> 'w \<Rightarrow> (string + int) \<times> 'w"
  redis_expire :: "server \<Rightarrow> nat \<Rightarrow> string \<Rightarrow> int \<Rightarrow> 'w \<Rightarrow> (string + bool) \<times> 'w"
  redis_lpush :: "server \<Rightarrow> nat \<Rightarrow> string \<Rightarrow> string \<Rightarrow> 'w \<Rightarrow> (string + int) \<times> 'w"

definition redis_call :: "('w \<Rightarrow> (string + 'a) \<times> 'w) \<Rightarrow> ('c \<times> 'w, 'a) prog" where
  "redis_call f = bind (ask f) (\<lambda>r. case r of Inl e \<Rightarrow> raise (RedisError e) | Inr a \<Rightarrow> ret a)"

text \<open>\<^verbatim>\<open>std::atoi\<close>: white space, a sign, digits up to the first other character. A value outside
  \<^verbatim>\<open>int\<close> is undefined behaviour.\<close>

fun digits_value :: "nat \<Rightarrow> string \<Rightarrow> nat" where
  "digits_value n [] = n"
| "digits_value n (c # cs) =
     (if is_digit c then digits_value (n * 10 + (of_char c - 48)) cs else n)"

definition is_space :: "char \<Rightarrow> bool" where
  "is_space c \<longleftrightarrow> (of_char c :: nat) \<in> {9, 10, 11, 12, 13, 32}"

definition atoi :: "string \<Rightarrow> fault + int" where
  "atoi s =
     (let t = dropWhile is_space s;
          v = (case t of
                 [] \<Rightarrow> 0
               | c # cs \<Rightarrow>
                   (if c = CHR ''-'' then - int (digits_value 0 cs)
                    else if c = CHR ''+'' then int (digits_value 0 cs)
                    else int (digits_value 0 t)))
      in if - (2 ^ 31) \<le> v \<and> v < 2 ^ 31 then Inr v else Inl OutOfBounds)"

lemma digits_value_append:
  "\<forall>c \<in> set xs. is_digit c \<Longrightarrow> digits_value n (xs @ ys) = digits_value (digits_value n xs) ys"
  by (induction xs arbitrary: n) auto

lemma digits_value_to_string [simp]: "digits_value 0 (to_string n) = n"
proof (induction n rule: to_string.induct)
  case (1 n)
  show ?case
  proof (cases "n < 10")
    case True
    then show ?thesis
      by (subst to_string.simps) (simp add: is_digit_def)
  next
    case False
    have "digits_value 0 (to_string n) = digits_value (digits_value 0 (to_string (n div 10))) [char_of (48 + n mod 10)]"
      using False by (subst to_string.simps) (simp add: digits_value_append to_string_digits)
    also have "\<dots> = n div 10 * 10 + n mod 10"
      using 1 [OF False] less_Suc_eq_le [of "n mod 10" 9] by (simp add: is_digit_def)
    finally show ?thesis by simp
  qed
qed

lemma atoi_to_string:
  assumes "n < 2 ^ 31"
  shows "atoi (to_string n) = Inr (int n)"
proof -
  obtain c cs where t: "to_string n = c # cs"
    by (cases "to_string n") auto
  have c: "is_digit c"
    using to_string_digits [of n] by (simp add: t)
  then have "\<not> is_space c" "c \<noteq> CHR ''-''" "c \<noteq> CHR ''+''"
    by (auto simp: is_digit_def is_space_def)
  then show ?thesis
    using assms digits_value_to_string [of n] by (simp add: atoi_def t del: digits_value_to_string)
qed

section \<open>The wrapper\<close>

text \<open>\<^verbatim>\<open>use_url\<close> is declared and never used.\<close>

record redis_object =
  redis :: "nat ptr"
  redis_cluster :: "nat ptr"
  m_use_cluster :: bool
  m_use_sentinel :: bool

text \<open>A \<^verbatim>\<open>char*\<close> of the environment where a \<^verbatim>\<open>std::string\<close> is built from it.\<close>

fun c_string :: "string option \<Rightarrow> fault + string" where
  "c_string None = Inl NullPointer"
| "c_string (Some s) = Inr s"

definition by_host :: "('w, 'z) redis_api_scheme \<Rightarrow> string \<Rightarrow> string \<Rightarrow> string \<Rightarrow> ('c \<times> 'w, redis_options) prog" where
  "by_host A host password port =
     bind (from_sum (c_string (getenv A host))) (\<lambda>h.
     bind (from_sum (c_string (getenv A port))) (\<lambda>p.
     bind (from_sum (atoi p)) (\<lambda>n.
     ret (ByHost h n (getenv A password)))))"

definition by_sentinel :: "('w, 'z) redis_api_scheme \<Rightarrow> ('c \<times> 'w, redis_options) prog" where
  "by_sentinel A =
     bind (from_sum (c_string (getenv A ''CPP_REDIS_CLUSTER_NODES''))) (\<lambda>redis_nodes.
     bind (case json_nodes A redis_nodes of
             None \<Rightarrow> raise (Thrown ''nlohmann::json'')
           | Some nodes \<Rightarrow> ret nodes) (\<lambda>nodes.
     bind (from_sum (c_string (getenv A ''CPP_REDIS_SENTINEL_MASTER''))) (\<lambda>master_name.
     ret (BySentinel nodes (getenv A ''CPP_REDIS_SENTINEL_PASSWORD'') master_name
            (getenv A ''CPP_REDIS_CLUSTER_PASSWORD'') 100 100))))"

definition new_redis :: "('w, 'z) redis_api_scheme \<Rightarrow> bool \<Rightarrow> redis_options \<Rightarrow> ('c \<times> 'w, redis_object) prog" where
  "new_redis A sentinel opts =
     bind (redis_call (redis_open A SingleServer opts)) (\<lambda>h.
     ret \<lparr>redis = Live h, redis_cluster = Unset, m_use_cluster = False, m_use_sentinel = sentinel\<rparr>)"

definition new_cluster :: "('w, 'z) redis_api_scheme \<Rightarrow> redis_options \<Rightarrow> ('c \<times> 'w, redis_object) prog" where
  "new_cluster A opts =
     bind (redis_call (redis_open A ClusterServer opts)) (\<lambda>h.
     ret \<lparr>redis = Unset, redis_cluster = Live h, m_use_cluster = True, m_use_sentinel = False\<rparr>)"

definition RedisClient :: "('w, 'z) redis_api_scheme \<Rightarrow> string \<Rightarrow> ('c \<times> 'w, redis_object) prog" where
  "RedisClient A redis_address =
     (let cluster_mode = getenv A ''CPP_REDIS_CLUSTER_MODE'';
          use_cluster = (cluster_mode = Some ''cluster'')
      in if getenv A ''CPP_REDIS_USE_THREE_FACTORS'' \<noteq> None then
           (if use_cluster then
              bind (by_host A ''CPP_REDIS_CLUSTER_HOST'' ''CPP_REDIS_CLUSTER_PASSWORD'' ''CPP_REDIS_CLUSTER_PORT'')
                (new_cluster A)
            else if cluster_mode = Some ''sentinel'' then
              bind (by_sentinel A) (new_redis A True)
            else
              bind (by_host A ''CPP_REDIS_HOST'' ''CPP_REDIS_PASSWORD'' ''CPP_REDIS_PORT'') (new_redis A False))
         else if use_cluster then new_cluster A (ByUrl redis_address)
         else new_redis A False (ByUrl redis_address))"

definition delete_RedisClient :: "('w, 'z) redis_api_scheme \<Rightarrow> redis_object \<Rightarrow> ('c \<times> 'w, unit) prog" where
  "delete_RedisClient A r =
     (if m_use_cluster r
      then bind (from_sum (deref (redis_cluster r))) (\<lambda>h. ask (\<lambda>w. ((), redis_close A ClusterServer h w)))
      else bind (from_sum (deref (redis r))) (\<lambda>h. ask (\<lambda>w. ((), redis_close A SingleServer h w))))"

definition ping :: "('w, 'z) redis_api_scheme \<Rightarrow> redis_object \<Rightarrow> ('c \<times> 'w, string) prog" where
  "ping A r =
     (if m_use_cluster r \<or> m_use_sentinel r then ret ''cluster not support ping()''
      else bind (from_sum (deref (redis r))) (\<lambda>h. redis_call (redis_ping A h)))"

definition brpop :: "('w, 'z) redis_api_scheme \<Rightarrow> redis_object \<Rightarrow> string \<Rightarrow> int \<Rightarrow> ('c \<times> 'w, (string \<times> bytes) option) prog" where
  "brpop A r key timeout =
     (if m_use_cluster r
      then bind (from_sum (deref (redis_cluster r))) (\<lambda>h. redis_call (redis_brpop A ClusterServer h key timeout))
      else bind (from_sum (deref (redis r))) (\<lambda>h. redis_call (redis_brpop A SingleServer h key timeout)))"

text \<open>The three overloads of \<^verbatim>\<open>hset\<close>: a list of pairs, one field and value, one pair.\<close>

definition hset_items :: "('w, 'z) redis_api_scheme \<Rightarrow> redis_object \<Rightarrow> string \<Rightarrow> (string \<times> string) list \<Rightarrow> ('c \<times> 'w, int) prog" where
  "hset_items A r key items =
     (if m_use_cluster r
      then bind (from_sum (deref (redis_cluster r))) (\<lambda>h. redis_call (redis_hset A ClusterServer h key items))
      else bind (from_sum (deref (redis r))) (\<lambda>h. redis_call (redis_hset A SingleServer h key items)))"

definition hset_field :: "('w, 'z) redis_api_scheme \<Rightarrow> redis_object \<Rightarrow> string \<Rightarrow> string \<Rightarrow> string \<Rightarrow> ('c \<times> 'w, bool) prog" where
  "hset_field A r key field val =
     (if m_use_cluster r
      then bind (from_sum (deref (redis_cluster r))) (\<lambda>h.
           bind (redis_call (redis_hset A ClusterServer h key [(field, val)])) (\<lambda>n. ret (n \<noteq> 0)))
      else bind (from_sum (deref (redis r))) (\<lambda>h.
           bind (redis_call (redis_hset A SingleServer h key [(field, val)])) (\<lambda>n. ret (n \<noteq> 0))))"

definition hset_pair :: "('w, 'z) redis_api_scheme \<Rightarrow> redis_object \<Rightarrow> string \<Rightarrow> string \<times> string \<Rightarrow> ('c \<times> 'w, bool) prog" where
  "hset_pair A r key item =
     (if m_use_cluster r
      then bind (from_sum (deref (redis_cluster r))) (\<lambda>h.
           bind (redis_call (redis_hset A ClusterServer h key [(fst item, snd item)])) (\<lambda>n. ret (n \<noteq> 0)))
      else bind (from_sum (deref (redis r))) (\<lambda>h.
           bind (redis_call (redis_hset A SingleServer h key [(fst item, snd item)])) (\<lambda>n. ret (n \<noteq> 0))))"

definition expire :: "('w, 'z) redis_api_scheme \<Rightarrow> redis_object \<Rightarrow> string \<Rightarrow> int \<Rightarrow> ('c \<times> 'w, bool) prog" where
  "expire A r key timeout =
     (if m_use_cluster r
      then bind (from_sum (deref (redis_cluster r))) (\<lambda>h. redis_call (redis_expire A ClusterServer h key timeout))
      else bind (from_sum (deref (redis r))) (\<lambda>h. redis_call (redis_expire A SingleServer h key timeout)))"

definition lpush :: "('w, 'z) redis_api_scheme \<Rightarrow> redis_object \<Rightarrow> string \<Rightarrow> string \<Rightarrow> ('c \<times> 'w, int) prog" where
  "lpush A r key val =
     (if m_use_cluster r
      then bind (from_sum (deref (redis_cluster r))) (\<lambda>h. redis_call (redis_lpush A ClusterServer h key val))
      else bind (from_sum (deref (redis r))) (\<lambda>h. redis_call (redis_lpush A SingleServer h key val)))"

section \<open>The object is usable\<close>

text \<open>
  The pointer that the operations use is the one the constructor has set.
\<close>

definition redis_ready :: "redis_object \<Rightarrow> bool" where
  "redis_ready r \<longleftrightarrow> (\<exists>h. (if m_use_cluster r then redis_cluster r else redis r) = Live h)"

abbreviation redis_errors :: "fault \<Rightarrow> 's \<Rightarrow> bool" where
  "redis_errors e s \<equiv> \<exists>m. e = RedisError m"

lemma hoare_redis_call [rules]:
  "hoare (\<lambda>s. \<forall>r w. f (snd s) = (r, w) \<longrightarrow>
      (case r of Inl m \<Rightarrow> X (RedisError m) (fst s, w) | Inr a \<Rightarrow> Q a (fst s, w))) (redis_call f) Q X"
  by (auto simp: hoare_def redis_call_def prog split: prod.splits sum.splits)

lemma ends_redis_call [simp]: "ends (redis_call f) s"
  by (auto simp: ends_def redis_call_def prog split: prod.splits sum.splits)

lemma redis_call_fst: "redis_call f s = Some (r, s') \<Longrightarrow> fst s' = fst s"
  by (auto simp: redis_call_def prog split: prod.splits sum.splits)

lemma redis_ops_safe:
  fixes r :: redis_object
  assumes "redis_ready r"
  shows "hoare (\<lambda>s. fst s = c) (brpop A r key n) (\<lambda>_ s. fst s = c) (\<lambda>e s. fst s = c \<and> redis_errors e s)"
    and "hoare (\<lambda>s. fst s = c) (ping A r) (\<lambda>_ s. fst s = c) (\<lambda>e s. fst s = c \<and> redis_errors e s)"
    and "hoare (\<lambda>s. fst s = c) (hset_items A r key items) (\<lambda>_ s. fst s = c) (\<lambda>e s. fst s = c \<and> redis_errors e s)"
    and "hoare (\<lambda>s. fst s = c) (hset_pair A r key item) (\<lambda>_ s. fst s = c) (\<lambda>e s. fst s = c \<and> redis_errors e s)"
    and "hoare (\<lambda>s. fst s = c) (hset_field A r key fld val) (\<lambda>_ s. fst s = c) (\<lambda>e s. fst s = c \<and> redis_errors e s)"
    and "hoare (\<lambda>s. fst s = c) (expire A r key n) (\<lambda>_ s. fst s = c) (\<lambda>e s. fst s = c \<and> redis_errors e s)"
    and "hoare (\<lambda>s. fst s = c) (lpush A r key val) (\<lambda>_ s. fst s = c) (\<lambda>e s. fst s = c \<and> redis_errors e s)"
  using assms
  by (auto simp: redis_ready_def brpop_def ping_def hset_items_def hset_pair_def hset_field_def expire_def
      lpush_def hoare_def redis_call_def prog split: prod.splits sum.splits if_splits)

lemma ends_redis_ops [simp]:
  "ends (brpop A r key n) s" "ends (ping A r) s" "ends (hset_items A r key items) s"
  "ends (hset_pair A r key item) s" "ends (expire A r key n) s" "ends (lpush A r key val) s"
  by (auto simp: brpop_def ping_def hset_items_def hset_pair_def expire_def lpush_def intro!: ends_bind)

section \<open>Properties\<close>

lemmas redis_ops_defs = brpop_def ping_def hset_items_def hset_pair_def hset_field_def expire_def lpush_def

lemma new_redis_value:
  assumes "new_redis A b opts s = Some (Inr r, s')"
  shows "\<exists>h. redis_open A SingleServer opts (snd s) = (Inr h, snd s') \<and>
    r = \<lparr>redis = Live h, redis_cluster = Unset, m_use_cluster = False, m_use_sentinel = b\<rparr>"
  using assms by (auto simp: new_redis_def redis_call_def prog split: prod.splits sum.splits)

lemma new_cluster_value:
  assumes "new_cluster A opts s = Some (Inr r, s')"
  shows "\<exists>h. redis_open A ClusterServer opts (snd s) = (Inr h, snd s') \<and>
    r = \<lparr>redis = Unset, redis_cluster = Live h, m_use_cluster = True, m_use_sentinel = False\<rparr>"
  using assms by (auto simp: new_cluster_def redis_call_def prog split: prod.splits sum.splits)

lemma from_sum_value: "from_sum x s = Some (Inr a, s') \<longleftrightarrow> x = Inr a \<and> s' = s"
  by (cases x) (auto simp: prog)

lemma bind_value:
  "bind m f s = Some (Inr b, s2) \<longleftrightarrow> (\<exists>a s1. m s = Some (Inr a, s1) \<and> f a s1 = Some (Inr b, s2))"
  by (auto simp: bind_def split: option.splits prod.splits sum.splits)

lemma by_host_value: "by_host A h p q s = Some (Inr opts, s1) \<Longrightarrow> s1 = s"
  by (auto simp: by_host_def bind_value from_sum_value ret_def)

lemma by_sentinel_value: "by_sentinel A s = Some (Inr opts, s1) \<Longrightarrow> s1 = s"
  by (auto simp: by_sentinel_def bind_value from_sum_value ret_def raise_def split: option.splits)

definition serves :: "redis_object \<Rightarrow> server \<Rightarrow> nat \<Rightarrow> bool" where
  "serves r k h \<longleftrightarrow>
     (if k = ClusterServer then m_use_cluster r \<and> redis_cluster r = Live h
      else \<not> m_use_cluster r \<and> redis r = Live h)"

lemma serves_ready: "serves r k h \<Longrightarrow> redis_ready r"
  by (auto simp: serves_def redis_ready_def split: if_splits)

lemma serves_ops:
  assumes "serves r k h"
  shows "brpop A r key n = redis_call (redis_brpop A k h key n)"
    and "hset_items A r key items = redis_call (redis_hset A k h key items)"
    and "expire A r key n = redis_call (redis_expire A k h key n)"
    and "lpush A r key val = redis_call (redis_lpush A k h key val)"
    and "delete_RedisClient A r = ask (\<lambda>w. ((), redis_close A k h w))"
  using assms
  by (auto simp: serves_def redis_ops_defs delete_RedisClient_def fun_eq_iff bind_def ret_def
      server.exhaust split: if_splits) (metis server.exhaust)+

lemma RedisClient_serves:
  assumes "RedisClient A addr s = Some (Inr r, s')"
  shows "\<exists>k opts h. redis_open A k opts (snd s) = (Inr h, snd s') \<and> serves r k h \<and>
    (k = ClusterServer \<longleftrightarrow> getenv A ''CPP_REDIS_CLUSTER_MODE'' = Some ''cluster'') \<and>
    (getenv A ''CPP_REDIS_USE_THREE_FACTORS'' = None \<longrightarrow> opts = ByUrl addr)"
  using assms
  by (fastforce simp: RedisClient_def Let_def bind_value serves_def split: if_splits
      dest!: new_redis_value new_cluster_value by_host_value by_sentinel_value)

text \<open>A concrete environment: one server, known by its address, whose lists are the world.\<close>

definition demo_redis :: "(string \<Rightarrow> string option) \<Rightarrow> (string \<times> bytes) list redis_api" where
  "demo_redis ev =
     \<lparr>getenv = ev, json_nodes = (\<lambda>_. None),
      redis_open = (\<lambda>k opts w. (Inr (if k = ClusterServer then 2 else 1), w)),
      redis_close = (\<lambda>k h w. w),
      redis_ping = (\<lambda>h w. (Inr ''PONG'', w)),
      redis_brpop = (\<lambda>k h key t w.
        (case w of [] \<Rightarrow> (Inr None, w)
         | (k', v) # w' \<Rightarrow> if k' = key then (Inr (Some (k', v)), w') else (Inr None, w))),
      redis_hset = (\<lambda>k h key items w. (Inr (int (length items)), w)),
      redis_expire = (\<lambda>k h key t w. (Inr True, w)),
      redis_lpush = (\<lambda>k h key v w. (Inr 1, w))\<rparr>"

text \<open>
  A \<^verbatim>\<open>RedisClient\<close> whose constructor returned serves exactly the connection that the constructor
  opened: cluster commands go to a cluster object if and only if the mode variable says \<^verbatim>\<open>cluster\<close>,
  every operation and the destructor use the pointer that was set (never the other, uninitialised
  one), and without the three-factor variable the connection is to the given address.
\<close>
lemma redis_client_usable:
  assumes "RedisClient A addr s = Some (Inr r, s')"
  shows "\<exists>k opts h. redis_open A k opts (snd s) = (Inr h, snd s') \<and>
    (k = ClusterServer \<longleftrightarrow> getenv A ''CPP_REDIS_CLUSTER_MODE'' = Some ''cluster'') \<and>
    (getenv A ''CPP_REDIS_USE_THREE_FACTORS'' = None \<longrightarrow> opts = ByUrl addr) \<and>
    brpop A r key n = redis_call (redis_brpop A k h key n) \<and>
    hset_items A r key items = redis_call (redis_hset A k h key items) \<and>
    expire A r key n = redis_call (redis_expire A k h key n) \<and>
    lpush A r key val = redis_call (redis_lpush A k h key val) \<and>
    delete_RedisClient A r = ask (\<lambda>w. ((), redis_close A k h w))"
proof -
  obtain k opts h where *: "redis_open A k opts (snd s) = (Inr h, snd s')" "serves r k h"
    "k = ClusterServer \<longleftrightarrow> getenv A ''CPP_REDIS_CLUSTER_MODE'' = Some ''cluster''"
    "getenv A ''CPP_REDIS_USE_THREE_FACTORS'' = None \<longrightarrow> opts = ByUrl addr"
    using RedisClient_serves [OF assms] by (elim exE conjE) (rule that)
  show ?thesis
    by (intro exI [of _ k] exI [of _ opts] exI [of _ h] conjI *(1) *(3) *(4) serves_ops [OF *(2)])
qed

lemma redis_client_usable_witness:
  "\<exists>k opts h. redis_open (demo_redis (\<lambda>_. None)) k opts (snd ((), [])) = (Inr h, snd ((), [])) \<and>
    (k = ClusterServer \<longleftrightarrow> getenv (demo_redis (\<lambda>_. None)) ''CPP_REDIS_CLUSTER_MODE'' = Some ''cluster'') \<and>
    (getenv (demo_redis (\<lambda>_. None)) ''CPP_REDIS_USE_THREE_FACTORS'' = None \<longrightarrow> opts = ByUrl ''tcp://r'') \<and>
    brpop (demo_redis (\<lambda>_. None)) \<lparr>redis = Live 1, redis_cluster = Unset, m_use_cluster = False, m_use_sentinel = False\<rparr> ''k'' 1
      = redis_call (redis_brpop (demo_redis (\<lambda>_. None)) k h ''k'' 1)"
  using redis_client_usable [of "demo_redis (\<lambda>_. None)" "''tcp://r''" "((), [])"
      "\<lparr>redis = Live 1, redis_cluster = Unset, m_use_cluster = False, m_use_sentinel = False\<rparr>" "((), [])" "''k''" 1 "[]" "''v''"]
  by (fastforce simp: RedisClient_def new_redis_def redis_call_def demo_redis_def prog)

text \<open>
  With three-factor settings and neither cluster nor sentinel mode, a missing host or port is not
  an error that the code reports: the constructor builds a string from a null pointer exactly when
  \<^verbatim>\<open>CPP_REDIS_HOST\<close> or \<^verbatim>\<open>CPP_REDIS_PORT\<close> is unset.
\<close>
theorem redis_client_missing_settings:
  assumes "getenv A ''CPP_REDIS_USE_THREE_FACTORS'' = Some v"
    and "getenv A ''CPP_REDIS_CLUSTER_MODE'' \<notin> {Some ''cluster'', Some ''sentinel''}"
  shows "(\<exists>s'. RedisClient A addr s = Some (Inl NullPointer, s')) \<longleftrightarrow>
    getenv A ''CPP_REDIS_HOST'' = None \<or> getenv A ''CPP_REDIS_PORT'' = None"
proof -
  obtain h p where hp: "h = getenv A ''CPP_REDIS_HOST''" "p = getenv A ''CPP_REDIS_PORT''"
    by simp
  show ?thesis
    using assms unfolding hp [symmetric]
    by (cases h; cases p)
      (auto simp: RedisClient_def by_host_def hp [symmetric] prog atoi_def new_redis_def redis_call_def Let_def
        split: prod.splits sum.splits)
qed

definition demo_env :: "string \<Rightarrow> string option" where
  "demo_env name = (if name = ''CPP_REDIS_USE_THREE_FACTORS'' then Some ''1'' else None)"

theorem redis_client_missing_settings_witness:
  "\<exists>s'. RedisClient (demo_redis demo_env) ''tcp://r'' ((), []) = Some (Inl NullPointer, s')"
  using redis_client_missing_settings [of "demo_redis demo_env" "''1''" "''tcp://r''" "((), [])"]
  by (simp add: demo_redis_def demo_env_def)

end
