(* ===== verification/IChannel.thy ===== *)
theory IChannel imports Prelude begin

text \<open>
  The base class of both channels (\<^verbatim>\<open>src/src/ichannel.h\<close>): the identity of a channel and the
  64-bit traffic counters (\<^verbatim>\<open>std::size_t\<close> on the two platforms the build accepts).
\<close>

record ichannel =
  m_channelid :: string
  m_from_party :: u32
  m_to_party :: u32
  m_bytes_send :: u64
  m_bytes_recv :: u64
  m_packet_send :: u64
  m_packet_recv :: u64

definition IChannel :: "string \<Rightarrow> u32 \<Rightarrow> u32 \<Rightarrow> ichannel" where
  "IChannel channelid from_party to_party =
     \<lparr>m_channelid = channelid, m_from_party = from_party, m_to_party = to_party,
      m_bytes_send = 0, m_bytes_recv = 0, m_packet_send = 0, m_packet_recv = 0\<rparr>"

definition statistics_send :: "u64 \<Rightarrow> 'a ichannel_scheme \<Rightarrow> 'a ichannel_scheme" where
  "statistics_send nbytes c =
     c\<lparr>m_bytes_send := m_bytes_send c + nbytes, m_packet_send := m_packet_send c + 1\<rparr>"

definition statistics_recv :: "u64 \<Rightarrow> 'a ichannel_scheme \<Rightarrow> 'a ichannel_scheme" where
  "statistics_recv nbytes c =
     c\<lparr>m_bytes_recv := m_bytes_recv c + nbytes, m_packet_recv := m_packet_recv c + 1\<rparr>"

text \<open>
  What the counters hold after the payloads \<^verbatim>\<open>ms\<close> have been counted: the specification the
  channels are measured against.
\<close>

definition counted :: "bytes list \<Rightarrow> u64 \<Rightarrow> u64 \<Rightarrow> bool" where
  "counted ms nbytes npackets \<longleftrightarrow>
     nbytes = of_nat (sum_list (map length ms)) \<and> npackets = of_nat (length ms)"

lemma counted_Nil [simp]: "counted [] b p \<longleftrightarrow> b = 0 \<and> p = 0"
  by (simp add: counted_def)

lemma counted_snoc [simp]:
  "counted ms b p \<Longrightarrow> counted (ms @ [m]) (b + of_nat (length m)) (p + 1)"
  by (simp add: counted_def)

lemma statistics_send_simps [simp]:
  "m_bytes_send (statistics_send n c) = m_bytes_send c + n"
  "m_packet_send (statistics_send n c) = m_packet_send c + 1"
  "m_bytes_recv (statistics_send n c) = m_bytes_recv c"
  "m_packet_recv (statistics_send n c) = m_packet_recv c"
  by (simp_all add: statistics_send_def)

lemma statistics_recv_simps [simp]:
  "m_bytes_recv (statistics_recv n c) = m_bytes_recv c + n"
  "m_packet_recv (statistics_recv n c) = m_packet_recv c + 1"
  "m_bytes_send (statistics_recv n c) = m_bytes_send c"
  "m_packet_send (statistics_recv n c) = m_packet_send c"
  by (simp_all add: statistics_recv_def)

end
