(* ===== verification/RpcClient.thy ===== *)
theory RpcClient imports RedisClient IChannel begin

text \<open>
  \<^verbatim>\<open>src/src/grpc_client.cpp\<close>: the client end of the relay. It negotiates the protocol version,
  writes packets on a gRPC stream, keeps the packets that are not acknowledged yet, and takes
  the incoming messages from a Redis list (or pulls them). The gRPC stubs and streams, the
  clocks and the scheduler are the record \<^verbatim>\<open>net_api\<close> that extends \<^verbatim>\<open>redis_api\<close>; its functions
  see and change only the world \<^verbatim>\<open>'w\<close>. The receiving thread of the client is a step of its own
  and runs where the code can observe it: \<^verbatim>\<open>interleave\<close> lets it make as many steps as the
  scheduler says. Integers of the protocol are \<^verbatim>\<open>int\<close>, with the overflow of an increment a fault.
\<close>

section \<open>Messages\<close>

text \<open>The fields of \<^verbatim>\<open>Metadata\<close> that the client sets or reads; the others keep their default.\<close>

record metadata =
  taskid :: string
  frompartyid :: string
  topartyid :: string
  servicetype :: string
  found :: bool
  seq :: int
  ack :: int

record packet =
  header :: metadata
  body :: bytes

definition tensor_header :: "string \<Rightarrow> u32 \<Rightarrow> u32 \<Rightarrow> metadata" where
  "tensor_header task from to =
     \<lparr>taskid = task, frompartyid = to_string (unat from), topartyid = to_string (unat to),
      servicetype = ''TENSOR'', found = False, seq = 0, ack = 0\<rparr>"

text \<open>
  \<^verbatim>\<open>Pending\<close>: the blocking \<^verbatim>\<open>Read\<close> has not returned yet.
\<close>

datatype version_reply = VersionOk int | Unimplemented | VersionError
datatype read_event = Pending | Acked int | StreamEnd

section \<open>What the code calls\<close>

record 'w net_api = "'w redis_api" +
  stub_get_version :: "nat \<Rightarrow> (string \<times> string) list \<Rightarrow> 'w \<Rightarrow> version_reply \<times> 'w"
  stub_push :: "nat \<Rightarrow> (string \<times> string) list \<Rightarrow> nat \<Rightarrow> 'w \<Rightarrow> nat \<times> 'w"
  stub_push_v2 :: "nat \<Rightarrow> (string \<times> string) list \<Rightarrow> nat \<Rightarrow> 'w \<Rightarrow> nat \<times> 'w"
  stub_pull :: "nat \<Rightarrow> metadata \<Rightarrow> 'w \<Rightarrow> packet option \<times> 'w"
  stream_write :: "nat \<Rightarrow> packet \<Rightarrow> 'w \<Rightarrow> bool \<times> 'w"
  stream_read :: "nat \<Rightarrow> 'w \<Rightarrow> read_event \<times> 'w"
  stream_writes_done :: "nat \<Rightarrow> 'w \<Rightarrow> 'w"
  stream_finish :: "nat \<Rightarrow> 'w \<Rightarrow> bool \<times> 'w"
  chan_create :: "string \<Rightarrow> bool \<Rightarrow> 'w \<Rightarrow> nat \<times> 'w"
  chan_connected :: "nat \<Rightarrow> u32 \<Rightarrow> 'w \<Rightarrow> bool \<times> 'w"
  chan_ready :: "nat \<Rightarrow> 'w \<Rightarrow> bool \<times> 'w"
  chan_wait_shutdown :: "nat \<Rightarrow> 'w \<Rightarrow> 'w"
  steady_ms :: "'w \<Rightarrow> int \<times> 'w"
  sleep_ms :: "int \<Rightarrow> 'w \<Rightarrow> 'w"
  schedule :: "'w \<Rightarrow> nat \<times> 'w"

definition sleep :: "('w, 'z) net_api_scheme \<Rightarrow> int \<Rightarrow> ('c \<times> 'w, unit) prog" where
  "sleep A ms = ask (\<lambda>w. ((), sleep_ms A ms w))"

definition int_max :: int where "int_max = 2147483647"

fun incr :: "int \<Rightarrow> fault + int" where
  "incr n = (if n = int_max then Inl SignedOverflow else Inr (n + 1))"

section \<open>State\<close>

text \<open>
  The immutable part of a \<^verbatim>\<open>channel\<close>, which the client holds by reference. \<^verbatim>\<open>m_meta\<close> lists the
  entries of the \<^verbatim>\<open>std::map\<close> in key order.
\<close>

record channel_base = ichannel +
  m_server_address :: string
  m_redis_address :: string
  m_connect_wait_time :: u32
  ch_use_redis :: bool
  m_net_log_switch :: bool
  m_meta :: "(string \<times> string) list"

definition get_meta_value :: "'z channel_base_scheme \<Rightarrow> string \<Rightarrow> string option" where
  "get_meta_value ch k = map_of (m_meta ch) k"

text \<open>The enumerations of the versions are their integer values.\<close>

definition not_inited :: int where "not_inited = -1"
definition v1 :: int where "v1 = 1"
definition v2 :: int where "v2 = 2"
definition config_support_max_version :: int where "config_support_max_version = v2"

datatype recv_thread_status = ThreadNotInited | ThreadStarted | ThreadFinished

text \<open>
  Where the receiving thread stands: before its first statement, in \<^verbatim>\<open>Read\<close>, waiting for a queue
  that is not empty after the acknowledgement \<^verbatim>\<open>a\<close>, about to pop, after the end of the stream,
  or returned.
\<close>

datatype thread_pc = Spawned | Reading | GotAck int | Popping | Closing | Exited

datatype thread_handle = NoThread | Joinable thread_pc | Joined

record rpc_client =
  m_partyid :: u32
  m_to_partyid :: u32
  m_use_redis :: bool
  m_net_debug :: bool
  m_chl :: nat
  m_sender :: "nat option"
  m_rw_sender :: "nat option"
  redis_client :: "redis_object ptr"
  m_redis_timeout :: int
  m_use_rpc_version :: int
  m_use_redis_data_version :: int
  m_seq :: int
  m_recv_idx :: int
  m_notack_queue :: "packet list"
  m_recv_thread :: thread_handle
  m_recv_thread_status :: recv_thread_status

type_synonym ('w, 'a) rpc = "(rpc_client \<times> 'w, 'a) prog"

section \<open>The receiving thread\<close>

definition recv_thread_step :: "('w, 'z) net_api_scheme \<Rightarrow> ('w, unit) rpc" where
  "recv_thread_step A =
     bind (get_obj id) (\<lambda>c.
     case m_recv_thread c of
       Joinable Spawned \<Rightarrow>
         set_obj (\<lambda>c. c\<lparr>m_recv_thread_status := ThreadStarted, m_recv_thread := Joinable Reading\<rparr>)
     | Joinable Reading \<Rightarrow>
         (case m_rw_sender c of
            None \<Rightarrow> raise NullPointer
          | Some h \<Rightarrow>
              bind (ask (stream_read A h)) (\<lambda>ev.
              case ev of
                Pending \<Rightarrow> ret ()
              | Acked a \<Rightarrow> set_obj (\<lambda>c. c\<lparr>m_recv_thread := Joinable (GotAck a)\<rparr>)
              | StreamEnd \<Rightarrow> set_obj (\<lambda>c. c\<lparr>m_recv_thread := Joinable Closing\<rparr>)))
     | Joinable (GotAck a) \<Rightarrow>
         (if m_notack_queue c = [] then ret ()
          else set_obj (\<lambda>c. c\<lparr>m_recv_thread := Joinable Popping\<rparr>))
     | Joinable Popping \<Rightarrow>
         (case m_notack_queue c of
            [] \<Rightarrow> raise OutOfBounds
          | p # q \<Rightarrow> set_obj (\<lambda>c. c\<lparr>m_notack_queue := q, m_recv_thread := Joinable Reading\<rparr>))
     | Joinable Closing \<Rightarrow>
         set_obj (\<lambda>c. c\<lparr>m_recv_thread_status := ThreadFinished, m_recv_thread := Joinable Exited\<rparr>)
     | _ \<Rightarrow> ret ())"

fun recv_thread_run :: "('w, 'z) net_api_scheme \<Rightarrow> nat \<Rightarrow> ('w, unit) rpc" where
  "recv_thread_run A 0 = ret ()"
| "recv_thread_run A (Suc n) = bind (recv_thread_step A) (\<lambda>_. recv_thread_run A n)"

definition interleave :: "('w, 'z) net_api_scheme \<Rightarrow> ('w, unit) rpc" where
  "interleave A = bind (ask (schedule A)) (recv_thread_run A)"

text \<open>\<^verbatim>\<open>std::thread::join\<close>: the caller does not go on before the thread has returned.\<close>

definition join_recv_thread :: "('w, 'z) net_api_scheme \<Rightarrow> ('w, unit) rpc" where
  "join_recv_thread A =
     bind (interleave A) (\<lambda>_.
     bind (get_obj m_recv_thread) (\<lambda>t.
     case t of
       Joinable Exited \<Rightarrow> set_obj (\<lambda>c. c\<lparr>m_recv_thread := Joined\<rparr>)
     | Joinable _ \<Rightarrow> stuck
     | _ \<Rightarrow> raise (Thrown ''std::system_error'')))"

section \<open>Construction and destruction\<close>

definition REDIS_BRPOP_TIMEOUT :: int where "REDIS_BRPOP_TIMEOUT = 120"

definition redis_timeout_setting :: "('w, 'z) net_api_scheme \<Rightarrow> fault + int" where
  "redis_timeout_setting A =
     (case getenv A ''CPP_REDIS_TIMEOUT'' of
        Some t \<Rightarrow> atoi t
      | None \<Rightarrow> Inr REDIS_BRPOP_TIMEOUT)"

definition catch_redis_error :: "('s, 'a) prog \<Rightarrow> ('s, 'a) prog \<Rightarrow> ('s, 'a) prog" where
  "catch_redis_error m k = try_catch m (\<lambda>e. case e of RedisError _ \<Rightarrow> Some k | _ \<Rightarrow> None)"

definition RpcClient :: "('w, 'z) net_api_scheme \<Rightarrow> nat \<Rightarrow> u32 \<Rightarrow> u32 \<Rightarrow> string \<Rightarrow> bool \<Rightarrow> bool \<Rightarrow> ('c \<times> 'w, rpc_client) prog" where
  "RpcClient A chl partyid to_party_id redis_address use_redis net_debug =
     bind (from_sum (redis_timeout_setting A)) (\<lambda>t.
     bind (if use_redis
           then bind (RedisClient A redis_address) (\<lambda>r.
                bind (catch_redis_error (bind (ping A r) (\<lambda>_. ret ())) (ret ())) (\<lambda>_.
                ret (Live r)))
           else ret Unset) (\<lambda>rp.
     ret \<lparr>m_partyid = partyid, m_to_partyid = to_party_id, m_use_redis = use_redis, m_net_debug = net_debug,
          m_chl = chl, m_sender = None, m_rw_sender = None, redis_client = rp, m_redis_timeout = t,
          m_use_rpc_version = not_inited, m_use_redis_data_version = not_inited, m_seq = 0, m_recv_idx = -1,
          m_notack_queue = [], m_recv_thread = NoThread, m_recv_thread_status = ThreadNotInited\<rparr>))"

text \<open>
  The destructor, and those of the members: a thread that was never joined ends the program.
\<close>

definition delete_RpcClient :: "('w, 'z) net_api_scheme \<Rightarrow> ('w, unit) rpc" where
  "delete_RpcClient A =
     bind (get_obj id) (\<lambda>c.
     bind (if m_use_redis c
           then bind (from_sum (deref (redis_client c))) (delete_RedisClient A)
           else ret ()) (\<lambda>_.
     case m_recv_thread c of
       Joinable _ \<Rightarrow> raise Terminated
     | _ \<Rightarrow> ret ()))"

section \<open>Starting a stream\<close>

definition tolower :: "char \<Rightarrow> char" where
  "tolower c = (if (65::nat) \<le> of_char c \<and> of_char c \<le> (90::nat) then char_of ((of_char c :: nat) + 32) else c)"

definition to_lower :: "string \<Rightarrow> string" where
  "to_lower s = map tolower s"

definition add_metadata :: "rpc_client \<Rightarrow> 'z channel_base_scheme \<Rightarrow> (string \<times> string) list" where
  "add_metadata c ch =
     [(''object-key'', to_string (unat (m_to_partyid c)) @ to_string (unat (m_partyid c))),
      (''service'', ''gaia-tensor''),
      (''x-be-host'', ''edge.tensor.grpc.trustbe.com'')] @
     map (\<lambda>(k, v). (to_lower k, v)) (filter (\<lambda>(k, v). k \<noteq> ''net_usage_redis_key'') (m_meta ch))"

definition init_sender :: "('w, 'z) net_api_scheme \<Rightarrow> 'y channel_base_scheme \<Rightarrow> ('w, unit) rpc" where
  "init_sender A ch =
     bind (get_obj id) (\<lambda>c.
     if m_use_rpc_version c \<ge> v2 then
       bind (ask (stub_push_v2 A (m_chl c) (add_metadata c ch) 10000)) (\<lambda>h.
       bind (set_obj (\<lambda>c. c\<lparr>m_rw_sender := Some h\<rparr>)) (\<lambda>_.
       case m_recv_thread c of
         Joinable _ \<Rightarrow> raise Terminated
       | _ \<Rightarrow> set_obj (\<lambda>c. c\<lparr>m_recv_thread := Joinable Spawned\<rparr>)))
     else
       bind (ask (stub_push A (m_chl c) (add_metadata c ch) 10000)) (\<lambda>h.
       set_obj (\<lambda>c. c\<lparr>m_sender := Some h\<rparr>)))"

fun version_loop :: "('w, 'z) net_api_scheme \<Rightarrow> 'y channel_base_scheme \<Rightarrow> nat \<Rightarrow> ('w, unit) rpc" where
  "version_loop A ch 0 = ret ()"
| "version_loop A ch (Suc n) =
     bind (get_obj id) (\<lambda>c.
     bind (ask (stub_get_version A (m_chl c) (add_metadata c ch))) (\<lambda>r.
     case r of
       VersionOk v \<Rightarrow> set_obj (\<lambda>c. c\<lparr>m_use_rpc_version := min v config_support_max_version\<rparr>)
     | Unimplemented \<Rightarrow> set_obj (\<lambda>c. c\<lparr>m_use_rpc_version := v1\<rparr>)
     | VersionError \<Rightarrow> bind (sleep A 1000) (\<lambda>_. version_loop A ch n)))"

definition init_rpc_version :: "('w, 'z) net_api_scheme \<Rightarrow> 'y channel_base_scheme \<Rightarrow> ('w, unit) rpc" where
  "init_rpc_version A ch =
     bind (version_loop A ch 20) (\<lambda>_.
     bind (get_obj m_use_rpc_version) (\<lambda>v.
     if v = not_inited then raise (Thrown ''init_rpc_version failed...'') else ret ()))"

text \<open>Bytes of a text literal.\<close>

definition str_bytes :: "string \<Rightarrow> bytes" where
  "str_bytes s = map (\<lambda>c. of_nat (of_char c)) s"

definition data_version_magic_string :: bytes where
  "data_version_magic_string = str_bytes ''372b2fc1839a9e161dd972c2964e11a262c419ad''"

text \<open>The content is passed by reference: the result is what it holds afterwards.\<close>

definition init_redis_data_version :: "bytes \<Rightarrow> ('w, bytes) rpc" where
  "init_redis_data_version content_temp =
     (if take (length data_version_magic_string) content_temp = data_version_magic_string
      then bind (set_obj (\<lambda>c. c\<lparr>m_use_redis_data_version := v2\<rparr>)) (\<lambda>_.
           ret (drop (length data_version_magic_string) content_temp))
      else bind (set_obj (\<lambda>c. c\<lparr>m_use_redis_data_version := v1\<rparr>)) (\<lambda>_.
           ret content_temp))"

section \<open>Sending\<close>

text \<open>
  \<^verbatim>\<open>Send(taskid, content)\<close>: whether it succeeded, and the content afterwards (it is swapped into
  the packet, and back when the write fails).
\<close>

definition Send :: "('w, 'z) net_api_scheme \<Rightarrow> 'y channel_base_scheme \<Rightarrow> string \<Rightarrow> bytes \<Rightarrow> ('w, bool \<times> bytes) rpc" where
  "Send A ch task content =
     bind (get_obj m_use_rpc_version) (\<lambda>v.
     bind (if v = not_inited then bind (init_rpc_version A ch) (\<lambda>_. init_sender A ch) else ret ()) (\<lambda>_.
     bind (interleave A) (\<lambda>_.
     bind (get_obj id) (\<lambda>c.
     if m_recv_thread_status c = ThreadFinished then ret (False, content)
     else
       (let hdr = tensor_header task (m_partyid c) (m_to_partyid c)
        in if m_use_rpc_version c \<ge> v2 then
             (case m_rw_sender c of
                None \<Rightarrow> raise NullPointer
              | Some h \<Rightarrow>
                  (let packet = \<lparr>header = hdr\<lparr>seq := m_seq c\<rparr>, body = content\<rparr>
                   in bind (ask (stream_write A h packet)) (\<lambda>flag.
                      if flag then
                        bind (from_sum (incr (m_seq c))) (\<lambda>q.
                        bind (set_obj (\<lambda>c. c\<lparr>m_seq := q\<rparr>)) (\<lambda>_.
                        bind (interleave A) (\<lambda>_.
                        bind (set_obj (\<lambda>c. c\<lparr>m_notack_queue := m_notack_queue c @ [packet]\<rparr>)) (\<lambda>_.
                        ret (True, [])))))
                      else ret (False, body packet))))
           else
             (case m_sender c of
                None \<Rightarrow> raise NullPointer
              | Some h \<Rightarrow>
                  (let packet = \<lparr>header = hdr, body = content\<rparr>
                   in bind (ask (stream_write A h packet)) (\<lambda>flag.
                      if flag then ret (True, []) else ret (False, body packet))))))))) "

section \<open>Receiving\<close>

definition list_key :: "rpc_client \<Rightarrow> string \<Rightarrow> string" where
  "list_key c task = to_string (unat (m_to_partyid c)) @ to_string (unat (m_partyid c)) @ task"

text \<open>
  What \<^verbatim>\<open>Recv\<close> does with an element of the list: skip it and go on with the loop, skip it and
  start over, or return.
\<close>

datatype verdict = NextTry | StartOver | Deliver bytes | Broken

definition check_element :: "bytes \<Rightarrow> ('w, verdict) rpc" where
  "check_element content_temp =
     bind (get_obj id) (\<lambda>c.
     if m_use_redis_data_version c \<ge> v2 then
       (if length content_temp < 4 then raise OutOfBounds
        else
          (let idx = sint (un_le32 content_temp)
           in if length content_temp = 4 \<and> idx < 0 then ret NextTry
              else
                bind (from_sum (incr (m_recv_idx c))) (\<lambda>next.
                if idx = next then
                  bind (set_obj (\<lambda>c. c\<lparr>m_recv_idx := idx\<rparr>)) (\<lambda>_. ret (Deliver (drop 4 content_temp)))
                else if idx < next then ret StartOver
                else ret Broken)))
     else ret (Deliver content_temp))"

text \<open>One \<^verbatim>\<open>brpop\<close> of the loop; a Redis error is caught and slept over.\<close>

definition pop_element :: "('w, 'z) net_api_scheme \<Rightarrow> string \<Rightarrow> ('w, bytes option option) rpc" where
  "pop_element A task =
     catch_redis_error
       (bind (get_obj id) (\<lambda>c.
        bind (from_sum (deref (redis_client c))) (\<lambda>r.
        bind (brpop A r (list_key c task) 1) (\<lambda>res.
        ret (Some (map_option snd res))))))
       (bind (sleep A 1000) (\<lambda>_. ret None))"

text \<open>
  The loop of \<^verbatim>\<open>Recv\<close> in Redis mode at counter \<^verbatim>\<open>i\<close>; the recursive call for a repeated element
  starts over at 1. \<^verbatim>\<open>nr\<close> is \<^verbatim>\<open>*need_resend\<close> (\<^verbatim>\<open>None\<close>: a null pointer). The first number is the fuel.
\<close>

fun recv_loop :: "('w, 'z) net_api_scheme \<Rightarrow> string \<Rightarrow> bytes \<Rightarrow> bool option \<Rightarrow> nat \<Rightarrow> int \<Rightarrow> ('w, bool \<times> bytes \<times> bool option) rpc" where
  "recv_loop A task content nr 0 i = stuck"
| "recv_loop A task content nr (Suc n) i =
     bind (get_obj m_redis_timeout) (\<lambda>t.
     if \<not> (i \<le> t \<or> t = 0) then ret (False, content, nr)
     else
       bind (pop_element A task) (\<lambda>popped.
       case popped of
         None \<Rightarrow> recv_loop A task content nr n (i + 1)
       | Some None \<Rightarrow>
           bind (interleave A) (\<lambda>_.
           bind (get_obj id) (\<lambda>c.
           if m_recv_thread_status c = ThreadFinished \<and> m_notack_queue c \<noteq> [] \<and> nr \<noteq> None
           then ret (False, content, Some True)
           else recv_loop A task content nr n (i + 1)))
       | Some (Some item) \<Rightarrow>
           bind (get_obj m_use_redis_data_version) (\<lambda>dv.
           bind (if dv = not_inited then init_redis_data_version item else ret item) (\<lambda>content_temp.
           bind (check_element content_temp) (\<lambda>v.
           case v of
             NextTry \<Rightarrow> recv_loop A task content nr n (i + 1)
           | StartOver \<Rightarrow> recv_loop A task content nr n 1
           | Deliver data \<Rightarrow> ret (True, data, nr)
           | Broken \<Rightarrow> ret (False, content, nr))))))"

definition pull_message :: "('w, 'z) net_api_scheme \<Rightarrow> string \<Rightarrow> bool option \<Rightarrow> ('w, bool \<times> bytes \<times> bool option) rpc" where
  "pull_message A task nr =
     bind (get_obj id) (\<lambda>c.
     bind (ask (stub_pull A (m_chl c) (tensor_header task (m_to_partyid c) (m_partyid c)))) (\<lambda>r.
     case r of
       None \<Rightarrow> raise (Thrown ''Recv from redis failed'')
     | Some packet \<Rightarrow>
         (if found (header packet) then ret (True, body packet, nr)
          else raise (Thrown ''Recv from redis timeout''))))"

definition Recv :: "('w, 'z) net_api_scheme \<Rightarrow> nat \<Rightarrow> string \<Rightarrow> bytes \<Rightarrow> bool option \<Rightarrow> ('w, bool \<times> bytes \<times> bool option) rpc" where
  "Recv A fuel task content nr =
     bind (get_obj m_use_redis) (\<lambda>redis.
     if redis then recv_loop A task content nr fuel 1 else pull_message A task nr)"

section \<open>Waiting for acknowledgements\<close>

definition flushed :: "rpc_client \<Rightarrow> bool" where
  "flushed c \<longleftrightarrow> m_notack_queue c = []"

fun wait_flush_loop :: "('w, 'z) net_api_scheme \<Rightarrow> int \<Rightarrow> int \<Rightarrow> bool option \<Rightarrow> nat \<Rightarrow> int \<Rightarrow> ('w, bool \<times> bool option) rpc" where
  "wait_flush_loop A max_msec ts_begin nr 0 current_interval = stuck"
| "wait_flush_loop A max_msec ts_begin nr (Suc n) current_interval =
     bind (interleave A) (\<lambda>_.
     bind (get_obj id) (\<lambda>c.
     if m_notack_queue c = [] then ret (True, nr)
     else if m_recv_thread_status c = ThreadFinished then ret (False, map_option (\<lambda>_. True) nr)
     else
       bind (ask (chan_ready A (m_chl c))) (\<lambda>ready.
       if \<not> ready then ret (False, map_option (\<lambda>_. True) nr)
       else
         bind (ask (steady_ms A)) (\<lambda>ts_now.
         let d = ts_now - ts_begin
         in if d \<ge> max_msec then ret (False, nr)
            else
              (let doubled = current_interval * 2;
                   interval = (if d + doubled > max_msec then max_msec - d else doubled)
               in bind (sleep A interval) (\<lambda>_. wait_flush_loop A max_msec ts_begin nr n interval))))))"

definition wait_flush :: "('w, 'z) net_api_scheme \<Rightarrow> nat \<Rightarrow> int \<Rightarrow> bool option \<Rightarrow> ('w, bool \<times> bool option) rpc" where
  "wait_flush A fuel max_msec nr =
     bind (ask (steady_ms A)) (\<lambda>ts_begin. wait_flush_loop A max_msec ts_begin nr fuel 5)"

section \<open>Moving to a new client\<close>

text \<open>The five components of the tuple: queue, sequence number, receive index and the two versions.\<close>

type_synonym continue_status = "packet list \<times> int \<times> int \<times> int \<times> int"

definition get_continue_status :: "('w, continue_status) rpc" where
  "get_continue_status =
     bind (get_obj id) (\<lambda>c.
     if m_use_rpc_version c \<ge> v2 then
       bind (set_obj (\<lambda>c. c\<lparr>m_notack_queue := []\<rparr>)) (\<lambda>_.
       ret (m_notack_queue c, m_seq c, m_recv_idx c, m_use_rpc_version c, m_use_redis_data_version c))
     else ret ([], 0, 0, m_use_rpc_version c, m_use_redis_data_version c))"

fun resend :: "('w, 'z) net_api_scheme \<Rightarrow> nat \<Rightarrow> packet list \<Rightarrow> ('w, bool) rpc" where
  "resend A h [] = ret True"
| "resend A h (e # es) =
     bind (ask (stream_write A h e)) (\<lambda>ok. if ok then resend A h es else ret False)"

definition set_continue_status :: "('w, 'z) net_api_scheme \<Rightarrow> 'y channel_base_scheme \<Rightarrow> continue_status \<Rightarrow> ('w, bool) rpc" where
  "set_continue_status A ch tup =
     (case tup of (queue, sq, idx, rpc_version, data_version) \<Rightarrow>
        bind (set_obj (\<lambda>c. c\<lparr>m_use_rpc_version := rpc_version, m_use_redis_data_version := data_version\<rparr>)) (\<lambda>_.
        if rpc_version \<ge> v2 then
          bind (set_obj (\<lambda>c. c\<lparr>m_notack_queue := queue, m_seq := sq, m_recv_idx := idx\<rparr>)) (\<lambda>_.
          bind (init_sender A ch) (\<lambda>_.
          bind (interleave A) (\<lambda>_.
          bind (get_obj id) (\<lambda>c.
          case m_rw_sender c of
            None \<Rightarrow> raise NullPointer
          | Some h \<Rightarrow> resend A h (m_notack_queue c)))))
        else ret True))"

section \<open>Finishing\<close>

definition usage_key :: "rpc_client \<Rightarrow> 'y channel_base_scheme \<Rightarrow> string" where
  "usage_key c ch =
     ''net_usage_'' @ m_channelid ch @ ''_'' @ to_string (unat (m_partyid c)) @ ''_'' @ to_string (unat (m_to_partyid c))"

definition report_usage :: "('w, 'z) net_api_scheme \<Rightarrow> 'y channel_base_scheme \<Rightarrow> ('w, unit) rpc" where
  "report_usage A ch =
     bind (get_obj id) (\<lambda>c.
     bind (from_sum (deref (redis_client c))) (\<lambda>r.
     let key = usage_key c ch
     in bind (hset_items A r key
          [(''recv_bytes'', to_string (unat (m_bytes_recv ch))), (''recv_packet'', to_string (unat (m_packet_recv ch))),
           (''send_bytes'', to_string (unat (m_bytes_send ch))), (''send_packet'', to_string (unat (m_packet_send ch)))]) (\<lambda>_.
        bind (expire A r key (3600 * 24 * 7)) (\<lambda>_.
        case get_meta_value ch ''net_usage_redis_key'' of
          None \<Rightarrow> ret ()
        | Some notify_key \<Rightarrow>
            bind (case get_meta_value ch ''mesh-urn'' of
                    None \<Rightarrow> ret ()
                  | Some u \<Rightarrow> bind (hset_pair A r key (''mesh-urn'', u)) (\<lambda>_. ret ())) (\<lambda>_.
            bind (lpush A r notify_key key) (\<lambda>_.
            bind (expire A r notify_key (3600 * 24 * 7)) (\<lambda>_. ret ())))))))"

text \<open>The end of the stream: \<^verbatim>\<open>WritesDone\<close>, \<^verbatim>\<open>Finish\<close> and, for version 2, the join. The value is \<^verbatim>\<open>status.ok()\<close>.\<close>

definition finish_stream :: "('w, 'z) net_api_scheme \<Rightarrow> nat option \<Rightarrow> ('w, bool) rpc" where
  "finish_stream A sender =
     (case sender of
        None \<Rightarrow> raise NullPointer
      | Some h \<Rightarrow>
          bind (ask (\<lambda>w. ((), stream_writes_done A h w))) (\<lambda>_.
          ask (stream_finish A h)))"

definition finish :: "('w, 'z) net_api_scheme \<Rightarrow> 'y channel_base_scheme \<Rightarrow> ('w, unit) rpc" where
  "finish A ch =
     bind (get_obj id) (\<lambda>c.
     bind (if m_use_rpc_version c = not_inited then ret True
           else if m_use_rpc_version c = v1 then finish_stream A (m_sender c)
           else if m_use_rpc_version c = v2 then
             bind (finish_stream A (m_rw_sender c)) (\<lambda>status.
             bind (interleave A) (\<lambda>_.
             bind (get_obj m_recv_thread_status) (\<lambda>st.
             bind (if st \<noteq> ThreadNotInited then join_recv_thread A else ret ()) (\<lambda>_.
             ret status))))
           else ret True) (\<lambda>status.
     bind (if m_use_redis c then catch_redis_error (report_usage A ch) (ret ()) else ret ()) (\<lambda>_.
     if status then ask (\<lambda>w. ((), chan_wait_shutdown A (m_chl c) w)) else ret ())))"

end
