(* ===== verification/FastResize.thy ===== *)
theory FastResize imports Prelude begin

text \<open>
  Resizing without initialisation (\<^verbatim>\<open>src/src/gaia_utils/fast_resize.h\<close> and
  \<^verbatim>\<open>resizeWithoutInitialization\<close> of the folly header it calls). A \<^verbatim>\<open>std::string\<close> is its
  allocated storage, whose length is the capacity, and its size. Bytes of the storage that
  nothing has written are indeterminate: they come from the parameter \<^verbatim>\<open>junk\<close>, so a statement
  for every \<^verbatim>\<open>junk\<close> says that the result does not depend on them. \<^verbatim>\<open>grow c n\<close> is the capacity
  that the library's \<^verbatim>\<open>reserve(n)\<close> picks for a string of capacity \<^verbatim>\<open>c\<close>.
\<close>

record stdstring =
  storage :: bytes
  str_size :: nat

definition string_ok :: "stdstring \<Rightarrow> bool" where
  "string_ok s \<longleftrightarrow> str_size s \<le> length (storage s)"

definition chars :: "stdstring \<Rightarrow> bytes" where
  "chars s = take (str_size s) (storage s)"

definition capacity :: "stdstring \<Rightarrow> nat" where
  "capacity s = length (storage s)"

definition string_reserve :: "(nat \<Rightarrow> nat \<Rightarrow> nat) \<Rightarrow> (nat \<Rightarrow> u8) \<Rightarrow> stdstring \<Rightarrow> nat \<Rightarrow> stdstring" where
  "string_reserve grow junk s n =
     (let c = max n (grow (capacity s) n)
      in if n \<le> capacity s then s
         else s\<lparr>storage := chars s @ map junk [str_size s..<c]\<rparr>)"

definition unsafeStringSetLargerSize :: "stdstring \<Rightarrow> nat \<Rightarrow> stdstring" where
  "unsafeStringSetLargerSize s n = s\<lparr>str_size := n\<rparr>"

definition resizeWithoutInitialization ::
    "(nat \<Rightarrow> nat \<Rightarrow> nat) \<Rightarrow> (nat \<Rightarrow> u8) \<Rightarrow> stdstring \<Rightarrow> nat \<Rightarrow> stdstring" where
  "resizeWithoutInitialization grow junk s n =
     (if n \<le> str_size s then s\<lparr>str_size := n\<rparr>
      else (let s1 = (if n > capacity s then string_reserve grow junk s n else s)
            in unsafeStringSetLargerSize s1 n))"

definition fast_resize :: "(nat \<Rightarrow> nat \<Rightarrow> nat) \<Rightarrow> (nat \<Rightarrow> u8) \<Rightarrow> stdstring \<Rightarrow> nat \<Rightarrow> stdstring" where
  "fast_resize grow junk s n = resizeWithoutInitialization grow junk s n"

lemma fast_resize_ok [simp]: "string_ok s \<Longrightarrow> string_ok (fast_resize grow junk s n)"
  by (auto simp: fast_resize_def resizeWithoutInitialization_def unsafeStringSetLargerSize_def
      string_reserve_def string_ok_def chars_def capacity_def Let_def)

lemma str_size_fast_resize [simp]: "str_size (fast_resize grow junk s n) = n"
  by (simp add: fast_resize_def resizeWithoutInitialization_def unsafeStringSetLargerSize_def Let_def)

lemma length_chars [simp]: "string_ok s \<Longrightarrow> length (chars s) = str_size s"
  by (simp add: string_ok_def chars_def)

text \<open>The bytes both strings have are kept.\<close>

lemma take_chars_fast_resize:
  assumes "string_ok s"
  shows "take (min n (str_size s)) (chars (fast_resize grow junk s n)) = take n (chars s)"
  using assms
  by (auto simp: fast_resize_def resizeWithoutInitialization_def unsafeStringSetLargerSize_def
      string_reserve_def string_ok_def chars_def capacity_def Let_def min_def)

lemma capacity_fast_resize:
  "string_ok s \<Longrightarrow> max n (capacity s) \<le> capacity (fast_resize grow junk s n)"
  by (auto simp: fast_resize_def resizeWithoutInitialization_def unsafeStringSetLargerSize_def
      string_reserve_def capacity_def string_ok_def chars_def Let_def)

lemma storage_fast_resize:
  "string_ok s \<Longrightarrow> n \<le> capacity s \<Longrightarrow> storage (fast_resize grow junk s n) = storage s"
  by (auto simp: fast_resize_def resizeWithoutInitialization_def unsafeStringSetLargerSize_def Let_def)

text \<open>Writing the characters through \<^verbatim>\<open>data()\<close>.\<close>

definition set_chars :: "stdstring \<Rightarrow> bytes \<Rightarrow> stdstring" where
  "set_chars s xs = s\<lparr>storage := xs @ drop (length xs) (storage s)\<rparr>"

lemma chars_set_chars [simp]: "length xs = str_size s \<Longrightarrow> chars (set_chars s xs) = xs"
  by (simp add: set_chars_def chars_def)

lemma str_size_set_chars [simp]: "str_size (set_chars s xs) = str_size s"
  by (simp add: set_chars_def)

lemma string_ok_set_chars [simp]:
  "string_ok s \<Longrightarrow> length xs = str_size s \<Longrightarrow> string_ok (set_chars s xs)"
  by (simp add: set_chars_def string_ok_def)

end
