(* ===== verification/Channel.thy ===== *)
theory Channel imports RpcClient FastResize begin

text \<open>
  \<^verbatim>\<open>src/src/channel.cpp\<close>: the channel over the relay. It owns up to two clients behind raw pointers,
  replaces the sending one when the connection breaks, and compresses payloads with LZ4. The
  object behind \<^verbatim>\<open>m_client\<close> is the value of the pointer, so a use after \<^verbatim>\<open>delete\<close> is a fault. An
  exception leaves the channel as it was at the throw.
\<close>

section \<open>State\<close>

record channel = channel_base +
  m_client :: "rpc_client ptr"
  m_rcv_client :: "rpc_client ptr"

type_synonym ('w, 'a) chan = "(channel \<times> 'w, 'a) prog"

text \<open>The members of a channel under construction; the constructor's body is \<^verbatim>\<open>create_channel\<close>.\<close>

definition channel_members :: "u32 \<Rightarrow> u32 \<Rightarrow> string \<Rightarrow> string \<Rightarrow> string \<Rightarrow> u32 \<Rightarrow> bool \<Rightarrow> bool \<Rightarrow> (string \<times> string) list \<Rightarrow> channel" where
  "channel_members from to task server_address redis_address connect_wait_time use_redis net_log_switch meta =
     \<lparr>m_channelid = task, m_from_party = from, m_to_party = to,
      m_bytes_send = 0, m_bytes_recv = 0, m_packet_send = 0, m_packet_recv = 0,
      m_server_address = server_address, m_redis_address = redis_address,
      m_connect_wait_time = connect_wait_time, ch_use_redis = use_redis, m_net_log_switch = net_log_switch,
      m_meta = meta, m_client = Unset, m_rcv_client = Unset\<rparr>"

text \<open>A call through \<^verbatim>\<open>m_client->\<close> and through \<^verbatim>\<open>m_rcv_client->\<close>.\<close>

definition on_client :: "(channel \<Rightarrow> ('w, 'a) rpc) \<Rightarrow> ('w, 'a) chan" where
  "on_client f s =
     (case deref (m_client (fst s)) of
        Inl e \<Rightarrow> Some (Inl e, s)
      | Inr c \<Rightarrow>
          (case f (fst s) (c, snd s) of
             None \<Rightarrow> None
           | Some (x, c', w') \<Rightarrow> Some (x, (fst s)\<lparr>m_client := Live c'\<rparr>, w')))"

definition on_rcv_client :: "(channel \<Rightarrow> ('w, 'a) rpc) \<Rightarrow> ('w, 'a) chan" where
  "on_rcv_client f s =
     (case deref (m_rcv_client (fst s)) of
        Inl e \<Rightarrow> Some (Inl e, s)
      | Inr c \<Rightarrow>
          (case f (fst s) (c, snd s) of
             None \<Rightarrow> None
           | Some (x, c', w') \<Rightarrow> Some (x, (fst s)\<lparr>m_rcv_client := Live c'\<rparr>, w')))"

section \<open>Connecting\<close>

definition create_channel :: "('w, 'z) net_api_scheme \<Rightarrow> ('w, unit) chan" where
  "create_channel A =
     bind (get_obj id) (\<lambda>ch.
     let gzip = (getenv A ''TEST_GRPC_COMPRESS'' \<noteq> None);
         new = (\<lambda>chl. RpcClient A chl (m_from_party ch) (m_to_party ch) (m_redis_address ch) (ch_use_redis ch)
                 (m_net_log_switch ch))
     in bind (ask (chan_create A (m_server_address ch) gzip)) (\<lambda>chl.
        bind (ask (chan_connected A chl (m_connect_wait_time ch))) (\<lambda>connected.
        if \<not> connected then raise (Thrown (''connect server '' @ m_server_address ch @ '' failed''))
        else
          bind (new chl) (\<lambda>c.
          bind (set_obj (\<lambda>ch. ch\<lparr>m_client := Live c\<rparr>)) (\<lambda>_.
          if \<not> ch_use_redis ch then
            bind (ask (chan_create A (m_redis_address ch) gzip)) (\<lambda>chl1.
            bind (ask (chan_connected A chl1 (m_connect_wait_time ch))) (\<lambda>_.
            bind (new chl1) (\<lambda>c1.
            set_obj (\<lambda>ch. ch\<lparr>m_rcv_client := Live c1\<rparr>))))
          else ret ())))))"

text \<open>\<^verbatim>\<open>delete m_client; m_client = nullptr;\<close>\<close>

definition delete_client :: "('w, 'z) net_api_scheme \<Rightarrow> ('w, unit) chan" where
  "delete_client A =
     bind (on_client (\<lambda>_. delete_RpcClient A)) (\<lambda>_.
     set_obj (\<lambda>ch. ch\<lparr>m_client := Null\<rparr>))"

text \<open>The receiving client is deleted and its pointer keeps the old address.\<close>

definition destroy_channel :: "('w, 'z) net_api_scheme \<Rightarrow> ('w, unit) chan" where
  "destroy_channel A =
     bind (get_obj id) (\<lambda>ch.
     bind (if \<not> ch_use_redis ch then
             bind (on_rcv_client (finish A)) (\<lambda>_.
             bind (on_rcv_client (\<lambda>_. delete_RpcClient A)) (\<lambda>_.
             set_obj (\<lambda>ch. ch\<lparr>m_rcv_client := Freed\<rparr>)))
           else ret ()) (\<lambda>_.
     bind (from_sum (ptr_test (m_client ch))) (\<lambda>has.
     if has then bind (on_client (finish A)) (\<lambda>_. delete_client A) else ret ())))"

text \<open>The reconnection that the three retry loops have in common.\<close>

definition reconnect :: "('w, 'z) net_api_scheme \<Rightarrow> ('w, bool) chan" where
  "reconnect A =
     bind (on_client (finish A)) (\<lambda>_.
     bind (on_client (\<lambda>_. get_continue_status)) (\<lambda>continue_status.
     bind (delete_client A) (\<lambda>_.
     bind (destroy_channel A) (\<lambda>_.
     bind (sleep A 1000) (\<lambda>_.
     bind (create_channel A) (\<lambda>_.
     on_client (\<lambda>ch. set_continue_status A ch continue_status)))))))"

section \<open>Sending\<close>

text \<open>
  The loop of \<^verbatim>\<open>real_send\<close>; \<^verbatim>\<open>prev\<close> is \<^verbatim>\<open>ret\<close>, the text is passed by reference.
\<close>

fun send_loop :: "('w, 'z) net_api_scheme \<Rightarrow> nat \<Rightarrow> bool \<Rightarrow> bytes \<Rightarrow> ('w, bool \<times> bytes) chan" where
  "send_loop A 0 prev str = ret (prev, str)"
| "send_loop A (Suc n) prev str =
     bind (on_client (\<lambda>ch. Send A ch (m_channelid ch) str)) (\<lambda>(ok, str').
     if ok then ret (True, str')
     else bind (reconnect A) (\<lambda>prev'. send_loop A n prev' str'))"

definition real_send :: "('w, 'z) net_api_scheme \<Rightarrow> bytes \<Rightarrow> ('w, bytes) chan" where
  "real_send A move_out_str =
     bind (send_loop A 120 False move_out_str) (\<lambda>(ok, str).
     if ok then bind (set_obj (statistics_send (of_nat (length move_out_str)))) (\<lambda>_. ret str)
     else raise (Thrown ''send data failed...''))"

definition send_string :: "('w, 'z) net_api_scheme \<Rightarrow> bytes \<Rightarrow> ('w, bytes) chan" where
  "send_string A str = real_send A str"

definition send_buffer :: "('w, 'z) net_api_scheme \<Rightarrow> bytes \<Rightarrow> u64 \<Rightarrow> ('w, unit) chan" where
  "send_buffer A buf nbytes =
     (if unat nbytes \<le> length buf then bind (real_send A (take (unat nbytes) buf)) (\<lambda>_. ret ())
      else raise OutOfBounds)"

section \<open>Receiving\<close>

fun recv_local_loop :: "('w, 'z) net_api_scheme \<Rightarrow> nat \<Rightarrow> nat \<Rightarrow> bytes \<Rightarrow> ('w, bytes) chan" where
  "recv_local_loop A fuel 0 str = stuck"
| "recv_local_loop A fuel (Suc n) str =
     bind (on_rcv_client (\<lambda>ch. Recv A fuel (m_channelid ch) str None)) (\<lambda>(ok, str', _).
     if ok then ret str'
     else bind (sleep A 20) (\<lambda>_. recv_local_loop A fuel n str'))"

fun recv_retry_loop :: "('w, 'z) net_api_scheme \<Rightarrow> nat \<Rightarrow> nat \<Rightarrow> bool \<Rightarrow> bytes \<Rightarrow> ('w, bool \<times> bytes) chan" where
  "recv_retry_loop A fuel 0 prev str = ret (prev, str)"
| "recv_retry_loop A fuel (Suc n) prev str =
     bind (on_client (\<lambda>ch. Recv A fuel (m_channelid ch) str (Some False))) (\<lambda>(ok, str', need_retry).
     if ok then ret (True, str')
     else if need_retry \<noteq> Some True then ret (False, str')
     else bind (reconnect A) (\<lambda>prev'. recv_retry_loop A fuel n prev' str'))"

definition real_recv :: "('w, 'z) net_api_scheme \<Rightarrow> nat \<Rightarrow> bytes \<Rightarrow> ('w, bytes) chan" where
  "real_recv A fuel move_in_str =
     bind (get_obj id) (\<lambda>ch.
     bind (if \<not> ch_use_redis ch then recv_local_loop A fuel fuel move_in_str
           else
             bind (recv_retry_loop A fuel 120 False move_in_str) (\<lambda>(ok, str).
             if ok then ret str else raise (Thrown ''recv data failed...''))) (\<lambda>str.
     bind (set_obj (statistics_recv (of_nat (length str)))) (\<lambda>_. ret str)))"

definition recv_string :: "('w, 'z) net_api_scheme \<Rightarrow> nat \<Rightarrow> bytes \<Rightarrow> ('w, bytes) chan" where
  "recv_string A fuel str = real_recv A fuel str"

text \<open>\<^verbatim>\<open>memcpy(pbuf, str.data(), length)\<close>: the check of the length is commented out.\<close>

definition copy_out :: "bytes \<Rightarrow> bytes \<Rightarrow> u64 \<Rightarrow> fault + bytes" where
  "copy_out pbuf str len = memcpy pbuf 0 str 0 (unat len)"

definition recv_buffer :: "('w, 'z) net_api_scheme \<Rightarrow> nat \<Rightarrow> bytes \<Rightarrow> u64 \<Rightarrow> ('w, bytes) chan" where
  "recv_buffer A fuel pbuf len =
     bind (real_recv A fuel []) (\<lambda>str. from_sum (copy_out pbuf str len))"

section \<open>Compression\<close>

text \<open>
  The LZ4 library: \<^verbatim>\<open>LZ4_compressBound\<close>, \<^verbatim>\<open>LZ4_compress_default\<close> of so many source bytes into a
  buffer of the given capacity (empty: it failed and returned 0), and what \<^verbatim>\<open>LZ4_decompress_safe\<close> leaves in the destination
  (the code does not look at its result).
\<close>

record lz4_api =
  lz4_bound :: "int \<Rightarrow> int"
  lz4_compress :: "bytes \<Rightarrow> int \<Rightarrow> int \<Rightarrow> bytes"
  lz4_decompress :: "bytes \<Rightarrow> bytes \<Rightarrow> bytes"

text \<open>\<^verbatim>\<open>len\<close> is an \<^verbatim>\<open>int\<close>; \<^verbatim>\<open>resize\<close> of a negative value throws \<^verbatim>\<open>std::length_error\<close>.\<close>

definition get_lz4_compress_str :: "lz4_api \<Rightarrow> bytes \<Rightarrow> i32 \<Rightarrow> fault + bytes" where
  "get_lz4_compress_str L data len =
     (let cap = lz4_bound L (sint len)
      in if cap + 4 < 0 then Inl (Thrown ''std::length_error'')
         else if int (length data) < sint len then Inl OutOfBounds
         else Inr (le32 len @ lz4_compress L data (sint len) cap))"

definition get_lz4_decompress_str :: "lz4_api \<Rightarrow> bytes \<Rightarrow> i32 \<Rightarrow> fault + bytes" where
  "get_lz4_decompress_str L data len =
     (if length data < 4 \<or> length data < unat len \<or> sint len < 4 then Inl OutOfBounds
      else
        (let origin_len = un_le32 data
         in if sint origin_len < 0 then Inl (Thrown ''std::length_error'')
            else Inr (lz4_decompress L (drop 4 (take (unat len) data)) (replicate (unat origin_len) 0))))"

definition send_with_compress :: "('w, 'z) net_api_scheme \<Rightarrow> lz4_api \<Rightarrow> bytes \<Rightarrow> u64 \<Rightarrow> ('w, unit) chan" where
  "send_with_compress A L buf nbytes =
     bind (from_sum (get_lz4_compress_str L buf (ucast nbytes))) (\<lambda>compress_str.
     bind (real_send A compress_str) (\<lambda>_. ret ()))"

definition recv_with_decompress :: "('w, 'z) net_api_scheme \<Rightarrow> lz4_api \<Rightarrow> nat \<Rightarrow> ('w, bytes) chan" where
  "recv_with_decompress A L fuel =
     bind (real_recv A fuel []) (\<lambda>compress_str.
     from_sum (get_lz4_decompress_str L compress_str (of_nat (length compress_str))))"

definition recv_with_decompress_buffer :: "('w, 'z) net_api_scheme \<Rightarrow> lz4_api \<Rightarrow> nat \<Rightarrow> bytes \<Rightarrow> u64 \<Rightarrow> ('w, bytes) chan" where
  "recv_with_decompress_buffer A L fuel pbuf len =
     bind (recv_with_decompress A L fuel) (\<lambda>str. from_sum (copy_out pbuf str len))"

section \<open>Flushing and closing\<close>

fun flush_loop :: "('w, 'z) net_api_scheme \<Rightarrow> nat \<Rightarrow> nat \<Rightarrow> ('w, bool) chan" where
  "flush_loop A fuel 0 = ret True"
| "flush_loop A fuel (Suc n) =
     bind (on_client (\<lambda>_. wait_flush A fuel 10000 (Some False))) (\<lambda>(flag, need_retry).
     if flag then ret True
     else if need_retry \<noteq> Some True then ret False
     else bind (reconnect A) (\<lambda>_. flush_loop A fuel n))"

definition flush :: "('w, 'z) net_api_scheme \<Rightarrow> nat \<Rightarrow> ('w, bool) chan" where
  "flush A fuel = flush_loop A fuel 120"

definition client_finish :: "('w, 'z) net_api_scheme \<Rightarrow> ('w, unit) chan" where
  "client_finish A =
     bind (get_obj m_client) (\<lambda>p.
     bind (from_sum (ptr_test p)) (\<lambda>has.
     if has then bind (on_client (finish A)) (\<lambda>_. delete_client A) else ret ()))"

definition delete_channel :: "('w, 'z) net_api_scheme \<Rightarrow> nat \<Rightarrow> ('w, unit) chan" where
  "delete_channel A fuel =
     bind (get_obj m_client) (\<lambda>p.
     bind (from_sum (ptr_test p)) (\<lambda>has.
     bind (if has then
             bind (on_client (\<lambda>_. get_obj flushed)) (\<lambda>fl.
             if fl then ret () else bind (on_client (\<lambda>_. wait_flush A fuel 10000 None)) (\<lambda>_. ret ()))
           else ret ()) (\<lambda>_.
     destroy_channel A)))"

end
