(* ===== verification/RpcDelivery.thy ===== *)
theory RpcDelivery imports RpcClient begin

text \<open>
  Properties of \<^verbatim>\<open>RpcClient\<close>: the invariant of the queue of unacknowledged packets under the
  receiving thread, numbering and resending, the in-order filter of \<^verbatim>\<open>Recv\<close> as a function on
  the elements it pops, the bounds of \<^verbatim>\<open>wait_flush\<close> and of the version negotiation.
\<close>

section \<open>The queue of unacknowledged packets\<close>

definition packet_seqs :: "packet list \<Rightarrow> int list" where
  "packet_seqs q = map (\<lambda>p. seq (header p)) q"

text \<open>
  The queue holds consecutive packets, the newest numbered just below \<^verbatim>\<open>n\<close>; the thread exists
  only with a stream, pops only from a queue with an element, and its status tells where it is.
\<close>

definition rpc_inv_at :: "int \<Rightarrow> rpc_client \<Rightarrow> bool" where
  "rpc_inv_at n c \<longleftrightarrow>
     packet_seqs (m_notack_queue c) = [n - int (length (m_notack_queue c)) .. n - 1] \<and>
     (\<forall>pc. m_recv_thread c = Joinable pc \<longrightarrow> m_rw_sender c \<noteq> None) \<and>
     (m_recv_thread c = Joinable Popping \<longrightarrow> m_notack_queue c \<noteq> []) \<and>
     (m_recv_thread_status c = ThreadNotInited \<longleftrightarrow> m_recv_thread c \<in> {NoThread, Joinable Spawned}) \<and>
     (m_recv_thread_status c = ThreadFinished \<longrightarrow> m_recv_thread c \<in> {Joinable Exited, Joined})"

abbreviation rpc_inv :: "rpc_client \<Rightarrow> bool" where
  "rpc_inv c \<equiv> rpc_inv_at (m_seq c) c"

text \<open>What the receiving thread may change: its own state, and the front of the queue.\<close>

definition evolves :: "rpc_client \<Rightarrow> rpc_client \<Rightarrow> bool" where
  "evolves c c' \<longleftrightarrow>
     (\<exists>k t st. c' = c\<lparr>m_notack_queue := drop k (m_notack_queue c), m_recv_thread := t, m_recv_thread_status := st\<rparr>)"

lemma evolves_refl [simp]: "evolves c c"
proof -
  have "c = c\<lparr>m_notack_queue := drop 0 (m_notack_queue c), m_recv_thread := m_recv_thread c,
      m_recv_thread_status := m_recv_thread_status c\<rparr>"
    by simp
  then show ?thesis
    unfolding evolves_def by blast
qed

lemma evolves_trans: "evolves c d \<Longrightarrow> evolves d e \<Longrightarrow> evolves c e"
  by (fastforce simp: evolves_def)

lemma evolves_fields:
  assumes "evolves c c'"
  shows "m_partyid c' = m_partyid c" "m_to_partyid c' = m_to_partyid c" "m_use_redis c' = m_use_redis c"
    "m_chl c' = m_chl c" "m_sender c' = m_sender c" "m_rw_sender c' = m_rw_sender c"
    "redis_client c' = redis_client c" "m_redis_timeout c' = m_redis_timeout c"
    "m_use_rpc_version c' = m_use_rpc_version c" "m_use_redis_data_version c' = m_use_redis_data_version c"
    "m_seq c' = m_seq c" "m_recv_idx c' = m_recv_idx c"
  using assms by (auto simp: evolves_def)

lemma evolves_queue: "evolves c c' \<Longrightarrow> \<exists>k. m_notack_queue c' = drop k (m_notack_queue c)"
  unfolding evolves_def by (elim exE) (rule exI, simp)

lemma evolves_thread:
  "evolves c (c\<lparr>m_recv_thread := t\<rparr>)"
  "evolves c (c\<lparr>m_recv_thread_status := st, m_recv_thread := t\<rparr>)"
  "m_notack_queue c = p # q \<Longrightarrow> evolves c (c\<lparr>m_notack_queue := q, m_recv_thread := t\<rparr>)"
proof -
  have "c\<lparr>m_recv_thread := t\<rparr> = c\<lparr>m_notack_queue := drop 0 (m_notack_queue c), m_recv_thread := t,
      m_recv_thread_status := m_recv_thread_status c\<rparr>"
    by simp
  then show "evolves c (c\<lparr>m_recv_thread := t\<rparr>)"
    unfolding evolves_def by blast
  have "c\<lparr>m_recv_thread_status := st, m_recv_thread := t\<rparr> =
      c\<lparr>m_notack_queue := drop 0 (m_notack_queue c), m_recv_thread := t, m_recv_thread_status := st\<rparr>"
    by simp
  then show "evolves c (c\<lparr>m_recv_thread_status := st, m_recv_thread := t\<rparr>)"
    unfolding evolves_def by blast
  assume "m_notack_queue c = p # q"
  then have "c\<lparr>m_notack_queue := q, m_recv_thread := t\<rparr> = c\<lparr>m_notack_queue := drop 1 (m_notack_queue c),
      m_recv_thread := t, m_recv_thread_status := m_recv_thread_status c\<rparr>"
    by simp
  then show "evolves c (c\<lparr>m_notack_queue := q, m_recv_thread := t\<rparr>)"
    unfolding evolves_def by blast
qed

lemma packet_seqs_Cons:
  assumes "packet_seqs (p # q) = [n - int (length (p # q)) .. n - 1]"
  shows "packet_seqs q = [n - int (length q) .. n - 1]"
proof -
  have "[n - int (length (p # q)) .. n - 1] = (n - int (length q) - 1) # [n - int (length q) .. n - 1]"
    by (subst upto_rec1) (auto simp: algebra_simps)
  then show ?thesis
    using assms by (simp add: packet_seqs_def)
qed

lemma recv_thread_step_cases:
  assumes "recv_thread_step A (c, w) = Some (r, c', w')" "rpc_inv_at n c"
  shows "r = Inr () \<and> rpc_inv_at n c' \<and> evolves c c'"
proof (cases "m_recv_thread c")
  case NoThread
  then show ?thesis
    using assms by (auto simp: recv_thread_step_def prog)
next
  case Joined
  then show ?thesis
    using assms by (auto simp: recv_thread_step_def prog)
next
  case (Joinable pc)
  obtain h where h: "m_rw_sender c = Some h"
    using assms(2) Joinable by (auto simp: rpc_inv_at_def)
  show ?thesis
  proof (cases pc)
    case Spawned
    then show ?thesis
      using assms Joinable h by (auto simp: recv_thread_step_def prog rpc_inv_at_def evolves_thread)
  next
    case Reading
    then show ?thesis
      using assms Joinable h
      by (auto simp: recv_thread_step_def prog rpc_inv_at_def evolves_thread split: prod.splits read_event.splits)
  next
    case (GotAck a)
    then show ?thesis
      using assms Joinable h
      by (auto simp: recv_thread_step_def prog rpc_inv_at_def evolves_thread split: if_splits)
  next
    case Popping
    then obtain p q where q: "m_notack_queue c = p # q"
      using assms(2) Joinable by (cases "m_notack_queue c") (auto simp: rpc_inv_at_def)
    then have "packet_seqs q = [n - int (length q) .. n - 1]"
      using assms(2) packet_seqs_Cons [of p q n] by (simp add: rpc_inv_at_def)
    then show ?thesis
      using assms Joinable h Popping q by (auto simp: recv_thread_step_def prog rpc_inv_at_def evolves_thread)
  next
    case Closing
    then show ?thesis
      using assms Joinable h by (auto simp: recv_thread_step_def prog rpc_inv_at_def evolves_thread)
  next
    case Exited
    then show ?thesis
      using assms Joinable h by (auto simp: recv_thread_step_def prog)
  qed
qed

lemma recv_thread_step_ends [simp]: "ends (recv_thread_step A) s"
  unfolding recv_thread_step_def
  by (intro ends_bind) (auto split: thread_handle.split thread_pc.split option.split list.split read_event.split intro!: ends_bind)

lemma recv_thread_run_ends [simp]: "ends (recv_thread_run A n) s"
  by (induction n arbitrary: s) (auto intro!: ends_bind)

lemma interleave_ends [simp]: "ends (interleave A) s"
  by (auto simp: interleave_def intro!: ends_bind)

lemma recv_thread_run_inv:
  "hoare (\<lambda>s. rpc_inv_at n (fst s) \<and> evolves c (fst s)) (recv_thread_run A k)
     (\<lambda>_ s. rpc_inv_at n (fst s) \<and> evolves c (fst s)) (\<lambda>_ _. False)"
proof (induction k)
  case 0
  show ?case
    by (simp add: hoare_def ret_def)
next
  case (Suc k)
  have "hoare (\<lambda>s. rpc_inv_at n (fst s) \<and> evolves c (fst s)) (recv_thread_step A)
     (\<lambda>_ s. rpc_inv_at n (fst s) \<and> evolves c (fst s)) (\<lambda>_ _. False)"
  proof (rule hoareI)
    fix s e and s' :: "rpc_client \<times> 'a"
    assume "rpc_inv_at n (fst s) \<and> evolves c (fst s)" "recv_thread_step A s = Some (Inl e, s')"
    then show False
      using recv_thread_step_cases [of A "fst s" "snd s" "Inl e" "fst s'" "snd s'" n] by simp
  next
    fix s a and s' :: "rpc_client \<times> 'a"
    assume "rpc_inv_at n (fst s) \<and> evolves c (fst s)" "recv_thread_step A s = Some (Inr a, s')"
    then show "rpc_inv_at n (fst s') \<and> evolves c (fst s')"
      using recv_thread_step_cases [of A "fst s" "snd s" "Inr a" "fst s'" "snd s'" n] evolves_trans by auto
  qed
  then show ?case
    using Suc by (auto intro: hoare_bind)
qed

lemma interleave_inv:
  "hoare (\<lambda>s. rpc_inv_at n (fst s) \<and> evolves c (fst s)) (interleave A)
     (\<lambda>_ s. rpc_inv_at n (fst s) \<and> evolves c (fst s)) (\<lambda>_ _. False)"
  unfolding interleave_def
  by (rule hoare_bind [where R = "\<lambda>_ s. rpc_inv_at n (fst s) \<and> evolves c (fst s)"])
    (auto intro: hoare_pre [OF hoare_ask] recv_thread_run_inv)

text \<open>
  A relation on worlds that the calls made by the receiving thread and the scheduler respect:
  what a property assumes of those calls.
\<close>

definition thread_respects :: "('w, 'z) net_api_scheme \<Rightarrow> ('w \<Rightarrow> 'w \<Rightarrow> bool) \<Rightarrow> bool" where
  "thread_respects A R \<longleftrightarrow>
     (\<forall>w. R w w) \<and> (\<forall>u v w. R u v \<longrightarrow> R v w \<longrightarrow> R u w) \<and>
     (\<forall>w. R w (snd (schedule A w))) \<and> (\<forall>h w. R w (snd (stream_read A h w)))"

lemma thread_respects_refl: "thread_respects A R \<Longrightarrow> R w w"
  by (simp add: thread_respects_def)

lemma thread_respects_trans: "thread_respects A R \<Longrightarrow> R u v \<Longrightarrow> R v w \<Longrightarrow> R u w"
  unfolding thread_respects_def by blast

lemma recv_thread_step_respects:
  assumes R: "thread_respects A R" and run: "recv_thread_step A (c, w) = Some (r, c', w')"
  shows "R w w'"
proof -
  have "w' = w \<or> (\<exists>h. w' = snd (stream_read A h w))"
    using run
    by (auto simp: recv_thread_step_def prog split: thread_handle.splits thread_pc.splits option.splits
        prod.splits read_event.splits if_splits list.splits) (metis snd_conv)+
  then show ?thesis
    using R by (auto simp: thread_respects_def)
qed

lemma recv_thread_run_respects:
  assumes R: "thread_respects A R" and run: "recv_thread_run A n (c, w) = Some (r, c', w')"
  shows "R w w'"
  using run
proof (induction n arbitrary: c w)
  case 0
  then show ?case
    using R by (simp add: prog thread_respects_refl)
next
  case (Suc n)
  then show ?case
    using recv_thread_step_respects [OF R] thread_respects_trans [OF R]
    by (fastforce simp: bind_def split: option.splits prod.splits sum.splits)
qed

lemma interleave_respects:
  assumes R: "thread_respects A R" and run: "interleave A (c, w) = Some (r, c', w')"
  shows "R w w'"
proof -
  obtain n v where v: "schedule A w = (n, v)"
    by fastforce
  have "R w v"
    using R v by (metis snd_conv thread_respects_def)
  moreover have "recv_thread_run A n (c, v) = Some (r, c', w')"
    using run v by (simp add: interleave_def bind_def ask_def)
  ultimately show ?thesis
    using recv_thread_run_respects [OF R] thread_respects_trans [OF R] by blast
qed

lemma interleave_total:
  assumes "rpc_inv_at n c"
  obtains c' w' where "interleave A (c, w) = Some (Inr (), c', w')" "rpc_inv_at n c'" "evolves c c'"
    "\<forall>R. thread_respects A R \<longrightarrow> R w w'"
proof -
  obtain r s' where run: "interleave A (c, w) = Some (r, s')"
    using interleave_ends [of A "(c, w)"] by (auto simp: ends_def)
  have pre: "rpc_inv_at n (fst (c, w)) \<and> evolves c (fst (c, w))"
    using assms by simp
  show ?thesis
  proof (cases r)
    case (Inl e)
    then show ?thesis
      using hoare_fault [OF interleave_inv pre run [unfolded Inl]] by simp
  next
    case (Inr u)
    have "R w (snd s')" if "thread_respects A R" for R
      using interleave_respects [OF that, of c w r "fst s'" "snd s'"] run by simp
    then show ?thesis
      using hoare_value [OF interleave_inv pre run [unfolded Inr]] run Inr that [of "fst s'" "snd s'"]
      by simp blast
  qed
qed

section \<open>Numbering\<close>

text \<open>
  A view of the world that lists the packets that streams have accepted: every successful write
  appends its packet, nothing else changes it.
\<close>

definition records_writes :: "('w, 'z) net_api_scheme \<Rightarrow> ('w \<Rightarrow> packet list) \<Rightarrow> bool" where
  "records_writes A sent \<longleftrightarrow>
     (\<forall>h p w. sent (snd (stream_write A h p w)) = sent w @ (if fst (stream_write A h p w) then [p] else [])) \<and>
     thread_respects A (\<lambda>w w'. sent w' = sent w) \<and>
     (\<forall>ch md n w. sent (snd (stub_push A ch md n w)) = sent w) \<and>
     (\<forall>ch md n w. sent (snd (stub_push_v2 A ch md n w)) = sent w)"

definition seq_packet :: "rpc_client \<Rightarrow> string \<Rightarrow> bytes \<Rightarrow> packet" where
  "seq_packet c task content =
     \<lparr>header = (tensor_header task (m_partyid c) (m_to_partyid c))\<lparr>seq := m_seq c\<rparr>, body = content\<rparr>"

lemma seq_packet_simps [simp]:
  "seq (header (seq_packet c task content)) = m_seq c" "body (seq_packet c task content) = content"
  by (simp_all add: seq_packet_def)

text \<open>The fields that a send leaves alone.\<close>

definition same_setup :: "rpc_client \<Rightarrow> rpc_client \<Rightarrow> bool" where
  "same_setup c c' \<longleftrightarrow>
     m_partyid c' = m_partyid c \<and> m_to_partyid c' = m_to_partyid c \<and> m_use_redis c' = m_use_redis c \<and>
     m_chl c' = m_chl c \<and> m_sender c' = m_sender c \<and> m_rw_sender c' = m_rw_sender c \<and>
     redis_client c' = redis_client c \<and> m_redis_timeout c' = m_redis_timeout c \<and>
     m_use_rpc_version c' = m_use_rpc_version c \<and>
     m_use_redis_data_version c' = m_use_redis_data_version c \<and> m_recv_idx c' = m_recv_idx c"

lemma rpc_inv_at_snoc:
  assumes "rpc_inv_at n c" "seq (header p) = n"
  shows "rpc_inv_at (n + 1) (c\<lparr>m_notack_queue := m_notack_queue c @ [p]\<rparr>)"
proof -
  have "[n - int (length (m_notack_queue c)) .. n - 1] @ [n] = [n - int (length (m_notack_queue c)) .. n]"
    by (subst (2) upto_rec2) auto
  then show ?thesis
    using assms by (auto simp: rpc_inv_at_def packet_seqs_def)
qed

lemma rpc_inv_at_seq [simp]: "rpc_inv_at n (c\<lparr>m_seq := k\<rparr>) = rpc_inv_at n c"
  by (simp add: rpc_inv_at_def)

lemma send_v2:
  assumes inv: "rpc_inv c" and v: "m_use_rpc_version c \<ge> v2" and h: "m_rw_sender c = Some h"
    and max: "m_seq c < int_max" and rec: "records_writes A sent"
  obtains ok rest c' w' where "Send A ch task content (c, w) = Some (Inr (ok, rest), c', w')"
    "rpc_inv c'" "same_setup c c'"
    "ok \<longrightarrow> rest = [] \<and> m_seq c' = m_seq c + 1 \<and> sent w' = sent w @ [seq_packet c task content] \<and>
       (\<exists>k. m_notack_queue c' = drop k (m_notack_queue c @ [seq_packet c task content]))"
    "\<not> ok \<longrightarrow> rest = content \<and> m_seq c' = m_seq c \<and> sent w' = sent w \<and>
       (\<exists>k. m_notack_queue c' = drop k (m_notack_queue c))"
proof -
  let ?p = "seq_packet c task content"
  have thr: "thread_respects A (\<lambda>w w'. sent w' = sent w)"
    using rec by (simp add: records_writes_def)
  obtain c1 w1 where 1: "interleave A (c, w) = Some (Inr (), c1, w1)" "rpc_inv_at (m_seq c) c1" "evolves c c1"
    and w1: "\<forall>R. thread_respects A R \<longrightarrow> R w w1"
    using interleave_total [OF inv, of A w] by blast
  note [simp] = evolves_fields [OF 1(3)]
  have sent1: "sent w1 = sent w"
    using w1 thr by blast
  have vi: "m_use_rpc_version c \<noteq> not_inited"
    using v by (simp add: v2_def not_inited_def)
  have pkt: "\<lparr>header = (tensor_header task (m_partyid c) (m_to_partyid c))\<lparr>seq := m_seq c\<rparr>, body = content\<rparr> = ?p"
    by (simp add: seq_packet_def)
  obtain k where k: "m_notack_queue c1 = drop k (m_notack_queue c)"
    using evolves_queue [OF 1(3)] by blast
  obtain flag w2 where wr: "stream_write A h ?p w1 = (flag, w2)"
    by fastforce
  have sent2: "sent w2 = sent w1 @ (if flag then [?p] else [])"
    using rec wr by (metis fst_conv records_writes_def snd_conv)
  show ?thesis
  proof (cases "m_recv_thread_status c1 = ThreadFinished")
    case True
    have "Send A ch task content (c, w) = Some (Inr (False, content), c1, w1)"
      using vi True 1(1) by (simp add: Send_def bind_def get_obj_def ret_def)
    then show ?thesis
      by (rule that) (use 1 k sent1 in \<open>auto simp: same_setup_def\<close>)
  next
    case live: False
    show ?thesis
    proof (cases flag)
      case False
      have "Send A ch task content (c, w) = Some (Inr (False, content), c1, w2)"
        using vi v h live False 1(1,3) wr pkt
        by (simp add: Send_def bind_def get_obj_def ret_def ask_def Let_def)
      then show ?thesis
        by (rule that) (use 1 k sent1 sent2 False in \<open>auto simp: same_setup_def\<close>)
    next
      case True
      have inv2: "rpc_inv_at (m_seq c) (c1\<lparr>m_seq := m_seq c + 1\<rparr>)"
        using 1(2) by simp
      obtain c3 w3 where 3: "interleave A (c1\<lparr>m_seq := m_seq c + 1\<rparr>, w2) = Some (Inr (), c3, w3)"
        "rpc_inv_at (m_seq c) c3" "evolves (c1\<lparr>m_seq := m_seq c + 1\<rparr>) c3"
        and w3: "\<forall>R. thread_respects A R \<longrightarrow> R w2 w3"
        using interleave_total [OF inv2, of A w2] by blast
      note [simp] = evolves_fields [OF 3(3)]
      have sent3: "sent w3 = sent w2"
        using w3 thr by blast
      obtain k3 where k3: "m_notack_queue c3 = drop k3 (drop k (m_notack_queue c))"
        using evolves_queue [OF 3(3)] k by auto
      let ?c = "c3\<lparr>m_notack_queue := m_notack_queue c3 @ [?p]\<rparr>"
      have run: "Send A ch task content (c, w) = Some (Inr (True, []), ?c, w3)"
        using vi v h live True 1(1,3) wr pkt 3(1) max
        by (simp add: Send_def bind_def get_obj_def set_obj_def ret_def ask_def Let_def int_max_def)
      have "rpc_inv ?c"
        using rpc_inv_at_snoc [OF 3(2), of ?p] 3(3) by simp
      moreover have "\<exists>j. m_notack_queue c3 @ [?p] = drop j (m_notack_queue c @ [?p])"
      proof -
        obtain j where j: "j \<le> length (m_notack_queue c)" "m_notack_queue c3 = drop j (m_notack_queue c)"
          using k3 by (metis drop_drop drop_all linorder_le_cases order_refl)
        then show ?thesis
          by (intro exI [of _ j]) simp
      qed
      ultimately show ?thesis
        using run
        by (intro that [OF run]) (use 1(3) 3(3) sent1 sent2 sent3 True in \<open>auto simp: same_setup_def\<close>)
    qed
  qed
qed

text \<open>The receiving thread stays joinable by running.\<close>

definition joinable :: "rpc_client \<Rightarrow> bool" where
  "joinable c \<longleftrightarrow> (\<exists>pc. m_recv_thread c = Joinable pc)"

lemma recv_thread_step_joinable:
  assumes "recv_thread_step A (c, w) = Some (r, c', w')"
  shows "joinable c' = joinable c"
  using assms
  by (auto simp: recv_thread_step_def prog joinable_def split: thread_handle.splits thread_pc.splits option.splits
      prod.splits read_event.splits if_splits list.splits)

lemma recv_thread_run_joinable:
  "recv_thread_run A n (c, w) = Some (r, c', w') \<Longrightarrow> joinable c' = joinable c"
proof (induction n arbitrary: c w)
  case 0
  then show ?case by (simp add: ret_def)
next
  case (Suc n)
  obtain x c1 w1 where 1: "recv_thread_step A (c, w) = Some (x, c1, w1)"
    using recv_thread_step_ends [of A "(c, w)"] by (auto simp: ends_def)
  show ?case
    using Suc.prems Suc.IH [of c1 w1] recv_thread_step_joinable [OF 1] 1
    by (cases x) (auto simp: bind_def)
qed

lemma interleave_joinable:
  assumes "interleave A (c, w) = Some (r, c', w')"
  shows "joinable c' = joinable c"
proof -
  obtain n v where "schedule A w = (n, v)"
    by fastforce
  then show ?thesis
    using assms recv_thread_run_joinable [of A n c v r c' w'] by (simp add: interleave_def bind_def ask_def)
qed

text \<open>A thread that has run its first statement stays so.\<close>

definition started :: "rpc_client \<Rightarrow> bool" where
  "started c \<longleftrightarrow> m_recv_thread c \<notin> {NoThread, Joinable Spawned}"

lemma recv_thread_step_started:
  assumes "recv_thread_step A (c, w) = Some (r, c', w')" "started c"
  shows "started c'"
  using assms
  by (auto simp: recv_thread_step_def prog started_def split: thread_handle.splits thread_pc.splits option.splits
      prod.splits read_event.splits if_splits list.splits)

lemma recv_thread_run_started:
  "recv_thread_run A n (c, w) = Some (r, c', w') \<Longrightarrow> started c \<Longrightarrow> started c'"
proof (induction n arbitrary: c w)
  case 0
  then show ?case by (simp add: ret_def)
next
  case (Suc n)
  obtain x c1 w1 where 1: "recv_thread_step A (c, w) = Some (x, c1, w1)"
    using recv_thread_step_ends [of A "(c, w)"] by (auto simp: ends_def)
  show ?case
    using Suc.prems(1) Suc.IH [of c1 w1] recv_thread_step_started [OF 1 Suc.prems(2)] 1
    by (cases x) (auto simp: bind_def)
qed

lemma interleave_started:
  assumes "interleave A (c, w) = Some (r, c', w')" "started c"
  shows "started c'"
proof -
  obtain n v where "schedule A w = (n, v)"
    by fastforce
  then show ?thesis
    using assms recv_thread_run_started [of A n c v r c' w'] by (simp add: interleave_def bind_def ask_def)
qed

section \<open>Reconnecting\<close>

lemma resend_total:
  assumes "records_writes A sent"
  shows "\<exists>ok w' j. resend A h q (c, w) = Some (Inr ok, c, w') \<and> sent w' = sent w @ take j q \<and>
    (ok \<longrightarrow> j = length q)"
proof (induction q arbitrary: w)
  case Nil
  show ?case
    by (rule exI [of _ True]) (simp add: prog)
next
  case (Cons e q)
  obtain ok w1 where wr: "stream_write A h e w = (ok, w1)"
    by fastforce
  have s1: "sent w1 = sent w @ (if ok then [e] else [])"
    using assms wr by (metis fst_conv records_writes_def snd_conv)
  show ?case
  proof (cases ok)
    case False
    then show ?thesis
      using wr s1 by (intro exI [of _ False] exI [of _ w1] exI [of _ 0]) (simp add: prog)
  next
    case True
    obtain ok' w' j where "resend A h q (c, w1) = Some (Inr ok', c, w')" "sent w' = sent w1 @ take j q"
      "ok' \<longrightarrow> j = length q"
      using Cons.IH by blast
    then show ?thesis
      using wr s1 True
      by (intro exI [of _ ok'] exI [of _ w'] exI [of _ "Suc j"]) (simp add: prog)
  qed
qed

definition fresh_client :: "rpc_client \<Rightarrow> bool" where
  "fresh_client c \<longleftrightarrow>
     m_sender c = None \<and> m_rw_sender c = None \<and> m_use_rpc_version c = not_inited \<and>
     m_use_redis_data_version c = not_inited \<and> m_seq c = 0 \<and> m_recv_idx c = -1 \<and> m_notack_queue c = [] \<and>
     m_recv_thread c = NoThread \<and> m_recv_thread_status c = ThreadNotInited"

lemma fresh_client_inv: "fresh_client c \<Longrightarrow> rpc_inv c"
  by (simp add: fresh_client_def rpc_inv_at_def packet_seqs_def)

lemma set_continue_v2:
  assumes fresh: "fresh_client c0" and v: "rv \<ge> v2" and rec: "records_writes A sent"
    and q: "packet_seqs q = [sq - int (length q) .. sq - 1]"
  obtains ok c' w' k j where
    "set_continue_status A ch (q, sq, idx, rv, dv) (c0, w) = Some (Inr ok, c', w')"
    "rpc_inv c'" "m_seq c' = sq" "m_recv_idx c' = idx" "m_use_rpc_version c' = rv"
    "m_use_redis_data_version c' = dv" "m_notack_queue c' = drop k q" "m_rw_sender c' \<noteq> None"
    "joinable c'" "m_use_redis c' = m_use_redis c0" "redis_client c' = redis_client c0"
    "sent w' = sent w @ take j (drop k q)" "ok \<longrightarrow> j = length (drop k q)"
proof -
  have thr: "thread_respects A (\<lambda>w w'. sent w' = sent w)"
    using rec by (simp add: records_writes_def)
  let ?c0 = "c0\<lparr>m_use_rpc_version := rv, m_use_redis_data_version := dv, m_notack_queue := q, m_seq := sq,
    m_recv_idx := idx\<rparr>"
  obtain h w1 where h: "stub_push_v2 A (m_chl c0) (add_metadata ?c0 ch) 10000 w = (h, w1)"
    by fastforce
  have s1: "sent w1 = sent w"
    using rec h by (metis records_writes_def snd_conv)
  let ?c1 = "?c0\<lparr>m_rw_sender := Some h, m_recv_thread := Joinable Spawned\<rparr>"
  have inv1: "rpc_inv_at sq ?c1"
    using fresh q by (simp add: rpc_inv_at_def fresh_client_def)
  obtain c2 w2 where 2: "interleave A (?c1, w1) = Some (Inr (), c2, w2)" "rpc_inv_at sq c2" "evolves ?c1 c2"
    and w2: "\<forall>R. thread_respects A R \<longrightarrow> R w1 w2"
    using interleave_total [OF inv1, of A w1] by blast
  note [simp] = evolves_fields [OF 2(3)]
  have s2: "sent w2 = sent w"
    using w2 thr s1 by force
  obtain k where k: "m_notack_queue c2 = drop k q"
    using evolves_queue [OF 2(3)] by auto
  obtain ok w3 j where 3: "resend A h (m_notack_queue c2) (c2, w2) = Some (Inr ok, c2, w3)"
    "sent w3 = sent w2 @ take j (m_notack_queue c2)" "ok \<longrightarrow> j = length (m_notack_queue c2)"
    using resend_total [OF rec] by blast
  have run: "set_continue_status A ch (q, sq, idx, rv, dv) (c0, w) = Some (Inr ok, c2, w3)"
    using fresh v h 2(1,3) 3(1)
    by (simp add: set_continue_status_def init_sender_def bind_def get_obj_def set_obj_def ask_def fresh_client_def
        cong: option.case_cong)
  show ?thesis
    by (rule that [OF run]) (use 2 3 k s2 interleave_joinable [OF 2(1)] in \<open>auto simp: joinable_def\<close>)
qed

section \<open>What \<^verbatim>\<open>Recv\<close> delivers\<close>

text \<open>
  The specification of the receiving side: the effect of one element of the list on the pair of
  the data version and the last index delivered, and what a list of elements delivers.
\<close>

definition strip_version :: "int \<Rightarrow> bytes \<Rightarrow> int \<times> bytes" where
  "strip_version dv item =
     (if dv \<noteq> not_inited then (dv, item)
      else if take (length data_version_magic_string) item = data_version_magic_string
      then (v2, drop (length data_version_magic_string) item)
      else (v1, item))"

definition classify :: "int \<times> int \<Rightarrow> bytes \<Rightarrow> (int \<times> int) \<times> verdict" where
  "classify st item =
     (let (dv, elem) = strip_version (fst st) item;
          idx = snd st;
          i = sint (un_le32 elem)
      in if dv < v2 then ((dv, idx), Deliver elem)
         else if length elem = 4 \<and> i < 0 then ((dv, idx), NextTry)
         else if i = idx + 1 then ((dv, i), Deliver (drop 4 elem))
         else ((dv, idx), if i \<le> idx then StartOver else Broken))"

fun scan :: "int \<times> int \<Rightarrow> bytes list \<Rightarrow> bytes list \<times> (int \<times> int)" where
  "scan st [] = ([], st)"
| "scan st (x # xs) =
     (case classify st x of
        (st', Deliver d) \<Rightarrow> (let (ds, st'') = scan st' xs in (d # ds, st''))
      | (st', _) \<Rightarrow> scan st' xs)"

lemma scan_append:
  "scan st (xs @ ys) = (let (ds, st') = scan st xs; (es, st'') = scan st' ys in (ds @ es, st''))"
  by (induction xs arbitrary: st) (auto split: prod.splits verdict.splits)

definition reader :: "rpc_client \<Rightarrow> int \<times> int" where
  "reader c = (m_use_redis_data_version c, m_recv_idx c)"

text \<open>The part of \<^verbatim>\<open>Recv\<close> that handles one element computes \<^verbatim>\<open>classify\<close>.\<close>

definition handle_element :: "bytes \<Rightarrow> ('w, verdict) rpc" where
  "handle_element item =
     bind (get_obj m_use_redis_data_version) (\<lambda>dv.
     bind (if dv = not_inited then init_redis_data_version item else ret item) check_element)"

definition set_reader :: "int \<times> int \<Rightarrow> rpc_client \<Rightarrow> rpc_client" where
  "set_reader st c = c\<lparr>m_use_redis_data_version := fst st, m_recv_idx := snd st\<rparr>"

lemma set_reader_simps [simp]:
  "reader (set_reader st c) = st"
  "set_reader st (set_reader st' c) = set_reader st c"
  "set_reader (reader c) c = c"
  "rpc_inv_at n (set_reader st c) = rpc_inv_at n c"
  "m_seq (set_reader st c) = m_seq c"
  "redis_client (set_reader st c) = redis_client c"
  "m_redis_timeout (set_reader st c) = m_redis_timeout c"
  by (simp_all add: reader_def set_reader_def rpc_inv_at_def)

lemma handle_element_strip:
  "handle_element item (c, w) =
     check_element (snd (strip_version (m_use_redis_data_version c) item))
       (c\<lparr>m_use_redis_data_version := fst (strip_version (m_use_redis_data_version c) item)\<rparr>, w)"
  by (simp add: handle_element_def init_redis_data_version_def strip_version_def bind_def get_obj_def set_obj_def ret_def)

lemma check_element_cases:
  "check_element e (c, w) =
     (if m_use_redis_data_version c < v2 then Some (Inr (Deliver e), c, w)
      else if length e < 4 then Some (Inl OutOfBounds, c, w)
      else if length e = 4 \<and> sint (un_le32 e) < 0 then Some (Inr NextTry, c, w)
      else if m_recv_idx c = int_max then Some (Inl SignedOverflow, c, w)
      else if sint (un_le32 e) = m_recv_idx c + 1
        then Some (Inr (Deliver (drop 4 e)), c\<lparr>m_recv_idx := sint (un_le32 e)\<rparr>, w)
      else Some (Inr (if sint (un_le32 e) \<le> m_recv_idx c then StartOver else Broken), c, w))"
proof -
  obtain i where i: "i = sint (un_le32 e)"
    by simp
  show ?thesis
    unfolding check_element_def i [symmetric] Let_def
    by (auto simp: bind_def get_obj_def set_obj_def ret_def raise_def)
qed

lemma handle_element_classify:
  assumes "handle_element item (c, w) = Some (Inr v, c', w')"
  shows "w' = w \<and> v = snd (classify (reader c) item) \<and> c' = set_reader (fst (classify (reader c) item)) c"
proof -
  obtain dv e where e: "strip_version (m_use_redis_data_version c) item = (dv, e)"
    by fastforce
  obtain i where i: "i = sint (un_le32 e)"
    by simp
  show ?thesis
    using assms
    by (auto simp: handle_element_strip check_element_cases e classify_def reader_def set_reader_def
        i [symmetric] split: if_splits)
qed

lemma handle_element_fault:
  assumes "handle_element item (c, w) = Some (Inl e, s')"
  shows "m_recv_idx c = int_max \<or> length (snd (strip_version (m_use_redis_data_version c) item)) < 4"
  using assms by (simp add: handle_element_strip check_element_cases split: if_splits)

lemma handle_element_ends: "handle_element item (c, w) \<noteq> None"
  by (simp add: handle_element_strip check_element_cases)

end
