(* ===== verification/RpcLedger.thy ===== *)
theory RpcLedger imports RpcDelivery begin

text \<open>
  Which packets leave the queue of an \<^verbatim>\<open>RpcClient\<close>, and for what: the receiving thread pops one packet from the front for
  each acknowledgement that it has read, whatever number the acknowledgement carries, and nothing else takes a packet away.
  The ledger of a stream counts both sides.
\<close>

section \<open>Reads that count\<close>

text \<open>A thread between the acknowledgement it has read and the packet it is going to pop for it.\<close>

definition pending :: "rpc_client \<Rightarrow> nat" where
  "pending c = (case m_recv_thread c of Joinable (GotAck a) \<Rightarrow> 1 | Joinable Popping \<Rightarrow> 1 | _ \<Rightarrow> 0)"

fun is_ack :: "read_event \<Rightarrow> bool" where
  "is_ack (Acked a) = True"
| "is_ack _ = False"

text \<open>The calls that a client makes besides those on its stream, and the closing of the stream, take the world along \<open>R\<close>.\<close>

definition side_calls :: "('w, 'z) net_api_scheme \<Rightarrow> ('w \<Rightarrow> 'w \<Rightarrow> bool) \<Rightarrow> bool" where
  "side_calls A R \<longleftrightarrow>
     (\<forall>w. R w (snd (schedule A w))) \<and>
     (\<forall>h w. R w (stream_writes_done A h w)) \<and> (\<forall>h w. R w (snd (stream_finish A h w))) \<and>
     (\<forall>k h key items w. R w (snd (redis_hset A k h key items w))) \<and>
     (\<forall>k h key n w. R w (snd (redis_expire A k h key n w))) \<and>
     (\<forall>k h key v w. R w (snd (redis_lpush A k h key v w))) \<and>
     (\<forall>ch w. R w (chan_wait_shutdown A ch w))"

lemma side_callsD:
  assumes "side_calls A R"
  shows "R w (snd (schedule A w))" "R w (stream_writes_done A h w)" "R w (snd (stream_finish A h w))"
    "R w (snd (redis_hset A k g key items w))" "R w (snd (redis_expire A k g key t w))" "R w (snd (redis_lpush A k g key v w))"
    "R w (chan_wait_shutdown A ch w)"
  using assms by (simp_all add: side_calls_def)

lemma side_calls_mono: "side_calls A R \<Longrightarrow> (\<And>w w'. R w w' \<Longrightarrow> S w w') \<Longrightarrow> side_calls A S"
  by (simp add: side_calls_def)

text \<open>
  \<open>n\<close> counts the acknowledgements read from the stream \<open>h\<close>, and \<open>K\<close> is a property of the world that lasts.
\<close>

definition counts_acks :: "('w, 'z) net_api_scheme \<Rightarrow> nat \<Rightarrow> ('w \<Rightarrow> nat) \<Rightarrow> ('w \<Rightarrow> bool) \<Rightarrow> bool" where
  "counts_acks A h n K \<longleftrightarrow>
     (\<forall>w. K w \<longrightarrow> K (snd (stream_read A h w)) \<and> n (snd (stream_read A h w)) = n w + (if is_ack (fst (stream_read A h w)) then 1 else 0)) \<and>
     side_calls A (\<lambda>w w'. K w \<longrightarrow> K w' \<and> n w' = n w)"

text \<open>
  A view of the world that counts the acknowledgements read from any stream. What other calls do leaves it alone.
\<close>

definition records_acks :: "('w, 'z) net_api_scheme \<Rightarrow> ('w \<Rightarrow> nat) \<Rightarrow> bool" where
  "records_acks A acks \<longleftrightarrow>
     (\<forall>h w. acks (snd (stream_read A h w)) = acks w + (if is_ack (fst (stream_read A h w)) then 1 else 0)) \<and>
     side_calls A (\<lambda>w w'. acks w' = acks w) \<and>
     (\<forall>h p w. acks (snd (stream_write A h p w)) = acks w) \<and>
     (\<forall>ch md t w. acks (snd (stub_push_v2 A ch md t w)) = acks w)"

lemma records_counts: "records_acks A acks \<Longrightarrow> counts_acks A h acks (\<lambda>_. True)"
  by (simp add: records_acks_def counts_acks_def)

section \<open>The ledger of a stream\<close>

text \<open>
  Of the packets \<open>L\<close>, as many as acknowledgements have been read are popped or about to be (\<open>a\<close> and \<open>b\<close>: what had been read and
  what was pending when the ledger was opened); the rest is the queue.
\<close>

definition ledger :: "('w \<Rightarrow> nat) \<Rightarrow> ('w \<Rightarrow> bool) \<Rightarrow> nat \<Rightarrow> nat \<Rightarrow> nat \<Rightarrow> packet list \<Rightarrow> int \<Rightarrow> rpc_client \<times> 'w \<Rightarrow> bool" where
  "ledger n K h a b L m s \<longleftrightarrow>
     rpc_inv_at m (fst s) \<and> m_rw_sender (fst s) = Some h \<and> K (snd s) \<and>
     (\<exists>k \<le> length L. m_notack_queue (fst s) = drop k L \<and> k + pending (fst s) + a = n (snd s) + b)"

lemma ledgerI:
  "rpc_inv_at m c \<Longrightarrow> m_rw_sender c = Some h \<Longrightarrow> K w \<Longrightarrow> k \<le> length L \<Longrightarrow> m_notack_queue c = drop k L \<Longrightarrow>
   k + pending c + a = n w + b \<Longrightarrow> ledger n K h a b L m (c, w)"
  by (auto simp: ledger_def)

lemma ledgerE:
  assumes "ledger n K h a b L m (c, w)"
  obtains k where "rpc_inv_at m c" "m_rw_sender c = Some h" "K w" "k \<le> length L" "m_notack_queue c = drop k L"
    "k + pending c + a = n w + b"
  using assms by (auto simp: ledger_def)

lemma ledger_open:
  assumes "rpc_inv_at m c" "m_rw_sender c = Some h" "K w"
  shows "ledger n K h (n w) (pending c) (m_notack_queue c) m (c, w)"
  using assms by (intro ledgerI [where k = 0]) simp_all

lemma ledger_world:
  assumes "ledger n K h a b L m (c, w)" "K' w'" "n w' = n w"
  shows "ledger n K' h a b L m (c, w')"
  using assms(1) by (rule ledgerE) (rule ledgerI, use assms(2,3) in auto)

lemma lasting_preorder: "preorder (\<lambda>w w'. K w \<longrightarrow> K w' \<and> n w' = n w)"
  by (auto simp: preorder_def)

lemma ledger_side:
  assumes "ledger n K h a b L m (c, w)" "K w \<longrightarrow> K w' \<and> n w' = n w"
  shows "ledger n K h a b L m (c, w')"
  using assms by (auto simp: ledger_def)

lemma counts_side: "counts_acks A h n K \<Longrightarrow> side_calls A (\<lambda>w w'. K w \<longrightarrow> K w' \<and> n w' = n w)"
  by (simp add: counts_acks_def)

lemma ledger_client:
  assumes "ledger n K h a b L m (c, w)" "rpc_inv_at m' c'" "m_rw_sender c' = m_rw_sender c" "m_notack_queue c' = m_notack_queue c"
    "m_recv_thread c' = m_recv_thread c"
  shows "ledger n K h a b L m' (c', w)"
  using assms(1) by (rule ledgerE) (rule ledgerI, use assms(2-5) in \<open>auto simp: pending_def\<close>)

section \<open>The receiving thread\<close>

lemma recv_thread_step_ledger:
  assumes counts: "counts_acks A h n K" and inv: "ledger n K h a b L m (c, w)"
    and run: "recv_thread_step A (c, w) = Some (r, c', w')"
  shows "ledger n K h a b L m (c', w')"
proof -
  obtain k where h: "m_rw_sender c = Some h" and i: "rpc_inv_at m c" and K: "K w"
    and k: "k \<le> length L" "m_notack_queue c = drop k L" "k + pending c + a = n w + b"
    using inv by (rule ledgerE)
  have step: "r = Inr ()" "rpc_inv_at m c'" "m_rw_sender c' = Some h"
    using recv_thread_step_cases [OF run i] evolves_fields(6) h by auto
  note new = ledgerI [OF step(2,3)]
  note defs = recv_thread_step_def prog pending_def
  show ?thesis
  proof (cases "m_recv_thread c = Joinable Reading \<or> m_recv_thread c = Joinable Popping")
    case False
    then have "m_notack_queue c' = m_notack_queue c" "pending c' = pending c" "w' = w"
      using run h by (auto simp: defs split: thread_handle.splits thread_pc.splits if_splits)
    then show ?thesis
      using k K by (intro new [where k = k]) simp_all
  next
    case True
    then show ?thesis
    proof
      assume t: "m_recv_thread c = Joinable Reading"
      obtain ev v where read: "stream_read A h w = (ev, v)"
        by fastforce
      have "K w \<longrightarrow> K (snd (stream_read A h w)) \<and> n (snd (stream_read A h w)) = n w + (if is_ack (fst (stream_read A h w)) then 1 else 0)"
        using counts by (simp add: counts_acks_def)
      then have v: "K v" "n v = n w + (if is_ack ev then 1 else 0)"
        using K read by simp_all
      have "w' = v" "m_notack_queue c' = m_notack_queue c" "pending c' = (if is_ack ev then 1 else 0)"
        using run t h read by (auto simp: defs split: read_event.splits)
      then show ?thesis
        using t k v by (intro new [where k = k]) (simp_all add: pending_def)
    next
      assume t: "m_recv_thread c = Joinable Popping"
      then obtain p q where q: "m_notack_queue c = p # q"
        using i by (cases "m_notack_queue c") (auto simp: rpc_inv_at_def)
      then have "k < length L"
        using k(2) by (metis drop_all linorder_not_le list.distinct(1))
      moreover have "drop (Suc k) L = q"
        using q k(2) by (metis drop_Suc list.sel(3) tl_drop)
      moreover have "w' = w" "m_notack_queue c' = q" "pending c' = 0"
        using run t h q by (auto simp: defs)
      ultimately show ?thesis
        using t k(3) K by (intro new [where k = "Suc k"]) (simp_all add: pending_def)
    qed
  qed
qed

lemma recv_thread_run_ledger:
  assumes counts: "counts_acks A h n K"
  shows "recv_thread_run A j (c, w) = Some (r, c', w') \<Longrightarrow> ledger n K h a b L m (c, w) \<Longrightarrow> ledger n K h a b L m (c', w')"
proof (induction j arbitrary: c w)
  case 0
  then show ?case
    by (simp add: ret_def)
next
  case (Suc j)
  obtain x c1 w1 where 1: "recv_thread_step A (c, w) = Some (x, c1, w1)"
    using recv_thread_step_ends [of A "(c, w)"] by (auto simp: ends_def)
  have "ledger n K h a b L m (c1, w1)"
    using recv_thread_step_ledger [OF counts Suc.prems(2) 1] .
  then show ?case
    using Suc.prems(1) Suc.IH [of c1 w1] 1 by (cases x) (auto simp: bind_def)
qed

lemma interleave_ledger:
  assumes counts: "counts_acks A h n K" and inv: "ledger n K h a b L m (c, w)"
    and run: "interleave A (c, w) = Some (r, c', w')"
  shows "ledger n K h a b L m (c', w')"
proof -
  obtain j v where v: "schedule A w = (j, v)"
    by fastforce
  have "ledger n K h a b L m (c, v)"
    using ledger_side [OF inv side_callsD(1) [OF counts_side [OF counts]]] v by simp
  then show ?thesis
    using run v recv_thread_run_ledger [OF counts, of j c v r c' w' a b L m] by (simp add: interleave_def bind_def ask_def)
qed

section \<open>The report at the end of a stream\<close>

lemma obeys_redis_call: "preorder R \<Longrightarrow> (\<And>w. R w (snd (f w))) \<Longrightarrow> obeys R (redis_call f)"
  unfolding redis_call_def by (intro obeys_bind obeys_ask) (auto intro: obeys_pure split: sum.split)

lemma obeys_side_ops:
  assumes "preorder R" "side_calls A R"
  shows "obeys R (hset_items A r key items)" "obeys R (hset_pair A r key item)" "obeys R (expire A r key t)" "obeys R (lpush A r key val)"
  unfolding hset_items_def hset_pair_def expire_def lpush_def
  by (auto intro!: obeys_bind obeys_pure obeys_redis_call side_callsD [OF assms(2)] assms(1))

lemma obeys_report_usage:
  assumes "preorder R" "side_calls A R"
  shows "obeys R (report_usage A ch)"
  unfolding report_usage_def Let_def
  by (auto intro!: obeys_bind obeys_pure obeys_side_ops assms split: option.split)

lemma obeys_catch:
  assumes "preorder R" "obeys R m" "obeys R k"
  shows "obeys R (catch_redis_error m k)"
  unfolding catch_redis_error_def
  by (rule obeys_try [OF assms(1,2)]) (use assms(3) in \<open>auto split: fault.splits\<close>)

section \<open>Sending\<close>

text \<open>
  A \<^verbatim>\<open>Send\<close> enters its packet into the ledger when the write succeeds. \<open>K\<close> and \<open>K'\<close> describe the stream before and after.
\<close>

lemma Send_ledger:
  assumes counts: "counts_acks A h n K" "counts_acks A h n K'" and inv: "ledger n K h a b L (m_seq c) (c, w)"
    and v: "m_use_rpc_version c \<ge> v2"
    and wrote: "\<And>u. K u \<Longrightarrow> n (snd (stream_write A h (seq_packet c task content) u)) = n u \<and>
      (if fst (stream_write A h (seq_packet c task content) u) then K' else K) (snd (stream_write A h (seq_packet c task content) u))"
    and run: "Send A ch task content (c, w) = Some (Inr (ok, rest), c', w')"
  shows "if ok then ledger n K' h a b (L @ [seq_packet c task content]) (m_seq c') (c', w') else ledger n K h a b L (m_seq c') (c', w')"
proof -
  let ?p = "seq_packet c task content"
  have vi: "m_use_rpc_version c \<noteq> not_inited"
    using v by (simp add: v2_def not_inited_def)
  have i: "rpc_inv_at (m_seq c) c" and h: "m_rw_sender c = Some h"
    using inv by (simp_all add: ledger_def)
  obtain c1 w1 where 1: "interleave A (c, w) = Some (Inr (), c1, w1)" "rpc_inv_at (m_seq c) c1" "evolves c c1"
    using interleave_total [OF i, of A w] by blast
  note [simp] = evolves_fields [OF 1(3)]
  have l1: "ledger n K h a b L (m_seq c) (c1, w1)"
    by (rule interleave_ledger [OF counts(1) inv 1(1)])
  then have K1: "K w1"
    by (simp add: ledger_def)
  have pkt: "\<lparr>header = (tensor_header task (m_partyid c) (m_to_partyid c))\<lparr>seq := m_seq c\<rparr>, body = content\<rparr> = ?p"
    by (simp add: seq_packet_def)
  obtain flag w2 where wr: "stream_write A h ?p w1 = (flag, w2)"
    by fastforce
  then have w2: "n w2 = n w1" "(if flag then K' else K) w2"
    using wrote [OF K1] by simp_all
  show ?thesis
  proof (cases "m_recv_thread_status c1 = ThreadFinished")
    case True
    then have "ok = False" "c' = c1" "w' = w1"
      using run vi 1(1) by (simp_all add: Send_def bind_def get_obj_def ret_def)
    then show ?thesis
      using l1 by simp
  next
    case live: False
    show ?thesis
    proof (cases flag)
      case False
      then have "ok = False" "c' = c1" "w' = w2"
        using run vi v h live 1(1,3) wr pkt by (simp_all add: Send_def bind_def get_obj_def ret_def ask_def Let_def)
      then show ?thesis
        using ledger_world [OF l1, of K w2] w2 False by simp
    next
      case True
      show ?thesis
      proof (cases "m_seq c = int_max")
        case True
        then show ?thesis
          using run vi v h live \<open>flag\<close> 1(1,3) wr pkt
          by (simp add: Send_def bind_def get_obj_def ret_def ask_def Let_def raise_def)
      next
        case False
        let ?c1 = "c1\<lparr>m_seq := m_seq c + 1\<rparr>"
        have "ledger n K' h a b L (m_seq c) (?c1, w2)"
          using ledger_world [OF l1, of K' w2] w2 True by (auto intro: ledger_client simp: 1(2))
        moreover have inv2: "rpc_inv_at (m_seq c) ?c1"
          using 1(2) by simp
        moreover obtain c3 w3 where 3: "interleave A (?c1, w2) = Some (Inr (), c3, w3)" "rpc_inv_at (m_seq c) c3" "evolves ?c1 c3"
          using interleave_total [OF inv2, of A w2] by blast
        ultimately have "ledger n K' h a b L (m_seq c) (c3, w3)"
          using interleave_ledger [OF counts(2)] by blast
        then obtain k where k: "m_rw_sender c3 = Some h" "K' w3" "k \<le> length L" "m_notack_queue c3 = drop k L" "k + pending c3 + a = n w3 + b"
          by (rule ledgerE)
        have end': "ok = True" "c' = c3\<lparr>m_notack_queue := m_notack_queue c3 @ [?p]\<rparr>" "w' = w3"
          using run vi v h live True False 1(1,3) wr pkt 3(1)
          by (simp_all add: Send_def bind_def get_obj_def set_obj_def ret_def ask_def Let_def)
        have "rpc_inv_at (m_seq c') c'" "m_seq c' = m_seq c + 1"
          using rpc_inv_at_snoc [OF 3(2), of ?p] evolves_fields(11) [OF 3(3)] end'(2) by simp_all
        then show ?thesis
          using k end' by (auto intro!: ledgerI [where k = k] simp: pending_def)
      qed
    qed
  qed
qed

section \<open>Starting again on a new stream\<close>

text \<open>\<^verbatim>\<open>set_continue_status\<close> of version 2 in its parts: the stream, the thread, the packets.\<close>

lemma set_continue_parts:
  assumes fresh: "fresh_client c0" and v: "rv \<ge> v2"
    and run: "set_continue_status A ch (q, sq, idx, rv, dv) (c0, w) = Some (Inr ok, c', w')"
    and inv: "packet_seqs q = [sq - int (length q) .. sq - 1]"
  obtains h w1 c1 w2 where
    "stub_push_v2 A (m_chl c0) (add_metadata (c0\<lparr>m_use_rpc_version := rv, m_use_redis_data_version := dv, m_notack_queue := q,
       m_seq := sq, m_recv_idx := idx\<rparr>) ch) 10000 w = (h, w1)"
    "rpc_inv_at sq c1" "m_rw_sender c1 = Some h" "pending c1 = 0" "m_notack_queue c1 = q"
    "interleave A (c1, w1) = Some (Inr (), c', w2)" "resend A h (m_notack_queue c') (c', w2) = Some (Inr ok, c', w')"
proof -
  let ?c0 = "c0\<lparr>m_use_rpc_version := rv, m_use_redis_data_version := dv, m_notack_queue := q, m_seq := sq, m_recv_idx := idx\<rparr>"
  obtain h w1 where h: "stub_push_v2 A (m_chl c0) (add_metadata ?c0 ch) 10000 w = (h, w1)"
    by fastforce
  let ?c1 = "?c0\<lparr>m_rw_sender := Some h, m_recv_thread := Joinable Spawned\<rparr>"
  have inv1: "rpc_inv_at sq ?c1"
    using fresh inv by (simp add: rpc_inv_at_def fresh_client_def)
  obtain c2 w2 where 2: "interleave A (?c1, w1) = Some (Inr (), c2, w2)" "rpc_inv_at sq c2" "evolves ?c1 c2"
    using interleave_total [OF inv1, of A w1] by blast
  note [simp] = evolves_fields [OF 2(3)]
  have run2: "set_continue_status A ch (q, sq, idx, rv, dv) (c0, w) = resend A h (m_notack_queue c2) (c2, w2)"
    using fresh v h 2(1,3)
    by (simp add: set_continue_status_def init_sender_def bind_def get_obj_def set_obj_def ask_def fresh_client_def
        cong: option.case_cong)
  have client: "d = c2" if "resend A h es (c2, u) = Some (x, d, u')" for es u x d u'
    using that by (induction es arbitrary: u) (auto simp: prog split: prod.splits if_splits)
  have r: "resend A h (m_notack_queue c2) (c2, w2) = Some (Inr ok, c', w')"
    using run run2 by simp
  moreover have "c' = c2"
    by (rule client [OF r])
  ultimately have "resend A h (m_notack_queue c2) (c2, w2) = Some (Inr ok, c2, w')" "c' = c2"
    by simp_all
  then show ?thesis
    by (intro that [of h w1 ?c1 w2]) (use h inv1 2 in \<open>simp_all add: pending_def\<close>)
qed

lemma resend_acks:
  assumes "records_acks A acks"
  shows "resend A h es (c, w) = Some (x, c', w') \<Longrightarrow> acks w' = acks w"
proof (induction es arbitrary: w)
  case (Cons e es)
  have "acks (snd (stream_write A h e w)) = acks w"
    using assms by (simp add: records_acks_def)
  then show ?case
    using Cons by (auto simp: prog split: prod.splits if_splits)
qed (simp add: ret_def)

text \<open>As many packets are gone from the queue, or are going, as acknowledgements have been read from the new stream.\<close>

lemma set_continue_acks:
  assumes "fresh_client c0" "rv \<ge> v2" "records_acks A acks" "packet_seqs q = [sq - int (length q) .. sq - 1]"
    and "set_continue_status A ch (q, sq, idx, rv, dv) (c0, w) = Some (Inr ok, c', w')"
  obtains k where "k \<le> length q" "m_notack_queue c' = drop k q" "acks w' = acks w + k + pending c'"
proof -
  obtain h w1 c1 w2 where push: "stub_push_v2 A (m_chl c0) (add_metadata (c0\<lparr>m_use_rpc_version := rv, m_use_redis_data_version := dv,
       m_notack_queue := q, m_seq := sq, m_recv_idx := idx\<rparr>) ch) 10000 w = (h, w1)"
    and c1: "rpc_inv_at sq c1" "m_rw_sender c1 = Some h" "pending c1 = 0" "m_notack_queue c1 = q"
    and run: "interleave A (c1, w1) = Some (Inr (), c', w2)" "resend A h (m_notack_queue c') (c', w2) = Some (Inr ok, c', w')"
    by (rule set_continue_parts [OF assms(1,2,5,4)])
  have "acks w1 = acks w"
    using push assms(3) unfolding records_acks_def by (metis snd_conv)
  moreover have "ledger acks (\<lambda>_. True) h (acks w1) 0 q sq (c1, w1)"
    using ledger_open [OF c1(1,2), of "\<lambda>_. True" w1 acks] c1(3,4) by simp
  then have "ledger acks (\<lambda>_. True) h (acks w1) 0 q sq (c', w2)"
    by (rule interleave_ledger [OF records_counts [OF assms(3)] _ run(1)])
  then obtain k where "k \<le> length q" "m_notack_queue c' = drop k q" "k + pending c' + acks w1 = acks w2 + 0"
    by (rule ledgerE)
  moreover have "acks w' = acks w2"
    by (rule resend_acks [OF assms(3) run(2)])
  ultimately show ?thesis
    by (intro that [of k]) simp_all
qed

lemma resend_all:
  assumes "records_writes A sent"
  shows "\<exists>ok w' j. resend A h q (c, w) = Some (Inr ok, c, w') \<and> j \<le> length q \<and> sent w' = sent w @ take j q \<and>
    (ok \<longleftrightarrow> j = length q)"
proof (induction q arbitrary: w)
  case Nil
  show ?case
    by (rule exI [of _ True]) (simp add: prog)
next
  case (Cons e q)
  obtain ok w1 where wr: "stream_write A h e w = (ok, w1)"
    by fastforce
  have s1: "sent w1 = sent w @ (if ok then [e] else [])"
    using assms wr by (metis fst_conv records_writes_def snd_conv)
  show ?case
  proof (cases ok)
    case False
    then show ?thesis
      using wr s1 by (intro exI [of _ False] exI [of _ w1] exI [of _ 0]) (simp add: prog)
  next
    case True
    obtain ok' w' j where "resend A h q (c, w1) = Some (Inr ok', c, w')" "j \<le> length q" "sent w' = sent w1 @ take j q"
      "ok' \<longleftrightarrow> j = length q"
      using Cons.IH by blast
    then show ?thesis
      using wr s1 True
      by (intro exI [of _ ok'] exI [of _ w'] exI [of _ "Suc j"]) (simp add: prog)
  qed
qed

text \<open>The new stream is sent the packets that are in the queue then, up to the first write that fails.\<close>

lemma set_continue_sent:
  assumes "fresh_client c0" "rv \<ge> v2" "records_writes A sent" "packet_seqs q = [sq - int (length q) .. sq - 1]"
    and "set_continue_status A ch (q, sq, idx, rv, dv) (c0, w) = Some (Inr ok, c', w')"
  obtains j where "j \<le> length (m_notack_queue c')" "sent w' = sent w @ take j (m_notack_queue c')" "ok \<longleftrightarrow> j = length (m_notack_queue c')"
proof -
  obtain h w1 c1 w2 where push: "stub_push_v2 A (m_chl c0) (add_metadata (c0\<lparr>m_use_rpc_version := rv, m_use_redis_data_version := dv,
       m_notack_queue := q, m_seq := sq, m_recv_idx := idx\<rparr>) ch) 10000 w = (h, w1)"
    and run: "interleave A (c1, w1) = Some (Inr (), c', w2)" "resend A h (m_notack_queue c') (c', w2) = Some (Inr ok, c', w')"
    by (rule set_continue_parts [OF assms(1,2,5,4)])
  have "sent w1 = sent w"
    using push assms(3) unfolding records_writes_def by (metis snd_conv)
  moreover have "sent w2 = sent w1"
    using interleave_respects [OF _ run(1)] assms(3) by (auto simp: records_writes_def)
  moreover obtain j where "j \<le> length (m_notack_queue c')" "sent w' = sent w2 @ take j (m_notack_queue c')" "ok \<longleftrightarrow> j = length (m_notack_queue c')"
    using resend_all [OF assms(3), of h "m_notack_queue c'" c' w2] run(2) by auto
  ultimately show ?thesis
    by (intro that [of j]) simp_all
qed

end
