(* ===== verification/NetDemo.thy ===== *)
theory NetDemo imports RpcClient begin

text \<open>
  A concrete network, for the examples that go with the properties: the world holds the elements
  of the Redis list, the outcomes of the next calls and a clock, and logs what was popped and sent.
\<close>

record net_world =
  w_list :: "bytes list"
  w_popped :: "bytes list"
  w_sent :: "packet list"
  w_reads :: "read_event list"
  w_acks :: nat
  w_streams :: "(packet list \<times> nat \<times> bool) list"
  w_writes :: "bool list"
  w_versions :: "version_reply list"
  w_connects :: "bool list"
  w_pulls :: "packet option list"
  w_sched :: nat
  w_clock :: int

definition pick :: "'a \<Rightarrow> 'a list \<Rightarrow> 'a \<times> 'a list" where
  "pick d xs = (case xs of [] \<Rightarrow> (d, []) | y # ys \<Rightarrow> (y, ys))"

fun after_read :: "read_event \<Rightarrow> net_world \<Rightarrow> net_world" where
  "after_read (Acked a) w = w\<lparr>w_acks := Suc (w_acks w)\<rparr>"
| "after_read _ w = w"

lemma after_read_fields [simp]:
  "w_list (after_read r w) = w_list w" "w_popped (after_read r w) = w_popped w" "w_sent (after_read r w) = w_sent w"
  "w_clock (after_read r w) = w_clock w"
  by (cases r; simp)+

definition demo_net :: "net_world net_api" where
  "demo_net =
     \<lparr>getenv = (\<lambda>_. None), json_nodes = (\<lambda>_. None),
      redis_open = (\<lambda>k opts w. (Inr 1, w)),
      redis_close = (\<lambda>k h w. w),
      redis_ping = (\<lambda>h w. (Inr ''PONG'', w)),
      redis_brpop = (\<lambda>k h key t w.
        (case w_list w of
           [] \<Rightarrow> (Inr None, w)
         | x # xs \<Rightarrow> (Inr (Some (key, x)), w\<lparr>w_list := xs, w_popped := w_popped w @ [x]\<rparr>))),
      redis_hset = (\<lambda>k h key items w. (Inr (int (length items)), w)),
      redis_expire = (\<lambda>k h key t w. (Inr True, w)),
      redis_lpush = (\<lambda>k h key v w. (Inr 1, w)),
      stub_get_version = (\<lambda>ch md w.
        let (v, vs) = pick VersionError (w_versions w) in (v, w\<lparr>w_versions := vs\<rparr>)),
      stub_push = (\<lambda>ch md d w. (1, w)),
      stub_push_v2 = (\<lambda>ch md d w. (2, w)),
      stub_pull = (\<lambda>ch md w. let (p, ps) = pick None (w_pulls w) in (p, w\<lparr>w_pulls := ps\<rparr>)),
      stream_write = (\<lambda>h p w.
        let (b, bs) = pick True (w_writes w)
        in (b, w\<lparr>w_writes := bs, w_sent := w_sent w @ (if b then [p] else [])\<rparr>)),
      stream_read = (\<lambda>h w.
        let (r, rs) = pick Pending (w_reads w)
        in (r, after_read r (w\<lparr>w_reads := rs\<rparr>))),
      stream_writes_done = (\<lambda>h w. w),
      stream_finish = (\<lambda>h w. (True, w)),
      chan_create = (\<lambda>addr gzip w. (1, w)),
      chan_connected = (\<lambda>ch t w. let (b, bs) = pick True (w_connects w) in (b, w\<lparr>w_connects := bs\<rparr>)),
      chan_ready = (\<lambda>ch w. (True, w)),
      chan_wait_shutdown = (\<lambda>ch w. w),
      steady_ms = (\<lambda>w. (w_clock w, w)),
      sleep_ms = (\<lambda>ms w. w\<lparr>w_clock := w_clock w + ms\<rparr>),
      schedule = (\<lambda>w. (w_sched w, w))\<rparr>"

definition demo_world :: net_world where
  "demo_world =
     \<lparr>w_list = [], w_popped = [], w_sent = [], w_reads = [], w_acks = 0, w_streams = [], w_writes = [], w_versions = [], w_connects = [],
      w_pulls = [], w_sched = 0, w_clock = 0\<rparr>"

definition demo_redis_object :: redis_object where
  "demo_redis_object = \<lparr>redis = Live 1, redis_cluster = Unset, m_use_cluster = False, m_use_sentinel = False\<rparr>"

text \<open>A client that has negotiated version 2 in both directions and has neither sent nor received.\<close>

definition demo_client :: rpc_client where
  "demo_client =
     \<lparr>m_partyid = 1, m_to_partyid = 2, m_use_redis = True, m_net_debug = False, m_chl = 1, m_sender = None,
      m_rw_sender = Some 2, redis_client = Live demo_redis_object, m_redis_timeout = 2,
      m_use_rpc_version = v2, m_use_redis_data_version = v2, m_seq = 0, m_recv_idx = -1, m_notack_queue = [],
      m_recv_thread = Joinable Reading, m_recv_thread_status = ThreadStarted\<rparr>"

definition demo_base :: channel_base where
  "demo_base =
     \<lparr>m_channelid = ''task'', m_from_party = 1, m_to_party = 2, m_bytes_send = 0, m_bytes_recv = 0,
      m_packet_send = 0, m_packet_recv = 0, m_server_address = ''s'', m_redis_address = ''r'',
      m_connect_wait_time = 1000, ch_use_redis = True, m_net_log_switch = False, m_meta = []\<rparr>"

lemma demo_net_simps [simp]:
  "redis_brpop demo_net k h key t w =
     (case w_list w of
        [] \<Rightarrow> (Inr None, w)
      | x # xs \<Rightarrow> (Inr (Some (key, x)), w\<lparr>w_list := xs, w_popped := w_popped w @ [x]\<rparr>))"
  "redis_open demo_net k opts w = (Inr 1, w)"
  "redis_close demo_net k h w = w"
  "redis_ping demo_net h w = (Inr ''PONG'', w)"
  "redis_hset demo_net k h key items w = (Inr (int (length items)), w)"
  "redis_expire demo_net k h key t w = (Inr True, w)"
  "redis_lpush demo_net k h key v w = (Inr 1, w)"
  "getenv demo_net n = None"
  "stub_get_version demo_net ch md w =
     (let (v, vs) = pick VersionError (w_versions w) in (v, w\<lparr>w_versions := vs\<rparr>))"
  "stub_push demo_net ch md d w = (1, w)"
  "stub_push_v2 demo_net ch md d w = (2, w)"
  "stub_pull demo_net ch m w = (let (p, ps) = pick None (w_pulls w) in (p, w\<lparr>w_pulls := ps\<rparr>))"
  "stream_write demo_net h p w =
     (let (b, bs) = pick True (w_writes w)
      in (b, w\<lparr>w_writes := bs, w_sent := w_sent w @ (if b then [p] else [])\<rparr>))"
  "stream_read demo_net h w =
     (let (r, rs) = pick Pending (w_reads w)
      in (r, after_read r (w\<lparr>w_reads := rs\<rparr>)))"
  "stream_writes_done demo_net h w = w"
  "stream_finish demo_net h w = (True, w)"
  "chan_create demo_net addr gzip w = (1, w)"
  "chan_connected demo_net ch u w = (let (b, bs) = pick True (w_connects w) in (b, w\<lparr>w_connects := bs\<rparr>))"
  "chan_ready demo_net ch w = (True, w)"
  "chan_wait_shutdown demo_net ch w = w"
  "steady_ms demo_net w = (w_clock w, w)"
  "sleep_ms demo_net ms w = w\<lparr>w_clock := w_clock w + ms\<rparr>"
  "schedule demo_net w = (w_sched w, w)"
  by (simp_all add: demo_net_def)

lemma pick_simps [simp]: "pick d [] = (d, [])" "pick d (x # xs) = (x, xs)"
  by (simp_all add: pick_def)

lemma demo_world_simps [simp]:
  "w_list demo_world = []" "w_popped demo_world = []" "w_sent demo_world = []" "w_reads demo_world = []"
  "w_writes demo_world = []" "w_versions demo_world = []" "w_connects demo_world = []" "w_pulls demo_world = []"
  "w_sched demo_world = 0" "w_clock demo_world = 0" "w_acks demo_world = 0" "w_streams demo_world = []"
  by (simp_all add: demo_world_def)

lemma demo_client_simps [simp]:
  "m_use_redis demo_client" "m_rw_sender demo_client = Some 2" "redis_client demo_client = Live demo_redis_object"
  "m_redis_timeout demo_client = 2" "m_use_rpc_version demo_client = v2"
  "m_use_redis_data_version demo_client = v2" "m_seq demo_client = 0" "m_recv_idx demo_client = -1"
  "m_notack_queue demo_client = []" "m_recv_thread demo_client = Joinable Reading"
  "m_recv_thread_status demo_client = ThreadStarted" "m_chl demo_client = 1"
  by (simp_all add: demo_client_def)

lemma demo_redis_ready [simp]: "redis_ready demo_redis_object"
  by (simp add: redis_ready_def demo_redis_object_def)

end
