(* ===== verification/RpcSend.thy ===== *)
theory RpcSend imports RpcLedger NetDemo begin

text \<open>
  Properties of the sending side of \<^verbatim>\<open>RpcClient\<close>: numbering and the queue of unacknowledged
  packets, what leaves it and why, what a new client resends, the negotiation of the version, \<^verbatim>\<open>wait_flush\<close> and \<^verbatim>\<open>finish\<close>.
\<close>

section \<open>Waiting for acknowledgements\<close>

text \<open>
  \<^verbatim>\<open>clk\<close> is the steady clock of the world: it never goes back, and a sleep of \<^verbatim>\<open>ms\<close>
  milliseconds advances it by at least that much.
\<close>

definition steady_clock :: "('w, 'z) net_api_scheme \<Rightarrow> ('w \<Rightarrow> int) \<Rightarrow> bool" where
  "steady_clock A clk \<longleftrightarrow>
     (\<forall>w. fst (steady_ms A w) = clk w \<and> clk w \<le> clk (snd (steady_ms A w))) \<and>
     (\<forall>ms w. clk w + ms \<le> clk (sleep_ms A ms w)) \<and>
     (\<forall>ch w. clk w \<le> clk (snd (chan_ready A ch w))) \<and>
     thread_respects A (\<lambda>w w'. clk w \<le> clk w')"

declare wait_flush_loop.simps(2) [simp del]

lemma wait_flush_step:
  assumes inv: "rpc_inv_at m c" and clk: "steady_clock A clk"
  obtains (stop) ok nr' c' w' where
      "wait_flush_loop A mx ts nr (Suc n) cur (c, w) = Some (Inr (ok, nr'), c', w')"
      "rpc_inv_at m c'" "evolves c c'" "ok \<longleftrightarrow> m_notack_queue c' = []"
  | (again) d c' w' where "clk w - ts \<le> d" "d < mx" "rpc_inv_at m c'" "evolves c c'"
      "clk w' \<ge> ts + d + (if d + cur * 2 > mx then mx - d else cur * 2)"
      "wait_flush_loop A mx ts nr (Suc n) cur (c, w) =
         wait_flush_loop A mx ts nr n (if d + cur * 2 > mx then mx - d else cur * 2) (c', w')"
proof -
  have thr: "thread_respects A (\<lambda>w w'. clk w \<le> clk w')"
    using clk by (simp add: steady_clock_def)
  obtain c1 w1 where 1: "interleave A (c, w) = Some (Inr (), c1, w1)" "rpc_inv_at m c1" "evolves c c1"
    and R: "\<forall>R. thread_respects A R \<longrightarrow> R w w1"
    using interleave_total [OF inv, of A w] by blast
  have w1: "clk w \<le> clk w1"
    using R thr by blast
  obtain ready w2 where ready: "chan_ready A (m_chl c1) w1 = (ready, w2)"
    by fastforce
  have w2: "clk w1 \<le> clk w2"
    using clk ready unfolding steady_clock_def by (metis snd_conv)
  obtain now w3 where now: "steady_ms A w2 = (now, w3)"
    by fastforce
  have w3: "now = clk w2" "clk w2 \<le> clk w3"
    using clk now unfolding steady_clock_def by (metis fst_conv snd_conv)+
  define d where "d = now - ts"
  define j where "j = (if d + cur * 2 > mx then mx - d else cur * 2)"
  define w4 where "w4 = sleep_ms A j w3"
  have w4: "clk w3 + j \<le> clk w4"
    using clk unfolding steady_clock_def w4_def by blast
  note defs = wait_flush_loop.simps bind_def get_obj_def ask_def ret_def sleep_def Let_def
  show ?thesis
  proof (cases "m_notack_queue c1 = [] \<or> m_recv_thread_status c1 = ThreadFinished \<or> \<not> ready \<or> mx \<le> d")
    case True
    then have "\<exists>nr'. wait_flush_loop A mx ts nr (Suc n) cur (c, w) =
        Some (Inr (m_notack_queue c1 = [], nr'), c1, w1) \<or>
      wait_flush_loop A mx ts nr (Suc n) cur (c, w) = Some (Inr (m_notack_queue c1 = [], nr'), c1, w2) \<or>
      wait_flush_loop A mx ts nr (Suc n) cur (c, w) = Some (Inr (m_notack_queue c1 = [], nr'), c1, w3)"
      using 1(1) ready now by (auto simp: defs d_def)
    then show ?thesis
      using stop 1(2,3) by blast
  next
    case False
    then have "wait_flush_loop A mx ts nr (Suc n) cur (c, w) = wait_flush_loop A mx ts nr n j (c1, w4)"
      using 1(1) ready now by (simp add: defs d_def j_def w4_def)
    moreover have "clk w - ts \<le> d" "d < mx" "clk w4 \<ge> ts + d + j"
      using w1 w2 w3 w4 False by (auto simp: d_def)
    ultimately show ?thesis
      using again [of d c1 w4] 1(2,3) by (simp add: j_def)
  qed
qed

definition flush_done :: "rpc_client \<Rightarrow> ('c, bool \<times> bool option) prog \<Rightarrow> 'c \<Rightarrow> ('c \<Rightarrow> rpc_client) \<Rightarrow> int \<Rightarrow> bool" where
  "flush_done c m s obj k \<longleftrightarrow>
     (\<exists>ok nr' s'. m s = Some (Inr (ok, nr'), s') \<and> rpc_inv_at k (obj s') \<and> evolves c (obj s') \<and>
        (ok \<longleftrightarrow> m_notack_queue (obj s') = []))"

lemma flush_done_from:
  assumes "flush_done c' m s obj k" "evolves c c'" "m0 s0 = m s"
  shows "flush_done c m0 s0 obj k"
  using assms(1,3) evolves_trans [OF assms(2)] unfolding flush_done_def by metis

lemma wait_flush_late:
  assumes "rpc_inv_at m c" "steady_clock A clk" "mx \<le> clk w - ts"
  shows "flush_done c (wait_flush_loop A mx ts nr (Suc n) cur) (c, w) fst m"
proof (cases rule: wait_flush_step [OF assms(1,2), of mx ts nr n cur w])
  case (1 ok nr' c' w')
  then show ?thesis
    by (auto simp: flush_done_def)
next
  case (2 d c' w')
  then show ?thesis
    using assms(3) by simp
qed

lemma wait_flush_loop_done:
  assumes clk: "steady_clock A clk"
  shows "rpc_inv_at m c \<Longrightarrow> 0 < cur \<Longrightarrow> 2 * cur - 10 \<le> clk w - ts \<Longrightarrow> mx \<le> cur * 2 ^ Suc n - 10 \<Longrightarrow>
    flush_done c (wait_flush_loop A mx ts nr (Suc n) cur) (c, w) fst m"
proof (induction n arbitrary: c w cur)
  case 0
  then show ?case
    by (intro wait_flush_late [OF _ clk]) auto
next
  case (Suc n)
  show ?case
  proof (cases rule: wait_flush_step [OF Suc.prems(1) clk, of mx ts nr "Suc n" cur w])
    case (1 ok nr' c' w')
    then show ?thesis
      by (auto simp: flush_done_def)
  next
    case (2 d c' w')
    let ?j = "if d + cur * 2 > mx then mx - d else cur * 2"
    have "flush_done c' (wait_flush_loop A mx ts nr (Suc n) ?j) (c', w') fst m"
    proof (cases "d + cur * 2 > mx")
      case True
      then show ?thesis
        using 2(3,5) by (intro wait_flush_late [OF _ clk]) auto
    next
      case False
      then have "flush_done c' (wait_flush_loop A mx ts nr (Suc n) (cur * 2)) (c', w') fst m"
        using 2 Suc.prems by (intro Suc.IH) auto
      then show ?thesis
        using False by simp
    qed
    then show ?thesis
      using 2(4) 2(6) by (rule flush_done_from)
  qed
qed

text \<open>
  C24: \<^verbatim>\<open>wait_flush\<close> returns, and returns true exactly when no packet is left unacknowledged. The
  doubling of the interval bounds the number of polls: \<^verbatim>\<open>n\<close> are enough for a time-out of
  \<^verbatim>\<open>5 * 2^n - 10\<close> milliseconds (11 for the 10 seconds that the channel waits).
\<close>
theorem wait_flush_returns:
  assumes "rpc_inv c" "steady_clock A clk" "0 < n" "max_msec \<le> 5 * 2 ^ n - 10"
  shows "\<exists>ok nr' c' w'. wait_flush A n max_msec nr (c, w) = Some (Inr (ok, nr'), c', w') \<and>
    (ok \<longleftrightarrow> m_notack_queue c' = []) \<and> rpc_inv c' \<and> evolves c c'"
proof -
  obtain ts w1 where b: "steady_ms A w = (ts, w1)"
    by fastforce
  have "ts \<le> clk w1"
    using assms(2) b unfolding steady_clock_def by (metis fst_conv snd_conv)
  then have "flush_done c (wait_flush_loop A max_msec ts nr (Suc (n - 1)) 5) (c, w1) fst (m_seq c)"
    using assms by (intro wait_flush_loop_done [OF assms(2)]) auto
  then obtain ok nr' c' w' where run: "wait_flush_loop A max_msec ts nr n 5 (c, w1) = Some (Inr (ok, nr'), c', w')"
    and inv: "rpc_inv_at (m_seq c) c'" "evolves c c'" and ok: "ok \<longleftrightarrow> m_notack_queue c' = []"
    using assms(3) by (auto simp: flush_done_def)
  have "wait_flush A n max_msec nr (c, w) = Some (Inr (ok, nr'), c', w')"
    using b run by (simp add: wait_flush_def bind_def ask_def)
  then show ?thesis
    using inv ok evolves_fields(11) [OF inv(2)] by auto
qed

lemma demo_clock [simp]: "steady_clock demo_net w_clock"
  by (auto simp: steady_clock_def thread_respects_def split: prod.splits)

theorem wait_flush_returns_witness:
  "\<exists>ok nr' c' w'. wait_flush demo_net 11 10000 (Some False)
     (demo_client\<lparr>m_seq := 1, m_notack_queue := [seq_packet demo_client ''task'' [1]]\<rparr>, demo_world) = Some (Inr (ok, nr'), c', w') \<and>
    (ok \<longleftrightarrow> m_notack_queue c' = []) \<and> rpc_inv c' \<and>
    evolves (demo_client\<lparr>m_seq := 1, m_notack_queue := [seq_packet demo_client ''task'' [1]]\<rparr>) c'"
  by (rule wait_flush_returns [OF _ demo_clock])
    (simp_all add: rpc_inv_at_def packet_seqs_def)

section \<open>Numbering and resending\<close>

text \<open>
  C18: On a version-2 stream a successful \<^verbatim>\<open>Send\<close> writes one packet that carries the content under the
  next sequence number, empties the caller's string and appends the packet to the queue. An unsuccessful one writes
  nothing, gives the content back and uses up no number. Meanwhile the receiving thread takes packets away from the front of the
  queue, exactly one for each acknowledgement that it has read (whatever number it carries; one it has read and not yet popped for is
  pending), and none when no acknowledgement comes. The queue stays consecutive.
\<close>
theorem send_in_sequence:
  assumes "rpc_inv c" "m_use_rpc_version c \<ge> v2" "m_rw_sender c = Some h" "m_seq c < int_max"
    and "records_writes A sent" "records_acks A acks"
  shows "\<exists>ok rest c' w' k. Send A ch task content (c, w) = Some (Inr (ok, rest), c', w') \<and> rpc_inv c' \<and>
    acks w' + pending c = acks w + k + pending c' \<and>
    (if ok
     then rest = [] \<and> m_seq c' = m_seq c + 1 \<and> sent w' = sent w @ [seq_packet c task content] \<and>
       k \<le> length (m_notack_queue c) + 1 \<and> m_notack_queue c' = drop k (m_notack_queue c @ [seq_packet c task content])
     else rest = content \<and> m_seq c' = m_seq c \<and> sent w' = sent w \<and>
       k \<le> length (m_notack_queue c) \<and> m_notack_queue c' = drop k (m_notack_queue c))"
proof -
  let ?p = "seq_packet c task content" and ?L = "m_notack_queue c"
  obtain ok rest c' w' where run: "Send A ch task content (c, w) = Some (Inr (ok, rest), c', w')" "rpc_inv c'"
    and yes: "ok \<longrightarrow> rest = [] \<and> m_seq c' = m_seq c + 1 \<and> sent w' = sent w @ [?p]"
    and no: "\<not> ok \<longrightarrow> rest = content \<and> m_seq c' = m_seq c \<and> sent w' = sent w"
    by (rule send_v2 [OF assms(1-5), of ch task content w]) blast
  have counts: "counts_acks A h acks (\<lambda>_. True)"
    by (rule records_counts [OF assms(6)])
  have l: "if ok then ledger acks (\<lambda>_. True) h (acks w) (pending c) (?L @ [?p]) (m_seq c') (c', w')
      else ledger acks (\<lambda>_. True) h (acks w) (pending c) ?L (m_seq c') (c', w')"
    by (rule Send_ledger [OF counts counts ledger_open [OF assms(1,3)] assms(2) _ run(1)])
      (use assms(6) in \<open>simp_all add: records_acks_def\<close>)
  show ?thesis
  proof (cases ok)
    case True
    then obtain k where "k \<le> length (?L @ [?p])" "m_notack_queue c' = drop k (?L @ [?p])" "k + pending c' + acks w = acks w' + pending c"
      using l by (auto elim: ledgerE)
    then show ?thesis
      using run yes True by (intro exI [of _ ok] exI [of _ rest] exI [of _ c'] exI [of _ w'] exI [of _ k]) simp
  next
    case False
    then obtain k where "k \<le> length ?L" "m_notack_queue c' = drop k ?L" "k + pending c' + acks w = acks w' + pending c"
      using l by (auto elim: ledgerE)
    then show ?thesis
      using run no False by (intro exI [of _ ok] exI [of _ rest] exI [of _ c'] exI [of _ w'] exI [of _ k]) simp
  qed
qed

lemma demo_records_writes [simp]: "records_writes demo_net w_sent"
  by (auto simp: records_writes_def thread_respects_def pick_def split: list.splits prod.splits)

lemma demo_records_acks [simp]: "records_acks demo_net w_acks"
proof -
  have "w_acks (after_read r w) = w_acks w + (if is_ack r then 1 else 0)" for r w
    by (cases r) simp_all
  then show ?thesis
    by (auto simp: records_acks_def side_calls_def split: prod.splits)
qed

lemma demo_inv_send [simp]: "rpc_inv demo_client" "rpc_inv_at 0 demo_client"
  by (simp_all add: rpc_inv_at_def packet_seqs_def)

text \<open>One packet waits for its acknowledgement, a second one is sent, and the acknowledgement of the first one arrives meanwhile.\<close>

definition demo_waiting :: rpc_client where
  "demo_waiting = demo_client\<lparr>m_seq := 1, m_notack_queue := [seq_packet demo_client ''task'' [1]]\<rparr>"

lemma demo_waiting_simps [simp]:
  "m_seq demo_waiting = 1" "m_notack_queue demo_waiting = [seq_packet demo_client ''task'' [1]]" "m_rw_sender demo_waiting = Some 2"
  "m_use_rpc_version demo_waiting = v2" "pending demo_waiting = 0" "m_recv_thread demo_waiting = Joinable Reading" "rpc_inv_at 1 demo_waiting"
  "m_use_redis demo_waiting" "redis_client demo_waiting = Live demo_redis_object"
  by (simp_all add: demo_waiting_def pending_def rpc_inv_at_def packet_seqs_def)

theorem send_in_sequence_witness:
  "\<exists>c' w'. Send demo_net demo_base ''task'' [5] (demo_waiting, demo_world\<lparr>w_reads := [Acked 0], w_sched := 3\<rparr>) = Some (Inr (True, []), c', w') \<and>
    rpc_inv c' \<and> w_acks w' = 1 \<and> w_sent w' = [seq_packet demo_waiting ''task'' [5]] \<and>
    m_notack_queue c' = [seq_packet demo_waiting ''task'' [5]]"
proof -
  let ?w = "demo_world\<lparr>w_reads := [Acked 0], w_sched := 3\<rparr>"
  obtain c' w' where run: "Send demo_net demo_base ''task'' [5] (demo_waiting, ?w) = Some (Inr (True, []), c', w')" "w_acks w' = 1" "pending c' = 0"
    by (simp add: Send_def interleave_def runs prog recv_thread_step_def numeral_3_eq_3 demo_waiting_def v2_def not_inited_def
        int_max_def pending_def Let_def)
  from send_in_sequence [of demo_waiting 2 demo_net w_sent w_acks demo_base "''task''" "[5]" ?w] run show ?thesis
    by (auto simp: int_max_def)
qed

text \<open>
  C12: Moving to a new connection loses nothing: the tuple taken from a version-2 client and given to
  a fresh one carries over the next sequence number, the receive index, both versions and the
  unacknowledged packets. All of them are in the new client's queue, except for one at the front per acknowledgement that is read from the
  new stream meanwhile, and the new stream is sent exactly the packets of the queue, in order: all of them when the call
  reports success, and those before the first write that fails otherwise.
\<close>
theorem reconnect_resends_unacked:
  assumes "rpc_inv c" "m_use_rpc_version c \<ge> v2" "fresh_client c0" "records_writes A sent" "records_acks A acks"
  shows "\<exists>tup. get_continue_status (c, w) = Some (Inr tup, c\<lparr>m_notack_queue := []\<rparr>, w) \<and>
    (\<exists>ok c' w' k j. set_continue_status A ch tup (c0, w) = Some (Inr ok, c', w') \<and> rpc_inv c' \<and>
       m_seq c' = m_seq c \<and> m_recv_idx c' = m_recv_idx c \<and> m_use_rpc_version c' = m_use_rpc_version c \<and>
       m_use_redis_data_version c' = m_use_redis_data_version c \<and>
       k \<le> length (m_notack_queue c) \<and> acks w' = acks w + k + pending c' \<and> m_notack_queue c' = drop k (m_notack_queue c) \<and>
       j \<le> length (m_notack_queue c') \<and> sent w' = sent w @ take j (m_notack_queue c') \<and>
       (ok \<longleftrightarrow> j = length (m_notack_queue c')))"
proof -
  let ?tup = "(m_notack_queue c, m_seq c, m_recv_idx c, m_use_rpc_version c, m_use_redis_data_version c)"
  have get: "get_continue_status (c, w) = Some (Inr ?tup, c\<lparr>m_notack_queue := []\<rparr>, w)"
    using assms(2) by (simp add: get_continue_status_def bind_def get_obj_def set_obj_def ret_def)
  have q: "packet_seqs (m_notack_queue c) = [m_seq c - int (length (m_notack_queue c)) .. m_seq c - 1]"
    using assms(1) by (simp add: rpc_inv_at_def)
  obtain ok c' w' where run: "set_continue_status A ch ?tup (c0, w) = Some (Inr ok, c', w')"
    and c': "rpc_inv c'" "m_seq c' = m_seq c" "m_recv_idx c' = m_recv_idx c" "m_use_rpc_version c' = m_use_rpc_version c"
      "m_use_redis_data_version c' = m_use_redis_data_version c"
    by (rule set_continue_v2 [OF assms(3,2,4) q, of ch "m_recv_idx c" "m_use_redis_data_version c" w]) blast
  obtain k where k: "k \<le> length (m_notack_queue c)" "m_notack_queue c' = drop k (m_notack_queue c)" "acks w' = acks w + k + pending c'"
    by (rule set_continue_acks [OF assms(3,2,5) q run])
  obtain j where j: "j \<le> length (m_notack_queue c')" "sent w' = sent w @ take j (m_notack_queue c')" "ok \<longleftrightarrow> j = length (m_notack_queue c')"
    by (rule set_continue_sent [OF assms(3,2,4) q run])
  show ?thesis
    using get run c' k j by blast
qed

definition demo_fresh :: rpc_client where
  "demo_fresh = demo_client\<lparr>m_rw_sender := None, m_use_rpc_version := not_inited, m_use_redis_data_version := not_inited,
     m_recv_thread := NoThread, m_recv_thread_status := ThreadNotInited\<rparr>"

lemma demo_fresh [simp]: "fresh_client demo_fresh"
  by (simp add: fresh_client_def demo_fresh_def demo_client_def)

text \<open>A packet that nobody has acknowledged, and a relay that does not acknowledge anything.\<close>

theorem reconnect_resends_unacked_witness:
  "\<exists>tup c' w'. get_continue_status (demo_waiting, demo_world) = Some (Inr tup, demo_waiting\<lparr>m_notack_queue := []\<rparr>, demo_world) \<and>
    set_continue_status demo_net demo_base tup (demo_fresh, demo_world) = Some (Inr True, c', w') \<and> rpc_inv c' \<and> m_seq c' = 1 \<and>
    m_notack_queue c' = [seq_packet demo_client ''task'' [1]] \<and> w_sent w' = [seq_packet demo_client ''task'' [1]]"
proof -
  let ?q = "[seq_packet demo_client ''task'' [1]]"
  have tup: "get_continue_status (demo_waiting, demo_world) = Some (Inr (?q, 1, -1, v2, v2), demo_waiting\<lparr>m_notack_queue := []\<rparr>, demo_world)"
    by (simp add: get_continue_status_def runs prog demo_waiting_def)
  have run: "\<exists>c' w'. set_continue_status demo_net demo_base (?q, 1, -1, v2, v2) (demo_fresh, demo_world) = Some (Inr True, c', w') \<and> w_acks w' = 0"
    by (simp add: set_continue_status_def init_sender_def interleave_def runs prog demo_fresh_def v2_def)
  from reconnect_resends_unacked [of demo_waiting demo_fresh demo_net w_sent w_acks demo_world demo_base] tup run show ?thesis
    by fastforce
qed

section \<open>Version 1\<close>

lemma interleave_idle:
  assumes "m_recv_thread c \<in> {NoThread, Joined, Joinable Exited}"
  obtains w' where "interleave A (c, w) = Some (Inr (), c, w')"
proof -
  have step: "recv_thread_step A (c, v) = Some (Inr (), c, v)" for v
    using assms by (auto simp: recv_thread_step_def bind_def get_obj_def ret_def)
  have run: "recv_thread_run A n (c, v) = Some (Inr (), c, v)" for n v
    by (induction n arbitrary: v) (simp_all add: bind_def ret_def step)
  show ?thesis
    using that by (cases "schedule A w") (simp add: interleave_def bind_def ask_def run)
qed

text \<open>
  C28: Reconnecting does not work below version 2: the new client is told the version but gets no
  stream, \<^verbatim>\<open>set_continue_status\<close> still reports success, and the next \<^verbatim>\<open>Send\<close> writes through the
  null \<^verbatim>\<open>m_sender\<close>. The receive index of a version-2 Redis stream is lost as well.
\<close>
theorem reconnect_v1_null_stream:
  assumes "m_use_rpc_version c = v1" "fresh_client c0"
  shows "\<exists>tup c'. get_continue_status (c, w) = Some (Inr tup, c, w) \<and>
    set_continue_status A ch tup (c0, w) = Some (Inr True, c', w) \<and> m_recv_idx c' = -1 \<and>
    (\<exists>s. Send A ch task content (c', w) = Some (Inl NullPointer, s))"
proof -
  let ?tup = "([], 0, 0, v1, m_use_redis_data_version c)"
  let ?c = "c0\<lparr>m_use_rpc_version := v1, m_use_redis_data_version := m_use_redis_data_version c\<rparr>"
  have get: "get_continue_status (c, w) = Some (Inr ?tup, c, w)"
    using assms(1) by (simp add: get_continue_status_def bind_def get_obj_def ret_def v1_def v2_def)
  have set: "set_continue_status A ch ?tup (c0, w) = Some (Inr True, ?c, w)"
    by (simp add: set_continue_status_def bind_def set_obj_def ret_def v1_def v2_def)
  obtain w1 where "interleave A (?c, w) = Some (Inr (), ?c, w1)"
    using interleave_idle [of ?c A w] assms(2) by (auto simp: fresh_client_def)
  then have "Send A ch task content (?c, w) = Some (Inl NullPointer, ?c, w1)"
    using assms(2)
    by (simp add: Send_def bind_def get_obj_def ret_def raise_def v1_def v2_def not_inited_def fresh_client_def Let_def)
  then show ?thesis
    using get set assms(2) by (intro exI [of _ ?tup] exI [of _ ?c]) (auto simp: fresh_client_def)
qed

theorem reconnect_v1_null_stream_witness:
  "\<exists>tup c'. get_continue_status (demo_client\<lparr>m_use_rpc_version := v1\<rparr>, demo_world) =
      Some (Inr tup, demo_client\<lparr>m_use_rpc_version := v1\<rparr>, demo_world) \<and>
    set_continue_status demo_net demo_base tup (demo_fresh, demo_world) = Some (Inr True, c', demo_world) \<and>
    m_recv_idx c' = -1 \<and> (\<exists>s. Send demo_net demo_base ''task'' [5] (c', demo_world) = Some (Inl NullPointer, s))"
  by (rule reconnect_v1_null_stream) simp_all

section \<open>Negotiating the version\<close>

lemma version_loop_result:
  obtains c' w' where "version_loop A ch n (c, w) = Some (Inr (), c', w')"
    "c' = c \<or>
     (\<exists>v u u'. stub_get_version A (m_chl c) (add_metadata c ch) u = (VersionOk v, u') \<and>
        c' = c\<lparr>m_use_rpc_version := min v config_support_max_version\<rparr>) \<or>
     (\<exists>u u'. stub_get_version A (m_chl c) (add_metadata c ch) u = (Unimplemented, u') \<and>
        c' = c\<lparr>m_use_rpc_version := v1\<rparr>)"
proof -
  have "\<exists>c' w'. version_loop A ch n (c, w) = Some (Inr (), c', w') \<and>
    (c' = c \<or>
     (\<exists>v u u'. stub_get_version A (m_chl c) (add_metadata c ch) u = (VersionOk v, u') \<and>
        c' = c\<lparr>m_use_rpc_version := min v config_support_max_version\<rparr>) \<or>
     (\<exists>u u'. stub_get_version A (m_chl c) (add_metadata c ch) u = (Unimplemented, u') \<and>
        c' = c\<lparr>m_use_rpc_version := v1\<rparr>))"
  proof (induction n arbitrary: w)
    case 0
    then show ?case by (simp add: ret_def)
  next
    case (Suc n)
    obtain r w1 where r: "stub_get_version A (m_chl c) (add_metadata c ch) w = (r, w1)"
      by fastforce
    show ?case
    proof (cases r)
      case (VersionOk v)
      then have "version_loop A ch (Suc n) (c, w) =
          Some (Inr (), c\<lparr>m_use_rpc_version := min v config_support_max_version\<rparr>, w1)"
        using r by (simp add: bind_def get_obj_def set_obj_def ask_def)
      then show ?thesis
        using r VersionOk by blast
    next
      case Unimplemented
      then have "version_loop A ch (Suc n) (c, w) = Some (Inr (), c\<lparr>m_use_rpc_version := v1\<rparr>, w1)"
        using r by (simp add: bind_def get_obj_def set_obj_def ask_def)
      then show ?thesis
        using r Unimplemented by blast
    next
      case VersionError
      then show ?thesis
        using r Suc [of "sleep_ms A 1000 w1"] by (simp add: bind_def get_obj_def ask_def sleep_def)
    qed
  qed
  then show ?thesis
    using that by blast
qed

text \<open>
  The negotiation asks again after each error, a second later: the world before the \<^verbatim>\<open>i\<close>-th call, when all calls before
  it have failed, and its reply.
\<close>

fun asked :: "('w, 'z) net_api_scheme \<Rightarrow> 'y channel_base_scheme \<Rightarrow> rpc_client \<Rightarrow> nat \<Rightarrow> 'w \<Rightarrow> 'w" where
  "asked A ch c 0 w = w"
| "asked A ch c (Suc i) w = asked A ch c i (sleep_ms A 1000 (snd (stub_get_version A (m_chl c) (add_metadata c ch) w)))"

definition version_call :: "('w, 'z) net_api_scheme \<Rightarrow> 'y channel_base_scheme \<Rightarrow> rpc_client \<Rightarrow> 'w \<Rightarrow> nat \<Rightarrow> version_reply \<times> 'w" where
  "version_call A ch c w i = stub_get_version A (m_chl c) (add_metadata c ch) (asked A ch c i w)"

fun decided_version :: "version_reply \<Rightarrow> int" where
  "decided_version (VersionOk v) = min v 2"
| "decided_version Unimplemented = 1"
| "decided_version VersionError = -1"

lemma version_call_simps [simp]:
  "version_call A ch c w 0 = stub_get_version A (m_chl c) (add_metadata c ch) w"
  "version_call A ch c w (Suc i) = version_call A ch c (sleep_ms A 1000 (snd (stub_get_version A (m_chl c) (add_metadata c ch) w))) i"
  by (simp_all add: version_call_def)

lemma version_loop_decided:
  "i < n \<Longrightarrow> \<forall>j < i. fst (version_call A ch c w j) = VersionError \<Longrightarrow> version_call A ch c w i = (reply, w') \<Longrightarrow> reply \<noteq> VersionError \<Longrightarrow>
    version_loop A ch n (c, w) = Some (Inr (), c\<lparr>m_use_rpc_version := decided_version reply\<rparr>, w')"
proof (induction n arbitrary: i w)
  case (Suc n)
  show ?case
  proof (cases i)
    case 0
    then show ?thesis
      using Suc.prems(3,4)
      by (cases reply) (simp_all add: bind_get_obj bind_ask set_obj_def config_support_max_version_def v1_def v2_def)
  next
    case (Suc j)
    let ?w = "sleep_ms A 1000 (snd (stub_get_version A (m_chl c) (add_metadata c ch) w))"
    have "version_loop A ch n (c, ?w) = Some (Inr (), c\<lparr>m_use_rpc_version := decided_version reply\<rparr>, w')"
      using Suc Suc.prems by (intro Suc.IH [of j]) auto
    moreover have "fst (stub_get_version A (m_chl c) (add_metadata c ch) w) = VersionError"
      using Suc.prems(2) Suc by force
    ultimately show ?thesis
      by (simp add: bind_get_obj bind_ask sleep_def)
  qed
qed simp

lemma version_loop_undecided:
  "\<forall>j < n. fst (version_call A ch c w j) = VersionError \<Longrightarrow> version_loop A ch n (c, w) = Some (Inr (), c, asked A ch c n w)"
proof (induction n arbitrary: w)
  case (Suc n)
  have "fst (stub_get_version A (m_chl c) (add_metadata c ch) w) = VersionError"
    using Suc.prems by force
  moreover have "\<forall>j < n. fst (version_call A ch c (sleep_ms A 1000 (snd (stub_get_version A (m_chl c) (add_metadata c ch) w))) j) = VersionError"
    using Suc.prems by fastforce
  ultimately show ?case
    using Suc.IH by (simp add: bind_get_obj bind_ask sleep_def)
qed (simp add: ret_def)

text \<open>The first of the 20 calls that does not end in an error.\<close>

definition deciding_call :: "('w, 'z) net_api_scheme \<Rightarrow> 'y channel_base_scheme \<Rightarrow> rpc_client \<Rightarrow> 'w \<Rightarrow> nat option" where
  "deciding_call A ch c w = find (\<lambda>i. fst (version_call A ch c w i) \<noteq> VersionError) [0..<20]"

lemma deciding_call_None: "deciding_call A ch c w = None \<longleftrightarrow> (\<forall>j < 20. fst (version_call A ch c w j) = VersionError)"
  by (simp add: deciding_call_def find_None_iff)

lemma deciding_call_Some:
  "deciding_call A ch c w = Some i \<longleftrightarrow>
     i < 20 \<and> (\<forall>j < i. fst (version_call A ch c w j) = VersionError) \<and> fst (version_call A ch c w i) \<noteq> VersionError"
  unfolding deciding_call_def find_Some_iff by (auto simp del: upt_Suc)

text \<open>
  C25: The negotiation calls the server at most 20 times, a second apart, and makes no call after the first reply that is not an
  error. That reply decides the version: the smaller of the remote one and 2, or 1 for a server without the call. It throws exactly
  when all 20 calls fail or the remote version is -1. Nothing else of the client changes.
\<close>
theorem version_negotiated:
  assumes "m_use_rpc_version c = not_inited"
  shows "init_rpc_version A ch (c, w) =
    (case deciding_call A ch c w of
       None \<Rightarrow> Some (Inl (Thrown ''init_rpc_version failed...''), c, asked A ch c 20 w)
     | Some i \<Rightarrow>
         (let (reply, w') = version_call A ch c w i; v = decided_version reply
          in if v = -1 then Some (Inl (Thrown ''init_rpc_version failed...''), c, w')
             else Some (Inr (), c\<lparr>m_use_rpc_version := v\<rparr>, w')))"
proof (cases "deciding_call A ch c w")
  case None
  then have "version_loop A ch 20 (c, w) = Some (Inr (), c, asked A ch c 20 w)"
    unfolding deciding_call_None by (rule version_loop_undecided)
  then show ?thesis
    using assms None by (simp add: init_rpc_version_def bind_run bind_get_obj raise_def)
next
  case (Some i)
  obtain reply w' where call: "version_call A ch c w i = (reply, w')"
    by fastforce
  have "version_loop A ch 20 (c, w) = Some (Inr (), c\<lparr>m_use_rpc_version := decided_version reply\<rparr>, w')"
    using Some [unfolded deciding_call_Some] call by (intro version_loop_decided [of i]) simp_all
  moreover have "c\<lparr>m_use_rpc_version := -1\<rparr> = c"
    using assms by (simp add: not_inited_def)
  ultimately show ?thesis
    using Some call by (simp add: init_rpc_version_def bind_run bind_get_obj raise_def ret_def not_inited_def)
qed

text \<open>An error, then version 3: two calls, a second apart. A server that does not know the call.\<close>

theorem version_negotiated_witness:
  "init_rpc_version demo_net demo_base (demo_fresh, demo_world\<lparr>w_versions := [VersionError, VersionOk 3, VersionError]\<rparr>) =
      Some (Inr (), demo_fresh\<lparr>m_use_rpc_version := 2\<rparr>, demo_world\<lparr>w_versions := [VersionError], w_clock := 1000\<rparr>) \<and>
   init_rpc_version demo_net demo_base (demo_fresh, demo_world\<lparr>w_versions := [Unimplemented]\<rparr>) =
      Some (Inr (), demo_fresh\<lparr>m_use_rpc_version := 1\<rparr>, demo_world\<lparr>w_versions := []\<rparr>)"
proof -
  have new: "m_use_rpc_version demo_fresh = not_inited"
    by (simp add: demo_fresh_def)
  let ?w = "demo_world\<lparr>w_versions := [VersionError, VersionOk 3, VersionError]\<rparr>" and ?u = "demo_world\<lparr>w_versions := [Unimplemented]\<rparr>"
  have "deciding_call demo_net demo_base demo_fresh ?w = Some 1" "deciding_call demo_net demo_base demo_fresh ?u = Some 0"
    by (simp_all add: deciding_call_Some)
  then show ?thesis
    unfolding version_negotiated [OF new] by simp
qed

section \<open>Finishing\<close>

text \<open>The client's Redis object is there when the client uses it.\<close>

definition redis_set :: "rpc_client \<Rightarrow> bool" where
  "redis_set c \<longleftrightarrow> (m_use_redis c \<longrightarrow> (\<exists>r. redis_client c = Live r \<and> redis_ready r))"

text \<open>Programs that return or throw a Redis error, and leave the client as it is.\<close>

definition quiet :: "'c \<Rightarrow> ('c \<times> 'w, 'a) prog \<Rightarrow> bool" where
  "quiet c m \<longleftrightarrow> (\<forall>w. \<exists>x w'. m (c, w) = Some (x, c, w') \<and> (\<forall>e. x = Inl e \<longrightarrow> (\<exists>msg. e = RedisError msg)))"

lemma quiet_ret: "quiet c (ret a)"
  by (simp add: quiet_def ret_def)

lemma quiet_bind:
  assumes m: "quiet c m" and f: "\<And>a. quiet c (f a)"
  shows "quiet c (bind m f)"
  unfolding quiet_def
proof
  fix w
  obtain x w1 where x: "m (c, w) = Some (x, c, w1)" "\<forall>e. x = Inl e \<longrightarrow> (\<exists>msg. e = RedisError msg)"
    using m unfolding quiet_def by blast
  show "\<exists>y w'. bind m f (c, w) = Some (y, c, w') \<and> (\<forall>e. y = Inl e \<longrightarrow> (\<exists>msg. e = RedisError msg))"
  proof (cases x)
    case (Inl e)
    then show ?thesis
      using x by (simp add: bind_def)
  next
    case (Inr a)
    then show ?thesis
      using x(1) f [of a, unfolded quiet_def, rule_format, of w1] by (simp add: bind_def)
  qed
qed

lemma quiet_redis_call: "quiet c (redis_call f)"
  by (auto simp: quiet_def redis_call_def bind_def ask_def raise_def ret_def split: prod.split sum.split)

lemma quiet_redis_ops:
  assumes "redis_ready r"
  shows "quiet c (hset_items A r key items)" "quiet c (hset_pair A r key item)" "quiet c (expire A r key n)"
    "quiet c (lpush A r key val)" "quiet c (ping A r)"
proof -
  obtain h where h: "(if m_use_cluster r then redis_cluster r else redis r) = Live h"
    using assms by (auto simp: redis_ready_def)
  show "quiet c (hset_items A r key items)" "quiet c (hset_pair A r key item)" "quiet c (expire A r key n)"
    "quiet c (lpush A r key val)" "quiet c (ping A r)"
    using h
    by (auto simp: hset_items_def hset_pair_def expire_def lpush_def ping_def
        intro!: quiet_bind quiet_redis_call quiet_ret split: if_splits)
qed

lemma quiet_get_obj:
  assumes "quiet c (f (g c))"
  shows "quiet c (bind (get_obj g) f)"
  using assms by (simp add: quiet_def bind_def get_obj_def)

lemma quiet_report_usage:
  assumes "redis_client c = Live r" "redis_ready r"
  shows "quiet c (report_usage A ch)"
  unfolding report_usage_def Let_def
  by (intro quiet_get_obj, simp only: assms(1) id_apply deref.simps bind_from_sum)
    (auto intro!: quiet_bind quiet_ret quiet_redis_ops [OF assms(2)] split: option.split)

lemma catch_quiet:
  assumes "quiet c m" "quiet c k" "\<And>w e w'. k (c, w) \<noteq> Some (Inl e, w')"
  obtains a w' where "catch_redis_error m k (c, w) = Some (Inr a, c, w')"
proof -
  obtain x w1 where x: "m (c, w) = Some (x, c, w1)" "\<forall>e. x = Inl e \<longrightarrow> (\<exists>msg. e = RedisError msg)"
    using assms(1) unfolding quiet_def by blast
  show ?thesis
  proof (cases x)
    case (Inl e)
    obtain y w2 where y: "k (c, w1) = Some (y, c, w2)"
      using assms(2) unfolding quiet_def by blast
    moreover have "y \<noteq> Inl f" for f
      using y assms(3) [of w1 f] by auto
    ultimately obtain a where "k (c, w1) = Some (Inr a, c, w2)"
      by (cases y) auto
    moreover obtain msg where "e = RedisError msg"
      using x(2) Inl by blast
    ultimately show ?thesis
      using x(1) Inl that by (simp add: catch_redis_error_def try_catch_def)
  next
    case (Inr a)
    then show ?thesis
      using x(1) that by (simp add: catch_redis_error_def try_catch_def)
  qed
qed

text \<open>The end of \<^verbatim>\<open>finish\<close>, after the stream has been closed.\<close>

definition finish_report :: "('w, 'z) net_api_scheme \<Rightarrow> 'y channel_base_scheme \<Rightarrow> rpc_client \<Rightarrow> bool \<Rightarrow> ('w, unit) rpc" where
  "finish_report A ch c status =
     bind (if m_use_redis c then catch_redis_error (report_usage A ch) (ret ()) else ret ()) (\<lambda>_.
     if status then ask (\<lambda>w. ((), chan_wait_shutdown A (m_chl c) w)) else ret ())"

lemma finish_report_run:
  assumes "redis_set c'" "m_use_redis c = m_use_redis c'"
  shows "\<exists>w'. finish_report A ch c status (c', w) = Some (Inr (), c', w')"
proof -
  have "\<exists>w'. (if m_use_redis c then catch_redis_error (report_usage A ch) (ret ()) else ret ()) (c', w) =
      Some (Inr (), c', w')"
  proof (cases "m_use_redis c")
    case True
    then obtain r where "redis_client c' = Live r" "redis_ready r"
      using assms by (auto simp: redis_set_def)
    then have "quiet c' (report_usage A ch)"
      by (rule quiet_report_usage)
    then show ?thesis
      using True catch_quiet [of c' "report_usage A ch" "ret ()" w] quiet_ret [of c' "()"]
      by (auto simp: ret_def)
  next
    case False
    then show ?thesis
      by (simp add: ret_def)
  qed
  then obtain w1 where "(if m_use_redis c then catch_redis_error (report_usage A ch) (ret ()) else ret ()) (c', w) =
      Some (Inr (), c', w1)"
    by blast
  then have "finish_report A ch c status (c', w) =
      Some (Inr (), c', if status then chan_wait_shutdown A (m_chl c) w1 else w1)"
    by (simp add: finish_report_def bind_def ask_def ret_def)
  then show ?thesis
    by (rule exI)
qed

lemma obeys_finish_report:
  assumes "preorder R" "side_calls A R"
  shows "obeys R (finish_report A ch c status)"
  unfolding finish_report_def
  by (auto intro!: obeys_bind obeys_pure obeys_ask obeys_catch obeys_report_usage side_callsD [OF assms(2)] assms)

lemma finish_eq:
  "finish A ch (c, w) =
     bind (if m_use_rpc_version c = not_inited then ret True
           else if m_use_rpc_version c = v1 then finish_stream A (m_sender c)
           else if m_use_rpc_version c = v2 then
             bind (finish_stream A (m_rw_sender c)) (\<lambda>status.
             bind (interleave A) (\<lambda>_.
             bind (get_obj m_recv_thread_status) (\<lambda>st.
             bind (if st \<noteq> ThreadNotInited then join_recv_thread A else ret ()) (\<lambda>_.
             ret status))))
           else ret True) (finish_report A ch c) (c, w)"
  by (simp add: finish_def finish_report_def [abs_def] bind_def [of "get_obj id"] get_obj_def)

text \<open>
  \<^verbatim>\<open>finish\<close> of a version-2 client either waits for its thread for ever or returns; then the thread
  is joined, unless it had not run its first statement yet.
\<close>

lemma finish_v2:
  assumes inv: "rpc_inv_at n c" and v: "m_use_rpc_version c = v2" and h: "m_rw_sender c = Some h" and r: "redis_set c"
    and joinable: "joinable c" and run: "finish A ch (c, w) = Some (x, c', w')"
  shows "x = Inr () \<and> rpc_inv_at n c' \<and> evolves c c' \<and> m_recv_thread c' \<in> {Joinable Spawned, Joined} \<and>
    (started c \<longrightarrow> m_recv_thread c' = Joined)"
proof -
  obtain ok w1 where s: "stream_finish A h (stream_writes_done A h w) = (ok, w1)"
    by fastforce
  obtain c2 w2 where 2: "interleave A (c, w1) = Some (Inr (), c2, w2)" "rpc_inv_at n c2" "evolves c c2"
    using interleave_total [OF inv, of A w1] by blast
  have fin: "finish A ch (c, w) =
      bind (if m_recv_thread_status c2 \<noteq> ThreadNotInited then join_recv_thread A else ret ())
        (\<lambda>_. finish_report A ch c ok) (c2, w2)"
  proof -
    have stream: "finish_stream A (m_rw_sender c) (c, w) = Some (Inr ok, c, w1)"
      using h s by (simp add: finish_stream_def bind_def ask_def)
    have ver: "(m_use_rpc_version c = not_inited) = False" "(m_use_rpc_version c = v1) = False"
      "(m_use_rpc_version c = v2) = True"
      using v by (simp_all add: v2_def v1_def not_inited_def)
    show ?thesis
      unfolding finish_eq ver if_True if_False bind_bind bind_ret
        bind_run [of "finish_stream A (m_rw_sender c)", OF stream]
        bind_run [of "interleave A", OF 2(1)] bind_get_obj ..
  qed
  have report: "\<exists>w'. finish_report A ch c ok (d, u) = Some (Inr (), d, w')" if "evolves c d" for d u
  proof (rule finish_report_run)
    show "redis_set d"
      using r unfolding redis_set_def evolves_fields [OF that] .
    show "m_use_redis c = m_use_redis d"
      by (rule evolves_fields(3) [OF that, symmetric])
  qed
  show ?thesis
  proof (cases "m_recv_thread_status c2 = ThreadNotInited")
    case True
    then have "m_recv_thread c2 = Joinable Spawned"
      using 2(2) joinable interleave_joinable [OF 2(1)] by (auto simp: rpc_inv_at_def joinable_def)
    then show ?thesis
      using fin True run report [OF 2(3), of w2] 2 interleave_started [OF 2(1)]
      by (auto simp: bind_def ret_def started_def)
  next
    case False
    obtain c3 w3 where 3: "interleave A (c2, w2) = Some (Inr (), c3, w3)" "rpc_inv_at n c3" "evolves c2 c3"
      using interleave_total [OF 2(2), of A w2] by blast
    show ?thesis
    proof (cases "m_recv_thread c3 = Joinable Exited")
      case True
      have ev: "evolves c (c3\<lparr>m_recv_thread := Joined\<rparr>)"
        using evolves_trans [OF 2(3) evolves_trans [OF 3(3) evolves_thread(1)]] .
      have "join_recv_thread A (c2, w2) = Some (Inr (), c3\<lparr>m_recv_thread := Joined\<rparr>, w3)"
        using 3(1) True by (simp add: join_recv_thread_def bind_def get_obj_def set_obj_def)
      moreover have "rpc_inv_at n (c3\<lparr>m_recv_thread := Joined\<rparr>)"
        using 3(2) True by (auto simp: rpc_inv_at_def)
      ultimately show ?thesis
        using fin False run report [OF ev, of w3] ev by (auto simp: bind_def)
    next
      case other: False
      have "joinable c3"
        using joinable interleave_joinable [OF 2(1)] interleave_joinable [OF 3(1)] by simp
      then obtain pc where "m_recv_thread c3 = Joinable pc" "pc \<noteq> Exited"
        using other by (auto simp: joinable_def)
      then have "join_recv_thread A (c2, w2) = None"
        using 3(1) by (cases pc) (simp_all add: join_recv_thread_def bind_def get_obj_def stuck_def)
      then show ?thesis
        using fin run False by (simp add: bind_def)
    qed
  qed
qed

text \<open>What \<^verbatim>\<open>finish\<close> does to the queue is what the thread does: it pops for the acknowledgements that still come.\<close>

lemma finish_ledger:
  assumes counts: "counts_acks A h n K" and inv: "ledger n K h a b L m (c, w)"
    and v: "m_use_rpc_version c = v2" and r: "redis_set c" and joinable: "joinable c"
    and run: "finish A ch (c, w) = Some (Inr (), c', w')"
  shows "ledger n K h a b L m (c', w')"
proof -
  let ?R = "\<lambda>w w'. K w \<longrightarrow> K w' \<and> n w' = n w"
  note side = side_callsD [OF counts_side [OF counts]]
  have i: "rpc_inv_at m c" and h: "m_rw_sender c = Some h"
    using inv by (simp_all add: ledger_def)
  obtain ok w1 where s: "stream_finish A h (stream_writes_done A h w) = (ok, w1)"
    by fastforce
  have l1: "ledger n K h a b L m (c, w1)"
    using ledger_side [OF ledger_side [OF inv side(2)] side(3)] s by (metis snd_conv)
  obtain c2 w2 where 2: "interleave A (c, w1) = Some (Inr (), c2, w2)" "rpc_inv_at m c2" "evolves c c2"
    using interleave_total [OF i, of A w1] by blast
  have l2: "ledger n K h a b L m (c2, w2)"
    by (rule interleave_ledger [OF counts l1 2(1)])
  have ver: "(m_use_rpc_version c = not_inited) = False" "(m_use_rpc_version c = v1) = False" "(m_use_rpc_version c = v2) = True"
    using v by (simp_all add: v2_def v1_def not_inited_def)
  have stream: "finish_stream A (m_rw_sender c) (c, w) = Some (Inr ok, c, w1)"
    using h s by (simp add: finish_stream_def bind_def ask_def)
  have fin: "bind (if m_recv_thread_status c2 \<noteq> ThreadNotInited then join_recv_thread A else ret ())
        (\<lambda>_. finish_report A ch c ok) (c2, w2) = Some (Inr (), c', w')"
    using run unfolding finish_eq ver if_True if_False bind_bind bind_ret
      bind_run [of "finish_stream A (m_rw_sender c)", OF stream]
      bind_run [of "interleave A", OF 2(1)] bind_get_obj .
  obtain c4 w4 where l4: "ledger n K h a b L m (c4, w4)" and ev: "evolves c c4"
    and report: "finish_report A ch c ok (c4, w4) = Some (Inr (), c', w')"
  proof (cases "m_recv_thread_status c2 = ThreadNotInited")
    case True
    then show ?thesis
      using that [OF l2 2(3)] fin by (simp add: bind_ret)
  next
    case False
    then obtain c4 w4 where 4: "join_recv_thread A (c2, w2) = Some (Inr (), c4, w4)" "finish_report A ch c ok (c4, w4) = Some (Inr (), c', w')"
      using fin by (auto simp: bind_value)
    obtain c3 w3 where 3: "interleave A (c2, w2) = Some (Inr (), c3, w3)" "rpc_inv_at m c3" "evolves c2 c3"
      using interleave_total [OF 2(2), of A w2] by blast
    have l3: "ledger n K h a b L m (c3, w3)"
      by (rule interleave_ledger [OF counts l2 3(1)])
    have "m_recv_thread c3 = Joinable Exited" "c4 = c3\<lparr>m_recv_thread := Joined\<rparr>" "w4 = w3"
      using 4(1) 3(1)
      by (auto simp: join_recv_thread_def bind_def get_obj_def set_obj_def stuck_def raise_def split: thread_handle.splits thread_pc.splits)
    moreover from this have "ledger n K h a b L m (c4, w4)"
      using l3 by (auto simp: ledger_def pending_def rpc_inv_at_def)
    ultimately show ?thesis
      using that [OF _ _ 4(2)] evolves_trans [OF 2(3) evolves_trans [OF 3(3) evolves_thread(1)]] by simp
  qed
  have "redis_set c4" "m_use_redis c = m_use_redis c4"
    using r evolves_fields(3,7) [OF ev] by (simp_all add: redis_set_def)
  then have "c' = c4"
    using finish_report_run [of c4 c A ch ok w4] report by auto
  moreover have "obeys ?R (finish_report A ch c ok)"
    by (rule obeys_finish_report [OF lasting_preorder counts_side [OF counts]])
  then have "?R w4 w'"
    using report by (rule obeysD)
  ultimately show ?thesis
    using ledger_side [OF l4] by simp
qed

text \<open>
  C26: Once the receiving thread has run its first statement, a \<^verbatim>\<open>finish\<close> that returns has joined
  it: it returns normally, and from the front of the queue exactly as many packets have gone as acknowledgements were read during the call (with
  the one that was read before and not yet popped for); what was not acknowledged is still there. Nothing runs any more that
  could change it, and the destructor does not end the program.
\<close>
theorem finish_joins_thread:
  assumes "rpc_inv c" "m_use_rpc_version c = v2" "m_rw_sender c = Some h" "redis_set c" "joinable c" "started c"
    and "records_acks A acks" "finish A ch (c, w) = Some (x, c', w')"
  shows "x = Inr () \<and> rpc_inv c' \<and> evolves c c' \<and> m_recv_thread c' = Joined \<and>
    (\<exists>k \<le> length (m_notack_queue c). acks w' + pending c = acks w + k \<and> m_notack_queue c' = drop k (m_notack_queue c)) \<and>
    (\<forall>u. \<exists>v. interleave A (c', u) = Some (Inr (), c', v)) \<and>
    (\<forall>u s. delete_RpcClient A (c', u) \<noteq> Some (Inl Terminated, s))"
proof -
  have fin: "x = Inr ()" "rpc_inv_at (m_seq c) c'" "evolves c c'" "m_recv_thread c' = Joined"
    using finish_v2 [OF assms(1-5,8)] assms(6) by simp_all
  have "ledger acks (\<lambda>_. True) h (acks w) (pending c) (m_notack_queue c) (m_seq c) (c', w')"
    using finish_ledger [OF records_counts [OF assms(7)] ledger_open [OF assms(1,3)] assms(2,4,5)] assms(8) fin(1) by simp
  then have gone: "\<exists>k \<le> length (m_notack_queue c). acks w' + pending c = acks w + k \<and> m_notack_queue c' = drop k (m_notack_queue c)"
    using fin(4) by (auto simp: ledger_def pending_def)
  have "\<exists>v. interleave A (c', u) = Some (Inr (), c', v)" for u
    using interleave_idle [of c' A u] fin(4) by auto
  moreover have "delete_RpcClient A (c', u) \<noteq> Some (Inl Terminated, s)" for u s
  proof (cases "m_use_redis c'")
    case True
    then obtain r where r: "redis_client c' = Live r" "redis_ready r"
      using assms(4) evolves_fields(3,7) [OF fin(3)] by (auto simp: redis_set_def)
    obtain k h where "(if m_use_cluster r then redis_cluster r else redis r) = Live h"
      using r(2) by (auto simp: redis_ready_def)
    then show ?thesis
      using True r(1) fin(4)
      by (auto simp: delete_RpcClient_def delete_RedisClient_def runs ret_def split: if_splits)
  next
    case False
    then show ?thesis
      using fin(4) by (simp add: delete_RpcClient_def runs ret_def)
  qed
  ultimately show ?thesis
    using fin gone evolves_fields(11) [OF fin(3)] by auto
qed

definition demo_ended :: net_world where
  "demo_ended = demo_world\<lparr>w_reads := [StreamEnd], w_sched := 2\<rparr>"

lemma demo_ended_simps [simp]: "w_sched demo_ended = 2" "w_reads demo_ended = [StreamEnd]" "w_acks demo_ended = 0"
  by (simp_all add: demo_ended_def)

definition demo_exited :: rpc_client where
  "demo_exited = demo_waiting\<lparr>m_recv_thread := Joinable Exited, m_recv_thread_status := ThreadFinished\<rparr>"

lemma demo_thread_end:
  "interleave demo_net (demo_waiting, demo_ended) = Some (Inr (), demo_exited, demo_ended\<lparr>w_reads := []\<rparr>)"
  by (simp add: interleave_def numeral_2_eq_2 bind_def ask_def recv_thread_step_def get_obj_def set_obj_def ret_def
      demo_exited_def)

lemma demo_redis_set [simp]: "redis_set demo_client" "redis_set demo_waiting" "redis_set demo_exited"
    "redis_set (demo_exited\<lparr>m_recv_thread := t\<rparr>)"
  by (simp_all add: redis_set_def demo_exited_def demo_waiting_def)

lemma demo_finish:
  "\<exists>w'. finish demo_net demo_base (demo_waiting, demo_ended) = Some (Inr (), demo_exited\<lparr>m_recv_thread := Joined\<rparr>, w')"
proof -
  have ver: "(m_use_rpc_version demo_waiting = not_inited) = False" "(m_use_rpc_version demo_waiting = v1) = False"
    "(m_use_rpc_version demo_waiting = v2) = True"
    by (simp_all add: v2_def v1_def not_inited_def)
  have stream: "finish_stream demo_net (m_rw_sender demo_waiting) (demo_waiting, demo_ended) =
      Some (Inr True, demo_waiting, demo_ended)"
    by (simp add: finish_stream_def bind_def ask_def)
  obtain w1 where idle: "interleave demo_net (demo_exited, demo_ended\<lparr>w_reads := []\<rparr>) = Some (Inr (), demo_exited, w1)"
    using interleave_idle [of demo_exited demo_net] by (auto simp: demo_exited_def)
  have join: "join_recv_thread demo_net (demo_exited, demo_ended\<lparr>w_reads := []\<rparr>) =
      Some (Inr (), demo_exited\<lparr>m_recv_thread := Joined\<rparr>, w1)"
    unfolding join_recv_thread_def bind_run [of "interleave demo_net", OF idle]
    by (simp add: runs demo_exited_def set_obj_def)
  have st: "(m_recv_thread_status demo_exited \<noteq> ThreadNotInited) = True"
    by (simp add: demo_exited_def)
  have "finish demo_net demo_base (demo_waiting, demo_ended) =
      finish_report demo_net demo_base demo_waiting True (demo_exited\<lparr>m_recv_thread := Joined\<rparr>, w1)"
    unfolding finish_eq ver if_True if_False bind_bind bind_ret
      bind_run [of "finish_stream demo_net (m_rw_sender demo_waiting)", OF stream]
      bind_run [of "interleave demo_net", OF demo_thread_end] bind_get_obj st
      bind_run [of "join_recv_thread demo_net", OF join] ..
  moreover have "\<exists>w'. finish_report demo_net demo_base demo_waiting True (demo_exited\<lparr>m_recv_thread := Joined\<rparr>, w1) =
      Some (Inr (), demo_exited\<lparr>m_recv_thread := Joined\<rparr>, w')"
    by (rule finish_report_run) (simp_all add: demo_exited_def redis_set_def)
  ultimately show ?thesis
    by simp
qed

theorem finish_joins_thread_witness:
  "\<exists>w'. finish demo_net demo_base (demo_waiting, demo_ended) = Some (Inr (), demo_exited\<lparr>m_recv_thread := Joined\<rparr>, w') \<and>
     w_acks w' = 0 \<and> m_notack_queue (demo_exited\<lparr>m_recv_thread := Joined\<rparr>) = [seq_packet demo_client ''task'' [1]] \<and>
     evolves demo_waiting (demo_exited\<lparr>m_recv_thread := Joined\<rparr>)"
proof -
  obtain w' where run: "finish demo_net demo_base (demo_waiting, demo_ended) =
      Some (Inr (), demo_exited\<lparr>m_recv_thread := Joined\<rparr>, w')"
    using demo_finish by blast
  from finish_joins_thread [OF _ _ _ _ _ _ demo_records_acks run, of 2] show ?thesis
    using run by (cases "w_acks w'") (auto simp: joinable_def started_def demo_exited_def)
qed

text \<open>
  C27: The status that \<^verbatim>\<open>finish\<close> looks at is set by the thread itself. If the thread has not been
  scheduled before, \<^verbatim>\<open>finish\<close> returns without joining it, and the destructor of the client destroys
  a joinable \<^verbatim>\<open>std::thread\<close>, which ends the program.
\<close>
theorem finish_thread_race:
  assumes "m_recv_thread c = Joinable Spawned" "m_recv_thread_status c = ThreadNotInited"
    and "m_use_rpc_version c = v2" "m_rw_sender c = Some h" "redis_set c" "\<forall>u. fst (schedule A u) = 0"
  shows "\<exists>c' w' s. finish A ch (c, w) = Some (Inr (), c', w') \<and> delete_RpcClient A (c', w') = Some (Inl Terminated, s)"
proof -
  have idle: "interleave A (c, u) = Some (Inr (), c, snd (schedule A u))" for u
  proof (cases "schedule A u")
    case (Pair n v)
    then have "n = 0"
      using assms(6) by (metis fst_conv)
    then show ?thesis
      using Pair by (simp add: interleave_def bind_def ask_def ret_def)
  qed
  have ver: "(m_use_rpc_version c = not_inited) = False" "(m_use_rpc_version c = v1) = False"
    "(m_use_rpc_version c = v2) = True" "(m_recv_thread_status c \<noteq> ThreadNotInited) = False"
    using assms(2,3) by (simp_all add: v2_def v1_def not_inited_def)
  obtain ok w1 where stream: "finish_stream A (m_rw_sender c) (c, w) = Some (Inr ok, c, w1)"
    using assms(4) by (cases "stream_finish A h (stream_writes_done A h w)") (simp add: finish_stream_def bind_def ask_def)
  have "finish A ch (c, w) = finish_report A ch c ok (c, snd (schedule A w1))"
    unfolding finish_eq ver if_True if_False bind_bind bind_ret
      bind_run [of "finish_stream A (m_rw_sender c)", OF stream]
      bind_run [of "interleave A", OF idle] bind_get_obj ..
  moreover obtain w2 where "finish_report A ch c ok (c, snd (schedule A w1)) = Some (Inr (), c, w2)"
    using finish_report_run [OF assms(5), of c A ch ok] by blast
  moreover have "\<exists>s. delete_RpcClient A (c, w2) = Some (Inl Terminated, s)"
  proof (cases "m_use_redis c")
    case True
    then obtain r where r: "redis_client c = Live r" "redis_ready r"
      using assms(5) by (auto simp: redis_set_def)
    then show ?thesis
      using True assms(1)
      by (auto simp: delete_RpcClient_def delete_RedisClient_def redis_ready_def runs raise_def split: if_splits)
  next
    case False
    then show ?thesis
      using assms(1) by (simp add: delete_RpcClient_def runs raise_def)
  qed
  ultimately show ?thesis
    by auto
qed

theorem finish_thread_race_witness:
  "\<exists>c' w' s. finish (demo_net\<lparr>schedule := \<lambda>w. (0, w)\<rparr>) demo_base
      (demo_client\<lparr>m_recv_thread := Joinable Spawned, m_recv_thread_status := ThreadNotInited\<rparr>, demo_world) = Some (Inr (), c', w') \<and>
    delete_RpcClient (demo_net\<lparr>schedule := \<lambda>w. (0, w)\<rparr>) (c', w') = Some (Inl Terminated, s)"
  by (rule finish_thread_race [of _ 2]) (simp_all add: redis_set_def)

end
