(* ===== verification/ChannelDelivery.thy ===== *)
theory ChannelDelivery imports Channel RpcSend begin

text \<open>
  What \<^verbatim>\<open>real_send\<close> promises across reconnections: every message that it accepted has been
  written to a stream under its own number, with the content given by the caller. (That it also gets to the relay is in
  theory \<^verbatim>\<open>ChannelRetains\<close>.) The lemmas follow the code:
  a send, the parts of a reconnection, the retry loop.
\<close>

section \<open>Calls that send nothing\<close>

text \<open>
  \<^verbatim>\<open>net_obeys A R\<close>: every call outside the repository, except a write on a stream and a \<^verbatim>\<open>brpop\<close>,
  takes the world along \<^verbatim>\<open>R\<close>.
\<close>

definition net_obeys :: "('w, 'z) net_api_scheme \<Rightarrow> ('w \<Rightarrow> 'w \<Rightarrow> bool) \<Rightarrow> bool" where
  "net_obeys A R \<longleftrightarrow>
     preorder R \<and> thread_respects A R \<and>
     (\<forall>k opts w. R w (snd (redis_open A k opts w))) \<and> (\<forall>k h w. R w (redis_close A k h w)) \<and>
     (\<forall>h w. R w (snd (redis_ping A h w))) \<and>
     (\<forall>k h key items w. R w (snd (redis_hset A k h key items w))) \<and>
     (\<forall>k h key n w. R w (snd (redis_expire A k h key n w))) \<and>
     (\<forall>k h key v w. R w (snd (redis_lpush A k h key v w))) \<and>
     (\<forall>ch md w. R w (snd (stub_get_version A ch md w))) \<and>
     (\<forall>ch md n w. R w (snd (stub_push A ch md n w))) \<and>
     (\<forall>ch md n w. R w (snd (stub_push_v2 A ch md n w))) \<and>
     (\<forall>h w. R w (stream_writes_done A h w)) \<and> (\<forall>h w. R w (snd (stream_finish A h w))) \<and>
     (\<forall>addr g w. R w (snd (chan_create A addr g w))) \<and> (\<forall>ch n w. R w (snd (chan_connected A ch n w))) \<and>
     (\<forall>ch w. R w (snd (chan_ready A ch w))) \<and> (\<forall>ch w. R w (chan_wait_shutdown A ch w)) \<and>
     (\<forall>w. R w (snd (steady_ms A w))) \<and> (\<forall>ms w. R w (sleep_ms A ms w))"

lemma net_obeysD:
  assumes "net_obeys A R"
  shows "preorder R" "thread_respects A R"
    "R w (snd (redis_open A k opts w))" "R w (redis_close A k h w)" "R w (snd (redis_ping A h w))"
    "R w (snd (redis_hset A k h key items w))" "R w (snd (redis_expire A k h key n w))"
    "R w (snd (redis_lpush A k h key v w))" "R w (snd (stub_get_version A ch md w))"
    "R w (snd (stub_push A ch md d w))" "R w (snd (stub_push_v2 A ch md d w))"
    "R w (stream_writes_done A h w)" "R w (snd (stream_finish A h w))"
    "R w (snd (chan_create A addr g w))" "R w (snd (chan_connected A ch t w))"
    "R w (snd (chan_ready A ch w))" "R w (chan_wait_shutdown A ch w)"
    "R w (snd (steady_ms A w))" "R w (sleep_ms A ms w)"
  using assms by (simp_all add: net_obeys_def)

lemmas obeys_step = obeys_bind obeys_pure obeys_ask obeys_try

lemma net_obeys_side: "net_obeys A R \<Longrightarrow> side_calls A R"
  by (simp add: net_obeys_def side_calls_def thread_respects_def)

lemma obeys_sleep: "net_obeys A R \<Longrightarrow> obeys R (sleep A ms)"
  unfolding sleep_def by (rule obeys_ask) (simp add: net_obeysD)

lemma obeys_redis_ops:
  assumes "net_obeys A R"
  shows "obeys R (ping A r)" "obeys R (hset_items A r key items)" "obeys R (hset_pair A r key item)"
    "obeys R (expire A r key n)" "obeys R (lpush A r key val)" "obeys R (delete_RedisClient A r)"
  unfolding ping_def hset_items_def hset_pair_def expire_def lpush_def delete_RedisClient_def
  by (auto intro!: obeys_bind obeys_pure obeys_ask obeys_redis_call net_obeysD [OF assms])

lemma obeys_new_redis:
  assumes "net_obeys A R"
  shows "obeys R (new_redis A b opts)" "obeys R (new_cluster A opts)"
  unfolding new_redis_def new_cluster_def
  by (auto intro!: obeys_bind obeys_pure obeys_redis_call net_obeysD [OF assms])

lemma obeys_options:
  assumes "preorder R"
  shows "obeys R (by_host A h p q)" "obeys R (by_sentinel A)"
  unfolding by_host_def by_sentinel_def
  by (auto intro!: obeys_bind obeys_pure assms split: option.split)

lemma obeys_RedisClient:
  assumes "net_obeys A R"
  shows "obeys R (RedisClient A addr)"
  unfolding RedisClient_def Let_def
  by (auto intro!: obeys_bind obeys_options obeys_new_redis net_obeysD(1) [OF assms] assms)

lemma obeys_RpcClient:
  assumes "net_obeys A R"
  shows "obeys R (RpcClient A chl p q addr rd dbg)" "obeys R (delete_RpcClient A)"
  unfolding RpcClient_def delete_RpcClient_def
  by (auto intro!: obeys_bind obeys_pure obeys_catch obeys_RedisClient obeys_redis_ops net_obeysD(1) [OF assms] assms
      split: thread_handle.split)

lemma obeys_interleave:
  assumes "net_obeys A R"
  shows "obeys R (interleave A)"
  unfolding obeys_def using interleave_respects [OF net_obeysD(2) [OF assms]] by blast

lemma obeys_join:
  assumes "net_obeys A R"
  shows "obeys R (join_recv_thread A)"
  unfolding join_recv_thread_def
  by (auto intro!: obeys_bind obeys_pure obeys_interleave net_obeysD(1) [OF assms] assms
      split: thread_handle.split thread_pc.split)

lemma obeys_finish:
  assumes "net_obeys A R"
  shows "obeys R (finish A ch)"
  unfolding finish_def finish_stream_def
  by (auto intro!: obeys_bind obeys_pure obeys_ask obeys_join obeys_interleave obeys_catch
      obeys_report_usage net_obeys_side net_obeysD [OF assms] assms split: option.split)

lemma obeys_version:
  assumes "net_obeys A R"
  shows "obeys R (init_rpc_version A ch)" "obeys R (init_sender A ch)"
proof -
  have "obeys R (version_loop A ch n)" for n
    by (induction n)
      (auto intro!: obeys_bind obeys_pure obeys_ask obeys_sleep net_obeysD [OF assms] assms split: version_reply.split)
  then show "obeys R (init_rpc_version A ch)" "obeys R (init_sender A ch)"
    unfolding init_rpc_version_def init_sender_def
    by (auto intro!: obeys_bind obeys_pure obeys_ask net_obeysD [OF assms] split: thread_handle.split)
qed

lemma obeys_on_client:
  assumes "preorder R" "\<And>ch. obeys R (f ch)"
  shows "obeys R (on_client f)" "obeys R (on_rcv_client f)"
  using assms
  by (auto simp: obeys_def on_client_def on_rcv_client_def preorder_def split: sum.splits option.splits)

lemma obeys_connection:
  assumes "net_obeys A R"
  shows "obeys R (create_channel A)" "obeys R (delete_client A)" "obeys R (destroy_channel A)"
  unfolding create_channel_def delete_client_def destroy_channel_def Let_def
  by (auto intro!: obeys_bind obeys_pure obeys_ask obeys_on_client obeys_RpcClient obeys_finish
      net_obeysD [OF assms] assms)

section \<open>The sending client\<close>

text \<open>
  The relay as the sender sees it: \<^verbatim>\<open>sent\<close> grows by accepted packets only, and the version it
  reports is 2 or higher.
\<close>

definition relay_net :: "('w, 'z) net_api_scheme \<Rightarrow> ('w \<Rightarrow> packet list) \<Rightarrow> bool" where
  "relay_net A sent \<longleftrightarrow>
     records_writes A sent \<and> net_obeys A (\<lambda>w w'. sent w' = sent w) \<and>
     (\<forall>ch md w. case fst (stub_get_version A ch md w) of VersionOk v \<Rightarrow> 2 \<le> v | Unimplemented \<Rightarrow> False | VersionError \<Rightarrow> True)"

definition connected_client :: "rpc_client \<Rightarrow> bool" where
  "connected_client c \<longleftrightarrow>
     rpc_inv c \<and> m_use_redis c \<and> redis_set c \<and> m_use_rpc_version c = v2 \<and> m_rw_sender c \<noteq> None \<and> joinable c"

definition new_client :: "rpc_client \<Rightarrow> bool" where
  "new_client c \<longleftrightarrow> fresh_client c \<and> m_use_redis c \<and> redis_set c"

text \<open>A client on which nothing has been sent yet starts its stream and then sends as usual.\<close>

lemma version2_client:
  assumes net: "relay_net A sent" and new: "new_client c"
    and run: "bind (init_rpc_version A ch) (\<lambda>_. init_sender A ch) (c, w) = Some (Inr (), c', w')"
  shows "connected_client c' \<and> m_seq c' = 0 \<and> m_notack_queue c' = [] \<and> m_partyid c' = m_partyid c \<and>
    m_to_partyid c' = m_to_partyid c \<and> sent w' = sent w"
proof -
  have v: "m_use_rpc_version c = not_inited"
    using new by (simp add: new_client_def fresh_client_def)
  have "obeys (\<lambda>w w'. sent w' = sent w) (bind (init_rpc_version A ch) (\<lambda>_. init_sender A ch))"
    using net by (intro obeys_bind obeys_version) (auto simp: relay_net_def net_obeysD(1))
  then have s: "sent w' = sent w"
    using run by (rule obeysD)
  obtain c1 w1 where 1: "init_rpc_version A ch (c, w) = Some (Inr (), c1, w1)"
    and 2: "init_sender A ch (c1, w1) = Some (Inr (), c', w')"
    using run by (auto simp: bind_value)
  obtain k c2 w2 where 3: "version_loop A ch 20 (c, w) = Some (Inr (), c2, w2)"
    and cs: "c2 = c \<or>
     (\<exists>v u u'. stub_get_version A (m_chl c) (add_metadata c ch) u = (VersionOk v, u') \<and>
        c2 = c\<lparr>m_use_rpc_version := min v config_support_max_version\<rparr>) \<or>
     (\<exists>u u'. stub_get_version A (m_chl c) (add_metadata c ch) u = (Unimplemented, u') \<and>
        c2 = c\<lparr>m_use_rpc_version := v1\<rparr>)"
    using version_loop_result [of A ch 20 c w] by blast
  have c1: "c1 = c2" "m_use_rpc_version c2 \<noteq> not_inited"
    using 1 3 by (auto simp: init_rpc_version_def bind_def get_obj_def ret_def raise_def split: if_splits)
  have ver: "case fst (stub_get_version A q md u) of VersionOk v \<Rightarrow> 2 \<le> v | Unimplemented \<Rightarrow> False | VersionError \<Rightarrow> True" for q md u
    using net by (simp add: relay_net_def)
  have "c1 = c\<lparr>m_use_rpc_version := v2\<rparr>"
    using cs
  proof (elim disjE exE conjE)
    assume "c2 = c"
    then show ?thesis using c1 v by simp
  next
    fix v u u' assume "stub_get_version A (m_chl c) (add_metadata c ch) u = (VersionOk v, u')"
      "c2 = c\<lparr>m_use_rpc_version := min v config_support_max_version\<rparr>"
    then show ?thesis
      using ver [of "m_chl c" "add_metadata c ch" u] c1 by (simp add: config_support_max_version_def v2_def min_def)
  next
    fix u u' assume "stub_get_version A (m_chl c) (add_metadata c ch) u = (Unimplemented, u')"
    then show ?thesis
      using ver [of "m_chl c" "add_metadata c ch" u] by simp
  qed
  then obtain h where "c' = c\<lparr>m_use_rpc_version := v2, m_rw_sender := Some h, m_recv_thread := Joinable Spawned\<rparr>"
    using 2 new
    by (auto simp: init_sender_def bind_def get_obj_def set_obj_def ask_def v2_def new_client_def fresh_client_def
        split: prod.splits)
  then show ?thesis
    using new s
    by (auto simp: connected_client_def new_client_def fresh_client_def rpc_inv_at_def packet_seqs_def redis_set_def
        joinable_def)
qed

lemma send_joinable:
  assumes "Send A ch task content (c, w) = Some (Inr x, c', w')" "m_use_rpc_version c = v2"
  shows "joinable c' = joinable c"
proof -
  have v: "m_use_rpc_version c \<noteq> not_inited"
    using assms(2) by (simp add: v2_def not_inited_def)
  obtain y c1 w1 where 1: "interleave A (c, w) = Some (y, c1, w1)"
    using interleave_ends [of A "(c, w)"] by (auto simp: ends_def)
  have j1: "joinable c1 = joinable c"
    using interleave_joinable [OF 1] .
  have j3: "joinable c3 = joinable (c1\<lparr>m_seq := q\<rparr>)"
    if "interleave A (c1\<lparr>m_seq := q\<rparr>, u) = Some (z, c3, w3)" for q u z c3 w3
    using interleave_joinable [OF that] .
  show ?thesis
    using assms v 1 j1 j3
    by (auto simp: Send_def bind_def get_obj_def set_obj_def ret_def raise_def ask_def Let_def joinable_def
        split: sum.splits if_splits option.splits prod.splits)
qed

text \<open>What a \<^verbatim>\<open>Send\<close> that returns does to the client and to the relay.\<close>

definition sent_one :: "rpc_client \<Rightarrow> packet list \<Rightarrow> bytes \<Rightarrow> bool \<Rightarrow> bytes \<Rightarrow> rpc_client \<Rightarrow> packet list \<Rightarrow> bool" where
  "sent_one c log content ok rest c' log' \<longleftrightarrow>
     connected_client c' \<and>
     (if ok
      then rest = [] \<and> m_seq c' = m_seq c + 1 \<and>
        (\<exists>p. seq (header p) = m_seq c \<and> body p = content \<and> log' = log @ [p] \<and>
           (\<exists>k. m_notack_queue c' = drop k (m_notack_queue c @ [p])))
      else rest = content \<and> m_seq c' = m_seq c \<and> log' = log \<and>
        (\<exists>k. m_notack_queue c' = drop k (m_notack_queue c)))"

lemma send_connected:
  assumes net: "relay_net A sent" and c: "connected_client c" and mx: "m_seq c < int_max"
    and run: "Send A ch task content (c, w) = Some (Inr (ok, rest), c', w')"
  shows "sent_one c (sent w) content ok rest c' (sent w')"
proof -
  obtain h where h: "m_rw_sender c = Some h"
    using c by (auto simp: connected_client_def)
  obtain ok1 rest1 c1 w1 where 1: "Send A ch task content (c, w) = Some (Inr (ok1, rest1), c1, w1)"
    "rpc_inv c1" "same_setup c c1"
    and yes: "ok1 \<longrightarrow> rest1 = [] \<and> m_seq c1 = m_seq c + 1 \<and> sent w1 = sent w @ [seq_packet c task content] \<and>
       (\<exists>k. m_notack_queue c1 = drop k (m_notack_queue c @ [seq_packet c task content]))"
    and no: "\<not> ok1 \<longrightarrow> rest1 = content \<and> m_seq c1 = m_seq c \<and> sent w1 = sent w \<and>
       (\<exists>k. m_notack_queue c1 = drop k (m_notack_queue c))"
    by (rule send_v2 [of c h A sent ch task content w])
      (use net c h mx in \<open>auto simp: connected_client_def relay_net_def\<close>)
  have eq: "ok1 = ok" "rest1 = rest" "c1 = c'" "w1 = w'"
    using run 1(1) by simp_all
  have "connected_client c'"
    using c 1(2,3) send_joinable [OF run] unfolding eq
    by (auto simp: connected_client_def same_setup_def redis_set_def)
  then show ?thesis
    using yes no unfolding eq sent_one_def by auto
qed

lemma Send_new:
  assumes net: "relay_net A sent" and c: "new_client c"
    and run: "Send A ch task content (c, w) = Some (Inr (ok, rest), c', w')"
  obtains c1 w1 where "bind (init_rpc_version A ch) (\<lambda>_. init_sender A ch) (c, w) = Some (Inr (), c1, w1)"
    "Send A ch task content (c1, w1) = Some (Inr (ok, rest), c', w')"
proof -
  have v: "m_use_rpc_version c = not_inited"
    using c by (simp add: new_client_def fresh_client_def)
  let ?init = "bind (init_rpc_version A ch) (\<lambda>_. init_sender A ch)"
  obtain c1 w1 where 1: "?init (c, w) = Some (Inr (), c1, w1)"
    using run v by (auto simp: Send_def bind_get_obj bind_value)
  have v1: "m_use_rpc_version c1 \<noteq> not_inited"
    using version2_client [OF net c 1] by (simp add: connected_client_def v2_def not_inited_def)
  have "Send A ch task content (c, w) = Send A ch task content (c1, w1)"
    unfolding Send_def bind_get_obj using v v1 by (simp add: bind_run [of ?init "(c, w)" "()" "(c1, w1)", OF 1] bind_ret)
  then show ?thesis
    using that [OF 1] run by simp
qed

lemma send_new:
  assumes net: "relay_net A sent" and c: "new_client c"
    and run: "Send A ch task content (c, w) = Some (Inr (ok, rest), c', w')"
  shows "sent_one c (sent w) content ok rest c' (sent w')"
proof -
  obtain c1 w1 where 1: "bind (init_rpc_version A ch) (\<lambda>_. init_sender A ch) (c, w) = Some (Inr (), c1, w1)"
    and run1: "Send A ch task content (c1, w1) = Some (Inr (ok, rest), c', w')"
    by (rule Send_new [OF net c run])
  have c1: "connected_client c1" "m_seq c1 = 0" "m_notack_queue c1 = []" "sent w1 = sent w"
    using version2_client [OF net c 1] by simp_all
  have "sent_one c1 (sent w1) content ok rest c' (sent w')"
    using run1 by (intro send_connected [OF net c1(1)]) (simp_all add: c1(2) int_max_def)
  moreover have "m_seq c = 0" "m_notack_queue c = []"
    using c by (simp_all add: new_client_def fresh_client_def)
  ultimately show ?thesis
    unfolding sent_one_def using c1(2-4) by (simp split: if_splits)
qed

section \<open>The parts of a reconnection\<close>

lemma on_client_run:
  assumes "m_client ch = Live c"
  shows "on_client f (ch, w) =
    (case f ch (c, w) of None \<Rightarrow> None | Some (x, c', w') \<Rightarrow> Some (x, ch\<lparr>m_client := Live c'\<rparr>, w'))"
  unfolding on_client_def fst_conv snd_conv assms deref.simps sum.case ..

lemma new_redis_fst:
  "new_redis A b opts s = Some (Inr r, s') \<Longrightarrow> fst s' = fst s"
  "new_cluster A opts s = Some (Inr r, s') \<Longrightarrow> fst s' = fst s"
  by (auto simp: new_redis_def new_cluster_def bind_value ret_def dest: redis_call_fst)

lemma RedisClient_fst:
  assumes "RedisClient A addr s = Some (Inr r, s')"
  shows "fst s' = fst s"
  using assms
  by (auto simp: RedisClient_def Let_def bind_value split: if_splits
      dest!: new_redis_fst by_host_value by_sentinel_value)

lemma RpcClient_new:
  assumes "RpcClient A chl p q addr True dbg (x, w) = Some (Inr c, x', w')"
  shows "x' = x \<and> new_client c"
proof -
  obtain t r w1 u s2 where t: "redis_timeout_setting A = Inr t" and r: "RedisClient A addr (x, w) = Some (Inr r, w1)"
    and p: "catch_redis_error (bind (ping A r) (\<lambda>_. ret ())) (ret ()) w1 = Some (Inr u, s2)"
    and c: "c = \<lparr>m_partyid = p, m_to_partyid = q, m_use_redis = True, m_net_debug = dbg,
          m_chl = chl, m_sender = None, m_rw_sender = None, redis_client = Live r, m_redis_timeout = t,
          m_use_rpc_version = not_inited, m_use_redis_data_version = not_inited, m_seq = 0, m_recv_idx = -1,
          m_notack_queue = [], m_recv_thread = NoThread, m_recv_thread_status = ThreadNotInited\<rparr>" "s2 = (x', w')"
    using assms unfolding RpcClient_def
    by (cases "redis_timeout_setting A") (auto simp: bind_value from_sum_value ret_def bind_from_sum raise_def)
  obtain w2 where w1: "w1 = (x, w2)"
    using RedisClient_fst [OF r] by (cases w1) simp
  have ready: "redis_ready r"
    using RedisClient_serves [OF r] serves_ready by blast
  have "quiet x (bind (ping A r) (\<lambda>_. ret ()))"
    by (intro quiet_bind quiet_redis_ops(5) quiet_ret ready)
  then obtain w3 where "catch_redis_error (bind (ping A r) (\<lambda>_. ret ())) (ret ()) (x, w2) = Some (Inr (), x, w3)"
    using catch_quiet [of x "bind (ping A r) (\<lambda>_. ret ())" "ret ()" w2] quiet_ret [of x "()"]
    by (auto simp: ret_def)
  then have "x' = x"
    using p c(2) w1 by simp
  then show ?thesis
    using ready by (simp add: c(1) new_client_def fresh_client_def redis_set_def)
qed

lemma create_redis_client:
  assumes redis: "ch_use_redis ch" and run: "create_channel A (ch, w) = Some (Inr (), ch', w')"
  obtains c where "ch' = ch\<lparr>m_client := Live c\<rparr>" "new_client c"
proof -
  obtain chl ok c ch1 w1 w2 where "RpcClient A chl (m_from_party ch) (m_to_party ch) (m_redis_address ch) True
      (m_net_log_switch ch) (ch, w1) = Some (Inr c, ch1, w2)" "ch' = ch1\<lparr>m_client := Live c\<rparr>"
    using run redis
    by (auto simp: create_channel_def Let_def bind_get_obj bind_ask bind_value set_obj_def ret_def raise_def
        split: if_splits)
  then show ?thesis
    using that RpcClient_new by fastforce
qed

lemma on_client_value:
  assumes "on_client f (ch, w) = Some (Inr a, ch', w')" "m_client ch = Live c"
  obtains c' where "f ch (c, w) = Some (Inr a, c', w')" "ch' = ch\<lparr>m_client := Live c'\<rparr>"
  using assms by (auto simp: on_client_run split: option.splits prod.splits)

lemma delete_client_value:
  assumes "delete_client A (ch, w) = Some (Inr (), ch', w')" "m_client ch = Live c"
  shows "ch' = ch\<lparr>m_client := Null\<rparr>"
  using assms
  by (auto simp: delete_client_def bind_value set_obj_def elim!: on_client_value)

lemma destroy_redis_channel:
  assumes "ch_use_redis ch" "m_client ch = Null"
  shows "destroy_channel A (ch, w) = Some (Inr (), ch, w)"
  using assms by (simp add: destroy_channel_def bind_get_obj bind_ret bind_from_sum ret_def)

lemma connected_fresh_redis:
  assumes "new_client c0" "rpc_inv c'" "m_use_rpc_version c' = v2" "m_rw_sender c' \<noteq> None" "joinable c'"
    "m_use_redis c' = m_use_redis c0" "redis_client c' = redis_client c0"
  shows "connected_client c'"
  using assms by (simp add: connected_client_def new_client_def redis_set_def)

text \<open>The parts of a reconnection that returns: the old client at its end, the new one, and what was handed over.\<close>

lemma reconnect_parts:
  assumes redis: "ch_use_redis ch" and cl: "m_client ch = Live c"
    and c: "connected_client c" and run: "reconnect A (ch, w) = Some (Inr ok, ch', w')"
  obtains c1 w1 w6 c0 ch6 c' where "finish A ch (c, w) = Some (Inr (), c1, w1)" "rpc_inv_at (m_seq c) c1" "evolves c c1"
    "\<forall>R. net_obeys A R \<longrightarrow> R w1 w6" "new_client c0"
    "set_continue_status A (ch6 :: channel) (m_notack_queue c1, m_seq c, m_recv_idx c, v2, m_use_redis_data_version c) (c0, w6) = Some (Inr ok, c', w')"
    "ch' = ch\<lparr>m_client := Live c'\<rparr>"
proof -
  obtain h where h: "m_rw_sender c = Some h"
    using c by (auto simp: connected_client_def)
  obtain u ch1 w1 tup ch2 w2 ch3 w3 ch4 w4 w5 ch6 w6 where
    1: "on_client (finish A) (ch, w) = Some (Inr u, ch1, w1)" and
    2: "on_client (\<lambda>_. get_continue_status) (ch1, w1) = Some (Inr tup, ch2, w2)" and
    3: "delete_client A (ch2, w2) = Some (Inr (), ch3, w3)" and
    4: "destroy_channel A (ch3, w3) = Some (Inr (), ch4, w4)" and
    5: "w5 = sleep_ms A 1000 w4" and
    6: "create_channel A (ch4, w5) = Some (Inr (), ch6, w6)" and
    7: "on_client (\<lambda>ch. set_continue_status A ch tup) (ch6, w6) = Some (Inr ok, ch', w')"
    using run unfolding reconnect_def bind_value sleep_def by (auto simp: ask_def)
  obtain c1 where c1: "finish A ch (c, w) = Some (Inr u, c1, w1)" "ch1 = ch\<lparr>m_client := Live c1\<rparr>"
    using 1 cl by (rule on_client_value)
  have fin: "rpc_inv_at (m_seq c) c1" "evolves c c1"
    using finish_v2 [OF _ _ h _ _ c1(1)] c by (auto simp: connected_client_def)
  note ev = evolves_fields [OF fin(2)]
  have v: "m_use_rpc_version c1 = v2"
    using c ev by (simp add: connected_client_def)
  obtain c2 where c2: "get_continue_status (c1, w1) = Some (Inr tup, c2, w2)" "ch2 = ch1\<lparr>m_client := Live c2\<rparr>"
    using on_client_value [OF 2] c1(2) by auto
  have tup: "tup = (m_notack_queue c1, m_seq c, m_recv_idx c, v2, m_use_redis_data_version c)" "w2 = w1"
    using c2(1) v ev by (auto simp: get_continue_status_def bind_get_obj bind_set_obj ret_def)
  have ch3: "ch3 = ch\<lparr>m_client := Null\<rparr>"
    using delete_client_value [OF 3] c2(2) c1(2) by simp
  have 44: "ch4 = ch\<lparr>m_client := Null\<rparr>" "w4 = w3"
    using 4 destroy_redis_channel [of ch3 A w3] redis ch3 by simp_all
  obtain c0 where c0: "ch6 = ch\<lparr>m_client := Live c0\<rparr>" "new_client c0"
    using create_redis_client [OF _ 6] redis 44(1) by auto
  have "\<forall>R. net_obeys A R \<longrightarrow> R w1 w6"
  proof (intro allI impI)
    fix R assume R: "net_obeys A R"
    have "R w1 w3"
      using obeysD [OF obeys_connection(2) [OF R] 3] tup(2) by simp
    moreover have "R w3 w5"
      using net_obeysD(19) [OF R, where w = w4 and ms = 1000] 5 44(2) by simp
    moreover have "R w5 w6"
      using obeysD [OF obeys_connection(1) [OF R] 6] .
    ultimately show "R w1 w6"
      using net_obeysD(1) [OF R] unfolding preorder_def by blast
  qed
  moreover obtain c' where c': "set_continue_status A ch6 tup (c0, w6) = Some (Inr ok, c', w')" "ch' = ch6\<lparr>m_client := Live c'\<rparr>"
    using on_client_value [OF 7] c0(1) by auto
  ultimately show ?thesis
    using that [of c1 w1 w6 c0 ch6 c'] c1(1) fin c0 tup(1) by simp
qed

text \<open>
  A reconnection that returns replaces the client by one with the same numbers; what it sends are
  packets that were waiting for their acknowledgement.
\<close>

lemma reconnect_client:
  assumes net: "relay_net A sent" and redis: "ch_use_redis ch" and cl: "m_client ch = Live c"
    and c: "connected_client c" and run: "reconnect A (ch, w) = Some (Inr ok, ch', w')"
  shows "\<exists>c' k j. ch' = ch\<lparr>m_client := Live c'\<rparr> \<and> connected_client c' \<and> m_seq c' = m_seq c \<and>
    reader c' = reader c \<and> m_notack_queue c' = drop k (m_notack_queue c) \<and>
    sent w' = sent w @ take j (drop k (m_notack_queue c))"
proof -
  let ?R = "\<lambda>w w'. sent w' = sent w"
  have R: "net_obeys A ?R" and rec: "records_writes A sent"
    using net by (simp_all add: relay_net_def)
  obtain c1 w1 w6 c0 ch6 c' where c1: "finish A ch (c, w) = Some (Inr (), c1, w1)" "rpc_inv_at (m_seq c) c1" "evolves c c1"
    and w6: "\<forall>R. net_obeys A R \<longrightarrow> R w1 w6" and c0: "new_client c0"
    and set: "set_continue_status A (ch6 :: channel) (m_notack_queue c1, m_seq c, m_recv_idx c, v2, m_use_redis_data_version c) (c0, w6) = Some (Inr ok, c', w')"
    and ch': "ch' = ch\<lparr>m_client := Live c'\<rparr>"
    by (rule reconnect_parts [OF redis cl c run])
  obtain k1 where k1: "m_notack_queue c1 = drop k1 (m_notack_queue c)"
    using evolves_queue [OF c1(3)] by blast
  have s: "sent w6 = sent w"
    using w6 R obeysD [OF obeys_finish [OF R] c1(1)] by force
  have q: "packet_seqs (m_notack_queue c1) = [m_seq c - int (length (m_notack_queue c1)) .. m_seq c - 1]"
    using c1(2) by (simp add: rpc_inv_at_def)
  have fresh: "fresh_client c0"
    using c0 by (simp add: new_client_def)
  obtain ok' d w7 k2 j where run': "set_continue_status A ch6 (m_notack_queue c1, m_seq c, m_recv_idx c, v2, m_use_redis_data_version c) (c0, w6) = Some (Inr ok', d, w7)"
    and d: "rpc_inv d" "m_seq d = m_seq c" "m_recv_idx d = m_recv_idx c" "m_use_rpc_version d = v2"
    "m_use_redis_data_version d = m_use_redis_data_version c" "m_notack_queue d = drop k2 (m_notack_queue c1)" "m_rw_sender d \<noteq> None"
    "joinable d" "m_use_redis d = m_use_redis c0" "redis_client d = redis_client c0"
    "sent w7 = sent w6 @ take j (drop k2 (m_notack_queue c1))"
    by (rule set_continue_v2 [OF fresh order_refl rec q, of ch6 "m_recv_idx c" "m_use_redis_data_version c" w6])
  have eq: "d = c'" "w7 = w'"
    using set run' by simp_all
  have "connected_client c'"
    using connected_fresh_redis [OF c0] d unfolding eq by blast
  moreover have "sent w' = sent w @ take j (drop (k2 + k1) (m_notack_queue c))"
    using d(11) s k1 unfolding eq by simp
  moreover have "m_notack_queue c' = drop (k2 + k1) (m_notack_queue c)"
    using d(6) k1 unfolding eq by simp
  ultimately show ?thesis
    using d ch' unfolding eq reader_def by blast
qed

section \<open>The retry loop\<close>

text \<open>
  \<^verbatim>\<open>sender_inv log ch msgs\<close>: the channel has taken the messages \<^verbatim>\<open>msgs\<close>; the relay's log and the
  queue hold only such messages, each under its own number, and the log holds all of them.
\<close>

definition faithful :: "bytes list \<Rightarrow> packet \<Rightarrow> bool" where
  "faithful msgs p \<longleftrightarrow> (\<exists>i < length msgs. seq (header p) = int i \<and> body p = msgs ! i)"

definition sender_inv :: "packet list \<Rightarrow> channel \<Rightarrow> bytes list \<Rightarrow> bool" where
  "sender_inv log ch msgs \<longleftrightarrow>
     ch_use_redis ch \<and>
     (\<exists>c. m_client ch = Live c \<and> (new_client c \<or> connected_client c) \<and> m_seq c = int (length msgs) \<and>
        (\<forall>p \<in> set log \<union> set (m_notack_queue c). faithful msgs p) \<and>
        (\<forall>i < length msgs. \<exists>p \<in> set log. seq (header p) = int i))"

lemma faithful_snoc: "faithful msgs p \<Longrightarrow> faithful (msgs @ [m]) p"
  by (auto simp: faithful_def nth_append)

lemma faithful_last: "seq (header p) = int (length msgs) \<Longrightarrow> body p = m \<Longrightarrow> faithful (msgs @ [m]) p"
  unfolding faithful_def by (rule exI [of _ "length msgs"]) simp

lemma send_client_inv:
  assumes net: "relay_net A sent" and inv: "sender_inv (sent w) ch msgs" and mx: "int (length msgs) < int_max"
    and run: "on_client (\<lambda>ch. Send A ch (m_channelid ch) str) (ch, w) = Some (Inr (ok, rest), ch', w')"
  shows "(\<exists>c'. ch' = ch\<lparr>m_client := Live c'\<rparr> \<and> connected_client c') \<and>
    (if ok then rest = [] \<and> sender_inv (sent w') ch' (msgs @ [str])
     else rest = str \<and> sender_inv (sent w') ch' msgs)"
proof -
  obtain c where c: "m_client ch = Live c" "new_client c \<or> connected_client c" "m_seq c = int (length msgs)"
    and logs: "\<forall>p \<in> set (sent w) \<union> set (m_notack_queue c). faithful msgs p"
      "\<forall>i < length msgs. \<exists>p \<in> set (sent w). seq (header p) = int i" and redis: "ch_use_redis ch"
    using inv unfolding sender_inv_def by blast
  obtain c' where c': "Send A ch (m_channelid ch) str (c, w) = Some (Inr (ok, rest), c', w')"
    "ch' = ch\<lparr>m_client := Live c'\<rparr>"
    using run c(1) by (rule on_client_value)
  have "sent_one c (sent w) str ok rest c' (sent w')"
    using c(2) send_new [OF net _ c'(1)] send_connected [OF net _ _ c'(1)] mx c(3) by auto
  note one = this [unfolded sent_one_def]
  show ?thesis
  proof (cases ok)
    case True
    obtain p k where p: "seq (header p) = int (length msgs)" "body p = str" "sent w' = sent w @ [p]"
      "m_notack_queue c' = drop k (m_notack_queue c @ [p])" "connected_client c'" "rest = []"
      "m_seq c' = int (length msgs) + 1"
      using one True c(3) by auto
    have sub: "set (sent w') \<union> set (m_notack_queue c') \<subseteq> insert p (set (sent w) \<union> set (m_notack_queue c))"
      using p(3,4) set_drop_subset [of k "m_notack_queue c @ [p]"] by auto
    have f: "\<forall>q \<in> set (sent w') \<union> set (m_notack_queue c'). faithful (msgs @ [str]) q"
      using sub logs(1) faithful_snoc faithful_last [OF p(1,2)] by blast
    have g: "\<forall>i < length (msgs @ [str]). \<exists>q \<in> set (sent w'). seq (header q) = int i"
    proof (intro allI impI)
      fix i assume i: "i < length (msgs @ [str])"
      show "\<exists>q \<in> set (sent w'). seq (header q) = int i"
      proof (cases "i = length msgs")
        case True
        then show ?thesis using p(1,3) by auto
      next
        case False
        then have "i < length msgs" using i by simp
        then show ?thesis using logs(2) p(3) by auto
      qed
    qed
    have "sender_inv (sent w') ch' (msgs @ [str])"
      unfolding sender_inv_def using redis c'(2) p(5,7) f g by simp
    then show ?thesis
      using True c'(2) p(5,6) by auto
  next
    case False
    obtain k where k: "m_notack_queue c' = drop k (m_notack_queue c)" "connected_client c'" "rest = str"
      "m_seq c' = int (length msgs)" "sent w' = sent w"
      using one False c(3) by auto
    have "sender_inv (sent w') ch' msgs"
      unfolding sender_inv_def using redis c'(2) k logs set_drop_subset [of k "m_notack_queue c"] by auto
    then show ?thesis
      using False c'(2) k(2,3) by auto
  qed
qed

lemma reconnect_inv:
  assumes net: "relay_net A sent" and inv: "sender_inv (sent w) ch msgs"
    and cl: "m_client ch = Live c" "connected_client c"
    and run: "reconnect A (ch, w) = Some (Inr ok, ch', w')"
  shows "(\<exists>c'. ch' = ch\<lparr>m_client := Live c'\<rparr>) \<and> sender_inv (sent w') ch' msgs"
proof -
  have redis: "ch_use_redis ch" and n: "m_seq c = int (length msgs)"
    and logs: "\<forall>p \<in> set (sent w) \<union> set (m_notack_queue c). faithful msgs p"
      "\<forall>i < length msgs. \<exists>p \<in> set (sent w). seq (header p) = int i"
    using inv cl(1) unfolding sender_inv_def by auto
  obtain c' k j where c': "ch' = ch\<lparr>m_client := Live c'\<rparr>" "connected_client c'" "m_seq c' = m_seq c"
    "m_notack_queue c' = drop k (m_notack_queue c)" "sent w' = sent w @ take j (drop k (m_notack_queue c))"
    using reconnect_client [OF net redis cl run] by blast
  have sub: "set (m_notack_queue c') \<subseteq> set (m_notack_queue c)"
    "set (sent w') \<subseteq> set (sent w) \<union> set (m_notack_queue c)"
    using set_drop_subset [of k "m_notack_queue c"] set_take_subset [of j "drop k (m_notack_queue c)"]
    by (auto simp: c'(4,5))
  have "sender_inv (sent w') ch' msgs"
    unfolding sender_inv_def
  proof (intro conjI exI [of _ c'])
    show "ch_use_redis ch'" "m_client ch' = Live c'"
      using redis c'(1) by simp_all
    show "new_client c' \<or> connected_client c'" "m_seq c' = int (length msgs)"
      using c'(2,3) n by simp_all
    show "\<forall>p \<in> set (sent w') \<union> set (m_notack_queue c'). faithful msgs p"
      using logs(1) sub by blast
    show "\<forall>i < length msgs. \<exists>p \<in> set (sent w'). seq (header p) = int i"
      using logs(2) by (auto simp: c'(5))
  qed
  then show ?thesis
    using c'(1) by blast
qed

lemma send_loop_inv:
  assumes net: "relay_net A sent" and mx: "int (length msgs) < int_max"
  shows "sender_inv (sent w) ch msgs \<Longrightarrow> send_loop A n prev str (ch, w) = Some (Inr (ok, rest), ch', w') \<Longrightarrow>
    ((ok \<and> rest = [] \<and> sender_inv (sent w') ch' (msgs @ [str])) \<or> (rest = str \<and> sender_inv (sent w') ch' msgs)) \<and>
    (\<exists>p. ch' = ch\<lparr>m_client := p\<rparr>)"
proof (induction n arbitrary: prev ch w)
  case 0
  then show ?case
    by (auto simp: ret_def intro: exI [of _ "m_client ch"])
next
  case (Suc n)
  obtain ok1 rest1 ch1 w1 where 1: "on_client (\<lambda>ch. Send A ch (m_channelid ch) str) (ch, w) = Some (Inr (ok1, rest1), ch1, w1)"
    and 2: "(if ok1 then ret (True, rest1) else bind (reconnect A) (\<lambda>prev'. send_loop A n prev' rest1)) (ch1, w1) =
      Some (Inr (ok, rest), ch', w')"
    using Suc.prems(2) by (auto simp: bind_value)
  obtain c1 where c1: "ch1 = ch\<lparr>m_client := Live c1\<rparr>" "connected_client c1"
    and s1: "if ok1 then rest1 = [] \<and> sender_inv (sent w1) ch1 (msgs @ [str]) else rest1 = str \<and> sender_inv (sent w1) ch1 msgs"
    using send_client_inv [OF net Suc.prems(1) mx 1] by blast
  show ?case
  proof (cases ok1)
    case True
    then show ?thesis
      using 2 s1 c1(1) by (auto simp: ret_def)
  next
    case False
    obtain p2 ch2 w2 where r: "reconnect A (ch1, w1) = Some (Inr p2, ch2, w2)"
      and l: "send_loop A n p2 str (ch2, w2) = Some (Inr (ok, rest), ch', w')"
      using 2 False s1 by (auto simp: bind_value)
    have r2: "\<exists>c'. ch2 = ch1\<lparr>m_client := Live c'\<rparr>" "sender_inv (sent w2) ch2 msgs"
      using reconnect_inv [OF net _ _ c1(2) r] s1 False c1(1) by auto
    show ?thesis
      using Suc.IH [OF r2(2) l] r2(1) c1(1) by auto
  qed
qed

lemma real_send_inv:
  assumes "relay_net A sent" "sender_inv (sent w) ch msgs" "int (length msgs) < int_max"
    and "real_send A str (ch, w) = Some (Inr rest, ch', w')"
  shows "m_bytes_send ch' = m_bytes_send ch + of_nat (length str) \<and> m_packet_send ch' = m_packet_send ch + 1 \<and>
    (rest = [] \<and> sender_inv (sent w') ch' (msgs @ [str]) \<or> rest = str \<and> sender_inv (sent w') ch' msgs)"
proof -
  obtain ok ch1 where l: "send_loop A 120 False str (ch, w) = Some (Inr (ok, rest), ch1, w')"
    and ch': "ch' = statistics_send (of_nat (length str)) ch1"
    using assms(4) by (auto simp: real_send_def bind_value set_obj_def ret_def raise_def split: if_splits)
  have inv: "sender_inv log (statistics_send n d) ms = sender_inv log d ms" for log n d ms
    by (simp add: sender_inv_def statistics_send_def)
  show ?thesis
    using send_loop_inv [OF assms(1,3,2) l] unfolding ch' inv by auto
qed

definition demo_relay :: "net_world net_api" where
  "demo_relay = demo_net\<lparr>stub_get_version := \<lambda>ch md w. (VersionOk 3, w)\<rparr>"

lemma demo_relay_simps [simp]:
  "stream_write demo_relay = stream_write demo_net" "stream_read demo_relay = stream_read demo_net"
  "schedule demo_relay = schedule demo_net" "redis_brpop demo_relay = redis_brpop demo_net"
  "sleep_ms demo_relay = sleep_ms demo_net"
  by (simp_all add: demo_relay_def)

lemma demo_relay_net [simp]: "relay_net demo_relay w_sent"
  by (auto simp: relay_net_def records_writes_def thread_respects_def net_obeys_def preorder_def pick_def demo_relay_def
      split: list.splits prod.splits)

definition demo_channel :: channel where
  "demo_channel = (channel_members 1 2 ''task'' ''s'' ''r'' 1000 True False [])\<lparr>m_client := Live demo_client, m_rcv_client := Unset\<rparr>"

lemma demo_client_connected [simp]: "connected_client demo_client"
  by (simp add: connected_client_def joinable_def)

lemma demo_channel_inv [simp]: "sender_inv [] demo_channel []"
  by (simp add: sender_inv_def demo_channel_def channel_members_def)

lemma demo_idle:
  "interleave demo_relay (c, demo_world\<lparr>w_sent := l\<rparr>) = Some (Inr (), c, demo_world\<lparr>w_sent := l\<rparr>)"
  "interleave demo_relay (c, demo_world) = Some (Inr (), c, demo_world)"
  by (simp_all add: interleave_def bind_def ask_def ret_def)

lemma demo_real_send:
  "\<exists>ch' w'. real_send demo_relay [5] (demo_channel, demo_world) = Some (Inr [], ch', w')"
proof -
  have n: "send_loop demo_relay 120 False [5] = send_loop demo_relay (Suc 119) False [5]"
    by simp
  let ?p = "\<lparr>header = (tensor_header ''task'' (m_partyid demo_client) (m_to_partyid demo_client))\<lparr>seq := 0\<rparr>, body = [5]\<rparr>"
  have "Send demo_relay ch ''task'' [5] (demo_client, demo_world) =
      Some (Inr (True, []), demo_client\<lparr>m_seq := 1, m_notack_queue := [?p]\<rparr>, demo_world\<lparr>w_sent := [?p]\<rparr>)" for ch :: channel
  proof -
    have w: "demo_world\<lparr>w_writes := [], w_sent := l\<rparr> = demo_world\<lparr>w_sent := l\<rparr>" for l
      by (simp add: demo_world_def)
    show ?thesis
      by (simp add: Send_def bind_get_obj bind_run [of "interleave demo_relay", OF demo_idle(2)] bind_ret bind_ask
          v2_def not_inited_def int_max_def bind_from_sum bind_set_obj w
          bind_run [of "interleave demo_relay", OF demo_idle(1)] Let_def ret_def)
  qed
  then obtain c' w' where 1: "on_client (\<lambda>ch. Send demo_relay ch (m_channelid ch) [5]) (demo_channel, demo_world) =
      Some (Inr (True, []), demo_channel\<lparr>m_client := Live c'\<rparr>, w')"
    by (simp add: on_client_def demo_channel_def channel_members_def)
  have 2: "send_loop demo_relay (Suc 119) False [5] (demo_channel, demo_world) =
      Some (Inr (True, []), demo_channel\<lparr>m_client := Live c'\<rparr>, w')"
    unfolding send_loop.simps(2) by (rule bind_runI, rule 1) (simp add: ret_def)
  show ?thesis
    unfolding real_send_def n by (intro exI, rule bind_runI, rule 2) (simp add: bind_set_obj ret_def)
qed

end
