(* ===== verification/ChannelSafety.thy ===== *)
theory ChannelSafety imports ChannelDelivery begin

text \<open>
  The channel at its limits: what the retry loops report when every attempt fails, what an exception
  during a reconnection leaves behind, and the LZ4 framing.
\<close>

section \<open>Giving up\<close>

text \<open>
  A network on which nothing can be sent: every write fails and every stream ends at once. The
  argument says whether a connection can be made. The world has one state.
\<close>

definition dead_net :: "bool \<Rightarrow> unit net_api" where
  "dead_net up =
     \<lparr>getenv = (\<lambda>_. None), json_nodes = (\<lambda>_. None),
      redis_open = (\<lambda>k opts w. (Inr 1, w)), redis_close = (\<lambda>k h w. w), redis_ping = (\<lambda>h w. (Inr ''PONG'', w)),
      redis_brpop = (\<lambda>k h key t w. (Inr None, w)), redis_hset = (\<lambda>k h key items w. (Inr 1, w)),
      redis_expire = (\<lambda>k h key t w. (Inr True, w)), redis_lpush = (\<lambda>k h key v w. (Inr 1, w)),
      stub_get_version = (\<lambda>ch md w. (VersionOk 2, w)), stub_push = (\<lambda>ch md d w. (1, w)),
      stub_push_v2 = (\<lambda>ch md d w. (2, w)), stub_pull = (\<lambda>ch md w. (None, w)),
      stream_write = (\<lambda>h p w. (False, w)), stream_read = (\<lambda>h w. (StreamEnd, w)),
      stream_writes_done = (\<lambda>h w. w), stream_finish = (\<lambda>h w. (False, w)),
      chan_create = (\<lambda>addr gzip w. (1, w)), chan_connected = (\<lambda>ch t w. (up, w)), chan_ready = (\<lambda>ch w. (True, w)),
      chan_wait_shutdown = (\<lambda>ch w. w), steady_ms = (\<lambda>w. (0, w)), sleep_ms = (\<lambda>ms w. w), schedule = (\<lambda>w. (3, w))\<rparr>"

lemma dead_net_simps [simp]:
  "getenv (dead_net up) n = None" "redis_open (dead_net up) k opts u = (Inr 1, u)" "redis_close (dead_net up) k h u = u"
  "redis_ping (dead_net up) h u = (Inr ''PONG'', u)" "redis_hset (dead_net up) k h key items u = (Inr 1, u)"
  "redis_brpop (dead_net up) k h key t u = (Inr None, u)"
  "redis_expire (dead_net up) k h key t u = (Inr True, u)" "redis_lpush (dead_net up) k h key v u = (Inr 1, u)"
  "stub_get_version (dead_net up) ch md u = (VersionOk 2, u)" "stub_push_v2 (dead_net up) ch md d u = (2, u)"
  "stream_write (dead_net up) h p u = (False, u)" "stream_read (dead_net up) h u = (StreamEnd, u)"
  "stream_writes_done (dead_net up) h u = u" "stream_finish (dead_net up) h u = (False, u)"
  "chan_create (dead_net up) addr gzip u = (1, u)" "chan_connected (dead_net up) ch t32 u = (up, u)"
  "sleep_ms (dead_net up) ms u = u" "schedule (dead_net up) u = (3, u)"
  by (simp_all add: dead_net_def)

text \<open>The client after a reconnection on this network, with the packets that wait for their acknowledgement: its thread
  has already ended.\<close>

definition dead_client :: "packet list \<Rightarrow> rpc_client" where
  "dead_client q =
     \<lparr>m_partyid = 1, m_to_partyid = 2, m_use_redis = True, m_net_debug = False, m_chl = 1, m_sender = None,
      m_rw_sender = Some 2, redis_client = Live demo_redis_object, m_redis_timeout = 120,
      m_use_rpc_version = v2, m_use_redis_data_version = v2, m_seq = 0, m_recv_idx = -1, m_notack_queue = q,
      m_recv_thread = Joinable Exited, m_recv_thread_status = ThreadFinished\<rparr>"

definition dead_channel :: "packet list \<Rightarrow> channel" where
  "dead_channel q = (channel_members 1 2 ''task'' ''s'' ''r'' 1000 True False [])\<lparr>m_client := Live (dead_client q)\<rparr>"

lemma dead_idle: "m_recv_thread c \<in> {Joinable Exited, Joined} \<Longrightarrow> interleave (dead_net up) (c, u) = Some (Inr (), c, u)"
  using interleave_idle [of c "dead_net up" u] by auto

lemma dead_thread:
  assumes "m_rw_sender c = Some h" "m_recv_thread c = Joinable Spawned"
  shows "interleave (dead_net up) (c, u) =
    Some (Inr (), c\<lparr>m_recv_thread := Joinable Exited, m_recv_thread_status := ThreadFinished\<rparr>, u)"
  using assms
  by (simp add: interleave_def numeral_3_eq_3 bind_def ask_def recv_thread_step_def get_obj_def set_obj_def ret_def)

lemma dead_finish: "finish (dead_net up) ch (dead_client q, u) = Some (Inr (), (dead_client q)\<lparr>m_recv_thread := Joined\<rparr>, u)"
proof -
  have ver: "(m_use_rpc_version (dead_client q) = not_inited) = False" "(m_use_rpc_version (dead_client q) = v1) = False"
    "(m_use_rpc_version (dead_client q) = v2) = True" "(m_recv_thread_status (dead_client q) \<noteq> ThreadNotInited) = True"
    by (simp_all add: v2_def v1_def not_inited_def dead_client_def)
  have stream: "finish_stream (dead_net up) (m_rw_sender (dead_client q)) (dead_client q, u) = Some (Inr False, dead_client q, u)"
    by (simp add: finish_stream_def bind_def ask_def dead_client_def)
  have idle: "interleave (dead_net up) (dead_client q, u) = Some (Inr (), dead_client q, u)"
    by (rule dead_idle) (simp add: dead_client_def)
  have join: "join_recv_thread (dead_net up) (dead_client q, u) = Some (Inr (), (dead_client q)\<lparr>m_recv_thread := Joined\<rparr>, u)"
    unfolding join_recv_thread_def
    by (rule bind_runI, rule idle) (simp add: bind_get_obj dead_client_def set_obj_def)
  have "\<exists>u'. finish_report (dead_net up) ch (dead_client q) False ((dead_client q)\<lparr>m_recv_thread := Joined\<rparr>, u) =
      Some (Inr (), (dead_client q)\<lparr>m_recv_thread := Joined\<rparr>, u')"
    by (rule finish_report_run) (simp_all add: dead_client_def redis_set_def)
  then have rep: "finish_report (dead_net up) ch (dead_client q) False ((dead_client q)\<lparr>m_recv_thread := Joined\<rparr>, u) =
      Some (Inr (), (dead_client q)\<lparr>m_recv_thread := Joined\<rparr>, u)"
    by simp
  show ?thesis
    unfolding finish_eq ver if_True if_False bind_bind bind_ret
    apply (rule bind_runI, rule stream)
    apply (rule bind_runI, rule idle)
    unfolding bind_get_obj ver if_True
    apply (rule bind_runI, rule join)
    apply (rule rep)
    done
qed

lemma dead_create:
  "create_channel (dead_net True) ((dead_channel q)\<lparr>m_client := Null\<rparr>, u) =
     Some (Inr (), (dead_channel q)\<lparr>m_client := Live ((dead_client [])\<lparr>m_rw_sender := None, m_use_rpc_version := not_inited,
       m_use_redis_data_version := not_inited, m_recv_thread := NoThread, m_recv_thread_status := ThreadNotInited\<rparr>)\<rparr>, u)"
  by (simp add: create_channel_def Let_def bind_get_obj bind_ask RpcClient_def redis_timeout_setting_def
      REDIS_BRPOP_TIMEOUT_def RedisClient_def new_redis_def redis_call_def catch_redis_error_def ping_def prog
      dead_channel_def channel_members_def dead_client_def demo_redis_object_def)

lemma dead_resend: "resend (dead_net up) h q (c, u) = Some (Inr (q = []), c, u)"
  by (cases q) (simp_all add: ret_def bind_def ask_def)

lemma dead_reconnect: "reconnect (dead_net True) (dead_channel q, u) = Some (Inr (q = []), dead_channel q, u)"
proof -
  let ?joined = "(dead_client q)\<lparr>m_recv_thread := Joined\<rparr>"
  have live: "m_client (dead_channel q) = Live (dead_client q)"
    by (simp add: dead_channel_def)
  have 1: "on_client (finish (dead_net True)) (dead_channel q, u) = Some (Inr (), (dead_channel q)\<lparr>m_client := Live ?joined\<rparr>, u)"
    by (simp add: on_client_def live dead_finish)
  let ?tup = "(q, 0, -1, v2, v2) :: continue_status"
  let ?cleared = "(dead_client [])\<lparr>m_recv_thread := Joined\<rparr>"
  have 2: "on_client (\<lambda>_. get_continue_status) ((dead_channel q)\<lparr>m_client := Live ?joined\<rparr>, u) =
      Some (Inr ?tup, (dead_channel q)\<lparr>m_client := Live ?cleared\<rparr>, u)"
    by (simp add: on_client_def get_continue_status_def prog dead_client_def)
  have 3: "delete_client (dead_net True) ((dead_channel q)\<lparr>m_client := Live ?cleared\<rparr>, u) =
      Some (Inr (), (dead_channel q)\<lparr>m_client := Null\<rparr>, u)"
    by (simp add: delete_client_def on_client_def delete_RpcClient_def delete_RedisClient_def prog
        dead_client_def demo_redis_object_def)
  have 4: "destroy_channel (dead_net True) ((dead_channel q)\<lparr>m_client := Null\<rparr>, u) = Some (Inr (), (dead_channel q)\<lparr>m_client := Null\<rparr>, u)"
    by (rule destroy_redis_channel) (simp_all add: dead_channel_def channel_members_def)
  have 5: "sleep (dead_net True) 1000 ((dead_channel q)\<lparr>m_client := Null\<rparr>, u) = Some (Inr (), (dead_channel q)\<lparr>m_client := Null\<rparr>, u)"
    by (simp add: sleep_def ask_def)
  let ?fresh = "(dead_client [])\<lparr>m_rw_sender := None, m_use_rpc_version := not_inited,
       m_use_redis_data_version := not_inited, m_recv_thread := NoThread, m_recv_thread_status := ThreadNotInited\<rparr>"
  let ?x = "(dead_client q)\<lparr>m_rw_sender := None, m_recv_thread := NoThread, m_recv_thread_status := ThreadNotInited\<rparr>"
  let ?y = "?x\<lparr>m_rw_sender := Some 2, m_recv_thread := Joinable Spawned\<rparr>"
  have y: "init_sender (dead_net True) ch (?x, u) = Some (Inr (), ?y, u)" for ch :: channel
    by (simp add: init_sender_def prog dead_client_def)
  have fin: "interleave (dead_net True) (?y, u) = Some (Inr (), dead_client q, u)"
    using dead_thread [where c = ?y and h = 2 and u = u and up = True] by (simp add: dead_client_def)
  have x: "?fresh\<lparr>m_use_rpc_version := v2, m_use_redis_data_version := v2, m_notack_queue := q, m_seq := 0, m_recv_idx := -1\<rparr> = ?x"
    by (simp add: dead_client_def)
  have 7: "set_continue_status (dead_net True) ch ?tup (?fresh, u) = Some (Inr (q = []), dead_client q, u)" for ch :: channel
    unfolding set_continue_status_def prod.case bind_set_obj
    unfolding order_refl if_True bind_set_obj x
    apply (simp only: order_refl if_True bind_set_obj x)
    apply (rule bind_runI, rule y)
    apply (rule bind_runI, rule fin)
    apply (simp add: bind_get_obj dead_client_def dead_resend)
    done
  show ?thesis
    unfolding reconnect_def
    apply (rule bind_runI, rule 1)
    apply (rule bind_runI, rule 2)
    apply (rule bind_runI, rule 3)
    apply (rule bind_runI, rule 4)
    apply (rule bind_runI, rule 5)
    apply (rule bind_runI, rule dead_create)
    apply (subst on_client_run, simp, subst 7)
    apply (simp add: dead_channel_def)
    done
qed

lemma dead_send:
  "on_client (\<lambda>ch. Send (dead_net True) ch (m_channelid ch) str) (dead_channel [], u) = Some (Inr (False, str), dead_channel [], u)"
proof -
  have idle: "interleave (dead_net True) (dead_client [], u) = Some (Inr (), dead_client [], u)"
    by (rule dead_idle) (simp add: dead_client_def)
  have "Send (dead_net True) ch task str (dead_client [], u) = Some (Inr (False, str), dead_client [], u)" for ch :: channel and task
    unfolding Send_def bind_get_obj
    apply (rule bind_runI [of _ _ "()" "(dead_client [], u)"])
     apply (simp add: dead_client_def v2_def not_inited_def ret_def)
    apply (rule bind_runI, rule idle)
    apply (simp add: bind_get_obj dead_client_def ret_def)
    done
  then show ?thesis
    by (subst on_client_run [of _ "dead_client []"]) (simp_all add: dead_channel_def)
qed

lemma dead_loop: "send_loop (dead_net True) (Suc n) prev str (dead_channel [], u) = Some (Inr (True, str), dead_channel [], u)"
proof (induction n arbitrary: prev)
  case 0
  show ?case
    unfolding send_loop.simps(2)
    apply (rule bind_runI, rule dead_send)
    unfolding prod.case if_False
    apply (rule bind_runI, rule dead_reconnect)
    apply (simp add: ret_def)
    done
next
  case (Suc n)
  show ?case
    unfolding send_loop.simps(2) [of _ "Suc n"]
    apply (rule bind_runI, rule dead_send)
    unfolding prod.case if_False
    apply (rule bind_runI, rule dead_reconnect)
    apply (rule Suc)
    done
qed

text \<open>
  C29: \<^verbatim>\<open>real_send\<close> reports success for a message it never got across: \<^verbatim>\<open>ret\<close> is overwritten by the
  result of the reconnection, so when all 120 writes fail but the last reconnection is accepted
  no exception is thrown and the message is counted as sent. On a network on which no write
  succeeds every message is lost this way.
\<close>
theorem real_send_reports_lost_message:
  "(\<forall>h p u. \<not> fst (stream_write (dead_net True) h p u)) \<and>
   real_send (dead_net True) str (dead_channel [], ()) =
     Some (Inr str, statistics_send (of_nat (length str)) (dead_channel []), ())"
proof -
  have n: "send_loop (dead_net True) 120 False str = send_loop (dead_net True) (Suc 119) False str"
    by simp
  have "real_send (dead_net True) str (dead_channel [], ()) =
     Some (Inr str, statistics_send (of_nat (length str)) (dead_channel []), ())"
    unfolding real_send_def n by (rule bind_runI, rule dead_loop) (simp add: bind_set_obj ret_def)
  then show ?thesis
    by simp
qed

section \<open>Exceptions during a reconnection\<close>

definition unreachable :: "('w, 'z) net_api_scheme \<Rightarrow> bool" where
  "unreachable A \<longleftrightarrow> (\<forall>chl t w. \<not> fst (chan_connected A chl t w))"

lemma create_unreachable:
  assumes "unreachable A"
  shows "\<exists>w'. create_channel A (ch, w) =
    Some (Inl (Thrown (''connect server '' @ m_server_address ch @ '' failed'')), ch, w')"
  using assms by (simp add: create_channel_def Let_def bind_get_obj bind_ask unreachable_def raise_def)

lemma delete_client_cases:
  assumes "m_client ch = Live c" "redis_set c" "delete_client A (ch, w) = Some (x, ch', w')"
  shows "x = Inl Terminated \<or> (x = Inr () \<and> ch' = ch\<lparr>m_client := Null\<rparr>)"
proof -
  have "\<exists>y w1. delete_RpcClient A (c, w) = Some (y, c, w1) \<and> (y = Inr () \<or> y = Inl Terminated)"
  proof (cases "m_use_redis c")
    case True
    then obtain r where r: "redis_client c = Live r" "redis_ready r"
      using assms(2) by (auto simp: redis_set_def)
    then show ?thesis
      using True
      by (auto simp: delete_RpcClient_def delete_RedisClient_def redis_ready_def prog split: if_splits thread_handle.split)
  next
    case False
    then show ?thesis
      by (auto simp: delete_RpcClient_def prog split: thread_handle.split)
  qed
  then obtain y w1 where "delete_RpcClient A (c, w) = Some (y, c, w1)" "y = Inr () \<or> y = Inl Terminated"
    by blast
  then show ?thesis
    using assms(1,3) by (auto simp: delete_client_def on_client_def bind_def set_obj_def)
qed

text \<open>
  An exception of \<^verbatim>\<open>create_channel\<close> during a reconnection leaves the channel without a client:
  \<^verbatim>\<open>m_client\<close> is null, the unacknowledged packets are gone with the tuple, and the next send through
  the channel dereferences the null pointer. (The only other way such a reconnection ends is the
  destruction of a thread that was not joined.)
\<close>
theorem failed_reconnect_leaves_null_client:
  assumes "unreachable A" "ch_use_redis ch" "m_client ch = Live c" "connected_client c"
    and "reconnect A (ch, w) = Some (x, ch', w')"
  shows "x = Inl Terminated \<or>
    (x = Inl (Thrown (''connect server '' @ m_server_address ch @ '' failed'')) \<and> m_client ch' = Null \<and>
     (\<forall>str u. real_send A str (ch', u) = Some (Inl NullPointer, ch', u)))"
proof -
  obtain h where h: "m_rw_sender c = Some h"
    using assms(4) by (auto simp: connected_client_def)
  obtain y c1 w1 where 1: "finish A ch (c, w) = Some (y, c1, w1)"
    using assms(3,5) by (cases "finish A ch (c, w)") (auto simp: reconnect_def bind_def on_client_def)
  have fin: "y = Inr ()" "evolves c c1"
    using finish_v2 [OF _ _ h _ _ 1] assms(4) by (auto simp: connected_client_def)
  have 11: "on_client (finish A) (ch, w) = Some (Inr (), ch\<lparr>m_client := Live c1\<rparr>, w1)"
    using 1 fin(1) assms(3) by (simp add: on_client_def)
  obtain tup where 2: "on_client (\<lambda>_. get_continue_status) (ch\<lparr>m_client := Live c1\<rparr>, w1) =
      Some (Inr tup, ch\<lparr>m_client := Live (c1\<lparr>m_notack_queue := []\<rparr>)\<rparr>, w1)"
    using assms(4) evolves_fields [OF fin(2)] by (simp add: on_client_def get_continue_status_def prog connected_client_def)
  let ?ch = "ch\<lparr>m_client := Live (c1\<lparr>m_notack_queue := []\<rparr>)\<rparr>"
  let ?rest = "\<lambda>_. bind (destroy_channel A) (\<lambda>_. bind (sleep A 1000) (\<lambda>_. bind (create_channel A)
    (\<lambda>_. on_client (\<lambda>ch. set_continue_status A ch tup))))"
  have run: "bind (delete_client A) ?rest (?ch, w1) = Some (x, ch', w')"
    using assms(5) unfolding reconnect_def by (simp add: bind_run [of "on_client (finish A)", OF 11]
        bind_run [of "on_client (\<lambda>_. get_continue_status)", OF 2])
  then obtain z ch3 w3 where 3: "delete_client A (?ch, w1) = Some (z, ch3, w3)"
    by (cases "delete_client A (?ch, w1)") (auto simp: bind_def)
  have set: "redis_set (c1\<lparr>m_notack_queue := []\<rparr>)"
    using assms(4) evolves_fields [OF fin(2)] by (simp add: redis_set_def connected_client_def)
  have "z = Inl Terminated \<or> (z = Inr () \<and> ch3 = ?ch\<lparr>m_client := Null\<rparr>)"
    by (rule delete_client_cases [OF _ set 3]) simp
  then show ?thesis
  proof
    assume "z = Inl Terminated"
    then show ?thesis
      using run 3 by (simp add: bind_def)
  next
    assume z: "z = Inr () \<and> ch3 = ?ch\<lparr>m_client := Null\<rparr>"
    let ?n = "ch\<lparr>m_client := Null\<rparr>"
    have 4: "destroy_channel A (?n, w3) = Some (Inr (), ?n, w3)"
      using assms(2) by (intro destroy_redis_channel) simp_all
    have 5: "sleep A 1000 (?n, w3) = Some (Inr (), ?n, sleep_ms A 1000 w3)"
      by (simp add: sleep_def ask_def)
    obtain w6 where 6: "create_channel A (?n, sleep_ms A 1000 w3) =
        Some (Inl (Thrown (''connect server '' @ m_server_address ch @ '' failed'')), ?n, w6)"
      using create_unreachable [OF assms(1), of ?n] by auto
    have "x = Inl (Thrown (''connect server '' @ m_server_address ch @ '' failed''))" "ch' = ?n"
      using run 3 z 4 5 6 by (simp_all add: bind_def)
    moreover have "real_send A str (?n, u) = Some (Inl NullPointer, ?n, u)" for str u
    proof -
      have n: "send_loop A 120 False str = send_loop A (Suc 119) False str"
        by simp
      show ?thesis
        unfolding real_send_def n send_loop.simps(2) by (simp add: bind_def on_client_def)
    qed
    ultimately show ?thesis
      by simp
  qed
qed

theorem failed_reconnect_leaves_null_client_witness:
  "\<exists>x ch' w'. reconnect (dead_net False) (dead_channel [], ()) = Some (x, ch', w') \<and> m_client ch' = Null \<and>
     real_send (dead_net False) [7] (ch', ()) = Some (Inl NullPointer, ch', ())"
proof -
  let ?joined = "(dead_client [])\<lparr>m_recv_thread := Joined\<rparr>"
  let ?n = "(dead_channel [])\<lparr>m_client := Null\<rparr>"
  have live: "m_client (dead_channel []) = Live (dead_client [])" and redis: "ch_use_redis (dead_channel [])"
    by (simp_all add: dead_channel_def channel_members_def)
  have 1: "on_client (finish (dead_net False)) (dead_channel [], ()) = Some (Inr (), (dead_channel [])\<lparr>m_client := Live ?joined\<rparr>, ())"
    by (simp add: on_client_def live dead_finish)
  have 2: "on_client (\<lambda>_. get_continue_status) ((dead_channel [])\<lparr>m_client := Live ?joined\<rparr>, ()) =
      Some (Inr ([], 0, -1, v2, v2), (dead_channel [])\<lparr>m_client := Live ?joined\<rparr>, ())"
    by (simp add: on_client_def get_continue_status_def prog dead_client_def)
  have 3: "delete_client (dead_net False) ((dead_channel [])\<lparr>m_client := Live ?joined\<rparr>, ()) = Some (Inr (), ?n, ())"
    by (simp add: delete_client_def on_client_def delete_RpcClient_def delete_RedisClient_def prog
        dead_client_def demo_redis_object_def)
  have 4: "destroy_channel (dead_net False) (?n, ()) = Some (Inr (), ?n, ())"
    by (rule destroy_redis_channel) (simp_all add: redis)
  have 5: "sleep (dead_net False) 1000 (?n, ()) = Some (Inr (), ?n, ())"
    by (simp add: sleep_def ask_def)
  have un: "unreachable (dead_net False)"
    by (simp add: unreachable_def)
  obtain e where 6: "create_channel (dead_net False) (?n, ()) = Some (Inl (Thrown e), ?n, ())"
    using create_unreachable [OF un, of ?n "()"] by auto
  have run: "reconnect (dead_net False) (dead_channel [], ()) = Some (Inl (Thrown e), ?n, ())"
    unfolding reconnect_def
    apply (rule bind_runI, rule 1)
    apply (rule bind_runI, rule 2)
    apply (rule bind_runI, rule 3)
    apply (rule bind_runI, rule 4)
    apply (rule bind_runI, rule 5)
    apply (rule bind_run_fault, rule 6)
    done
  have "connected_client (dead_client [])"
    by (simp add: connected_client_def dead_client_def rpc_inv_at_def packet_seqs_def redis_set_def joinable_def)
  from failed_reconnect_leaves_null_client [OF un redis live this run] show ?thesis
    using run by simp
qed

text \<open>
  C30: Without Redis the destructor of a channel whose reconnection failed uses a deleted client:
  \<^verbatim>\<open>destroy_channel\<close> deletes \<^verbatim>\<open>m_rcv_client\<close> and leaves the pointer, the exception of
  \<^verbatim>\<open>create_channel\<close> skips its renewal, and \<^verbatim>\<open>~channel\<close> calls \<^verbatim>\<open>finish\<close> through it.
\<close>
theorem failed_reconnect_dangling_receiver:
  assumes "unreachable A" "\<not> ch_use_redis ch" "m_client ch = Null" "m_rcv_client ch = Live r"
    and "m_use_rpc_version r = not_inited" "\<not> m_use_redis r" "m_recv_thread r = NoThread"
  shows "\<exists>e ch' w'. bind (destroy_channel A) (\<lambda>_. bind (sleep A 1000) (\<lambda>_. create_channel A)) (ch, w) =
      Some (Inl (Thrown e), ch', w') \<and>
    (\<forall>u. delete_channel A fuel (ch', u) = Some (Inl UseAfterFree, ch', u))"
proof -
  have fin: "finish A ch' (r, u) = Some (Inr (), r, chan_wait_shutdown A (m_chl r) u)" for ch' :: channel and u
    using assms(5,6) by (simp add: finish_eq finish_report_def prog)
  have del: "delete_RpcClient A (r, u) = Some (Inr (), r, u)" for u
    using assms(6,7) by (simp add: delete_RpcClient_def prog)
  let ?f = "ch\<lparr>m_rcv_client := Freed\<rparr>"
  obtain w1 where 1: "destroy_channel A (ch, w) = Some (Inr (), ?f, w1)"
    using assms(2-4) fin del by (simp add: destroy_channel_def bind_def on_rcv_client_def get_obj_def set_obj_def ret_def)
  have 2: "sleep A 1000 (?f, w1) = Some (Inr (), ?f, sleep_ms A 1000 w1)"
    by (simp add: sleep_def ask_def)
  obtain e w2 where 3: "create_channel A (?f, sleep_ms A 1000 w1) = Some (Inl (Thrown e), ?f, w2)"
    using create_unreachable [OF assms(1), of ?f "sleep_ms A 1000 w1"] by blast
  have "delete_channel A fuel (?f, u) = Some (Inl UseAfterFree, ?f, u)" for u
    using assms(2,3) by (simp add: delete_channel_def destroy_channel_def bind_def on_rcv_client_def get_obj_def ret_def)
  moreover have "bind (destroy_channel A) (\<lambda>_. bind (sleep A 1000) (\<lambda>_. create_channel A)) (ch, w) =
      Some (Inl (Thrown e), ?f, w2)"
    by (rule bind_runI, rule 1, rule bind_runI, rule 2, rule 3)
  ultimately show ?thesis
    by blast
qed

definition demo_rcv_client :: rpc_client where
  "demo_rcv_client = demo_fresh\<lparr>m_use_redis := False\<rparr>"

theorem failed_reconnect_dangling_receiver_witness:
  "\<exists>e ch' w'. bind (destroy_channel (dead_net False)) (\<lambda>_. bind (sleep (dead_net False) 1000) (\<lambda>_. create_channel (dead_net False)))
      ((dead_channel [])\<lparr>ch_use_redis := False, m_client := Null, m_rcv_client := Live demo_rcv_client\<rparr>, ()) =
      Some (Inl (Thrown e), ch', w') \<and>
    (\<forall>u. delete_channel (dead_net False) 11 (ch', u) = Some (Inl UseAfterFree, ch', u))"
  by (rule failed_reconnect_dangling_receiver [where r = demo_rcv_client])
    (simp_all add: unreachable_def demo_rcv_client_def demo_fresh_def)

section \<open>Compression\<close>

text \<open>What LZ4 documents: the bound for up to \<^verbatim>\<open>LZ4_MAX_INPUT_SIZE\<close> bytes, that compression into a
  buffer of that size succeeds, and that decompression into a buffer of the original size restores
  the data; beyond the maximum the bound is 0 and compression fails.\<close>

definition lz4_max :: int where "lz4_max = 2113929216"

definition lz4_documented :: "lz4_api \<Rightarrow> bool" where
  "lz4_documented L \<longleftrightarrow>
     (\<forall>n. lz4_bound L n = (if 0 \<le> n \<and> n \<le> lz4_max then n + n div 255 + 16 else 0)) \<and>
     (\<forall>data n cap. 0 \<le> n \<and> n \<le> lz4_max \<and> n \<le> int (length data) \<and> lz4_bound L n \<le> cap \<longrightarrow>
        int (length (lz4_compress L data n cap)) \<le> cap \<and>
        lz4_decompress L (lz4_compress L data n cap) (replicate (nat n) 0) = take (nat n) data) \<and>
     (\<forall>data n cap. \<not> (0 \<le> n \<and> n \<le> lz4_max) \<longrightarrow> lz4_compress L data n cap = [])"

lemma small_i32:
  assumes "n < 2 ^ 31"
  shows "unat (of_nat n :: u32) = n" "sint (of_nat n :: u32) = int n"
  using assms sint_small [of "of_nat n :: u32"] by (simp_all add: unat_of_nat)

lemma sint_u32_cases:
  assumes "n < 2 ^ 32"
  shows "sint (of_nat n :: u32) = (if n < 2 ^ 31 then int n else int n - 2 ^ 32)"
proof (cases "n < 2 ^ 31")
  case False
  have "sint (of_nat n :: u32) = (int n + 2147483648) mod 4294967296 - 2147483648"
    by (simp add: signed_of_nat signed_take_bit_eq_take_bit_shift take_bit_eq_mod)
  moreover have "(int n + 2147483648) mod 4294967296 = int n + 2147483648 - 4294967296"
    using False assms by (intro int_mod_pos_eq [of _ _ 1]) simp_all
  ultimately show ?thesis
    using False by simp
qed (simp add: small_i32)

lemma lz4_documented_use:
  assumes "lz4_documented L" "0 \<le> n" "n \<le> lz4_max" "n \<le> int (length data)" "lz4_bound L n \<le> cap"
  shows "int (length (lz4_compress L data n cap)) \<le> cap"
    and "lz4_decompress L (lz4_compress L data n cap) (replicate (nat n) 0) = take (nat n) data"
  using assms unfolding lz4_documented_def by blast+

text \<open>
  C31: What \<^verbatim>\<open>send_with_compress\<close> frames, \<^verbatim>\<open>recv_with_decompress\<close> restores, for every payload up to the
  maximum input size of LZ4 (2113929216 bytes), the empty one included; all lengths fit in \<^verbatim>\<open>int\<close>.
\<close>
theorem lz4_frame_roundtrip:
  assumes "lz4_documented L" "int (length buf) \<le> lz4_max"
  shows "\<exists>msg. get_lz4_compress_str L buf (ucast (of_nat (length buf) :: u64)) = Inr msg \<and>
    get_lz4_decompress_str L msg (of_nat (length msg)) = Inr buf"
proof -
  define n where "n = length buf"
  have n: "n < 2 ^ 31" "int n \<le> lz4_max"
    using assms(2) by (simp_all add: n_def lz4_max_def)
  note u = small_i32(1) [OF n(1)] and si = small_i32(2) [OF n(1)]
  have uc: "ucast (of_nat (length buf) :: u64) = (of_nat n :: u32)"
    by (simp add: n_def)
  let ?cap = "lz4_bound L (int n)"
  have cap: "?cap = int n + int n div 255 + 16"
    using assms(1) n by (simp add: lz4_documented_def)
  have le: "?cap \<le> 2122219150"
    unfolding cap using n(2) by (simp add: lz4_max_def)
  let ?z = "lz4_compress L buf (int n) ?cap"
  have z: "int (length ?z) \<le> ?cap" "lz4_decompress L ?z (replicate n 0) = buf"
    using lz4_documented_use [OF assms(1), of "int n" buf ?cap] n(2) by (simp_all add: n_def)
  let ?msg = "le32 (of_nat n) @ ?z"
  have c: "get_lz4_compress_str L buf (ucast (of_nat (length buf) :: u64)) = Inr ?msg"
    unfolding uc using cap si by (simp add: get_lz4_compress_str_def Let_def n_def)
  have len: "length ?msg < 2 ^ 31"
    using z(1) le by simp
  have ul: "unat (of_nat (length ?msg) :: u32) = length ?msg" "sint (of_nat (length ?msg) :: u32) = int (length ?msg)"
    by (rule small_i32 [OF len])+
  have "get_lz4_decompress_str L ?msg (of_nat (length ?msg)) = Inr buf"
    unfolding get_lz4_decompress_str_def ul Let_def using z(2) u si by simp
  then show ?thesis
    using c by blast
qed

text \<open>A codec as documented: it stores the data, and keeps it in the bound.\<close>

definition store_lz4 :: lz4_api where
  "store_lz4 =
     \<lparr>lz4_bound = (\<lambda>n. if 0 \<le> n \<and> n \<le> lz4_max then n + n div 255 + 16 else 0),
      lz4_compress = (\<lambda>data n cap. if 0 \<le> n \<and> n \<le> lz4_max \<and> n \<le> cap then take (nat n) data else []),
      lz4_decompress = (\<lambda>z dst. take (length dst) z)\<rparr>"

lemma store_bound: "lz4_bound store_lz4 n = (if 0 \<le> n \<and> n \<le> lz4_max then n + n div 255 + 16 else 0)"
  unfolding store_lz4_def by (simp only: lz4_api.simps)

lemma store_compress:
  "lz4_compress store_lz4 data n cap = (if 0 \<le> n \<and> n \<le> lz4_max \<and> n \<le> cap then take (nat n) data else [])"
  unfolding store_lz4_def by (simp only: lz4_api.simps)

lemma store_decompress: "lz4_decompress store_lz4 z dst = take (length dst) z"
  unfolding store_lz4_def by (simp only: lz4_api.simps)

lemma bound_fits: "0 \<le> n \<Longrightarrow> n + n div 255 + 16 \<le> cap \<Longrightarrow> n \<le> (cap :: int)"
  using pos_imp_zdiv_nonneg_iff [of 255 n] by linarith

lemma store_lz4_documented: "lz4_documented store_lz4"
  unfolding lz4_documented_def
proof (intro conjI allI impI)
  fix n
  show "lz4_bound store_lz4 n = (if 0 \<le> n \<and> n \<le> lz4_max then n + n div 255 + 16 else 0)"
    by (rule store_bound)
next
  fix data :: bytes and n cap
  assume a: "0 \<le> n \<and> n \<le> lz4_max \<and> n \<le> int (length data) \<and> lz4_bound store_lz4 n \<le> cap"
  have b: "lz4_bound store_lz4 n = n + n div 255 + 16"
    unfolding store_bound by (rule if_P) (use a in blast)
  have c: "n \<le> cap"
    by (rule bound_fits [of n]) (use a in \<open>simp_all only: b\<close>)
  have z: "lz4_compress store_lz4 data n cap = take (nat n) data"
    using a c by (simp only: store_compress simp_thms if_True)
  show "int (length (lz4_compress store_lz4 data n cap)) \<le> cap"
    unfolding z length_take using a c by linarith
  show "lz4_decompress store_lz4 (lz4_compress store_lz4 data n cap) (replicate (nat n) 0) = take (nat n) data"
    unfolding z store_decompress by simp
next
  fix data n cap
  assume "\<not> (0 \<le> n \<and> n \<le> lz4_max)"
  then show "lz4_compress store_lz4 data n cap = []"
    unfolding store_compress by (intro if_not_P) blast
qed

theorem lz4_frame_roundtrip_witness:
  "\<exists>msg. get_lz4_compress_str store_lz4 [7, 8, 9] 3 = Inr msg \<and>
    get_lz4_decompress_str store_lz4 msg (of_nat (length msg)) = Inr [7, 8, 9]"
  using lz4_frame_roundtrip [OF store_lz4_documented, of "[7, 8, 9]"] by (simp add: lz4_max_def)

text \<open>
  A payload over the maximum input size of LZ4 is dropped without a word: what
  \<^verbatim>\<open>send_with_compress\<close> sends is the four bytes of the length alone (the assertion on the result of
  the compression is commented out), for lengths that do not fit in \<^verbatim>\<open>int\<close> as well.
\<close>
lemma lz4_oversize_dropped:
  assumes "lz4_documented L" "lz4_max < int (length buf)" "length buf < 2 ^ 32"
  shows "get_lz4_compress_str L buf (ucast (of_nat (length buf) :: u64)) = Inr (le32 (of_nat (length buf)))"
proof -
  let ?len = "of_nat (length buf) :: u32"
  have len: "sint ?len = (if length buf < 2 ^ 31 then int (length buf) else int (length buf) - 2 ^ 32)"
    by (rule sint_u32_cases [OF assms(3)])
  have big: "\<not> (0 \<le> sint ?len \<and> sint ?len \<le> lz4_max)" and le: "sint ?len \<le> int (length buf)"
    unfolding len using assms(2,3) by (simp_all split: if_split)
  have "lz4_bound L (sint ?len) = 0" "lz4_compress L buf (sint ?len) 0 = []"
    using assms(1) big unfolding lz4_documented_def by presburger+
  then show ?thesis
    using le by (simp add: get_lz4_compress_str_def)
qed

lemma lz4_oversize_dropped_witness:
  "get_lz4_compress_str store_lz4 (replicate 2147483648 7) (ucast (of_nat (length (replicate 2147483648 (7 :: u8))) :: u64)) =
    Inr (le32 2147483648)"
proof -
  have n: "length (replicate 2147483648 (7 :: u8)) = 2147483648"
    by (rule length_replicate)
  show ?thesis
    using lz4_oversize_dropped [OF store_lz4_documented, of "replicate 2147483648 7"] unfolding n by (simp add: lz4_max_def)
qed

end
