(* ===== verification/ChannelFlush.thy ===== *)
theory ChannelFlush imports ChannelSafety begin

text \<open>
  \<^verbatim>\<open>channel::flush\<close> (\<^verbatim>\<open>src/src/channel.cpp\<close>): what its result says about the packets that wait for their acknowledgement.
\<close>

section \<open>One attempt\<close>

lemma bind_valueE:
  assumes "bind m f s = Some (Inr b, s')"
  obtains a s1 where "m s = Some (Inr a, s1)" "f a s1 = Some (Inr b, s')"
  using assms by (auto simp: bind_def split: option.splits sum.splits)

lemma wait_flush_loop_says:
  "wait_flush_loop A mx ts nr n cur (c, w) = Some (Inr (ok, nr'), c', w') \<Longrightarrow> ok \<longleftrightarrow> m_notack_queue c' = []"
proof (induction n arbitrary: cur c w)
  case (Suc n)
  then have next_says: "wait_flush_loop A mx ts nr n cur (c, w) = Some (Inr (True, nr'), c', w') \<Longrightarrow> ok \<Longrightarrow> m_notack_queue c' = []"
    "wait_flush_loop A mx ts nr n cur (c, w) = Some (Inr (False, nr'), c', w') \<Longrightarrow> \<not> ok \<Longrightarrow> m_notack_queue c' \<noteq> []" for cur c w
    by simp_all
  show ?case
    using Suc.prems unfolding wait_flush_loop.simps(2)
    by (cases ok; elim bind_valueE)
      (auto simp: get_obj_def ask_def ret_def sleep_def Let_def split: if_splits prod.splits elim!: bind_valueE dest!: next_says)
qed (simp add: stuck_def)

lemma wait_flush_says:
  assumes "wait_flush A fuel mx nr (c, w) = Some (Inr (ok, nr'), c', w')"
  shows "ok \<longleftrightarrow> m_notack_queue c' = []"
proof -
  obtain ts s1 where "wait_flush_loop A mx ts nr fuel 5 s1 = Some (Inr (ok, nr'), c', w')"
    using assms unfolding wait_flush_def by (elim bind_valueE)
  then show ?thesis
    using wait_flush_loop_says [of A mx ts nr fuel 5 "fst s1" "snd s1"] by simp
qed

lemma attempt_says:
  assumes "on_client (\<lambda>_. wait_flush A fuel mx nr) (ch, w) = Some (Inr (ok, nr'), ch', w')"
  shows "\<exists>c. m_client ch' = Live c \<and> (ok \<longleftrightarrow> m_notack_queue c = [])"
proof -
  obtain c c' where "m_client ch = Live c" "wait_flush A fuel mx nr (c, w) = Some (Inr (ok, nr'), c', w')" "ch' = ch\<lparr>m_client := Live c'\<rparr>"
    using assms by (cases "m_client ch") (auto simp: on_client_def split: option.splits)
  then show ?thesis
    using wait_flush_says by simp
qed

section \<open>All attempts\<close>

text \<open>
  \<open>gives_up A fuel n s s'\<close>: \<open>n\<close> attempts in a row that end with the stream or the connection gone and packets waiting,
  each followed by a reconnection, whatever that reports.
\<close>

inductive gives_up :: "('w, 'z) net_api_scheme \<Rightarrow> nat \<Rightarrow> nat \<Rightarrow> channel \<times> 'w \<Rightarrow> channel \<times> 'w \<Rightarrow> bool" for A fuel where
  gives_up_none: "gives_up A fuel 0 s s"
| gives_up_more: "on_client (\<lambda>_. wait_flush A fuel 10000 (Some False)) s = Some (Inr (False, Some True), s1) \<Longrightarrow>
    reconnect A s1 = Some (Inr b, s2) \<Longrightarrow> gives_up A fuel n s2 s3 \<Longrightarrow> gives_up A fuel (Suc n) s s3"

lemma gives_up_flush: "gives_up A fuel n s s' \<Longrightarrow> flush_loop A fuel n s = Some (Inr True, s')"
  by (induction rule: gives_up.induct) (simp_all add: ret_def bind_def)

lemma flush_loop_says:
  "flush_loop A fuel n (ch, w) = Some (Inr ok, ch', w') \<Longrightarrow>
    (\<exists>c. m_client ch' = Live c \<and> (ok \<longleftrightarrow> m_notack_queue c = [])) \<or> ok \<and> gives_up A fuel n (ch, w) (ch', w')"
proof (induction n arbitrary: ch w)
  case (Suc n)
  obtain ok1 nr s1 where attempt: "on_client (\<lambda>_. wait_flush A fuel 10000 (Some False)) (ch, w) = Some (Inr (ok1, nr), s1)"
    and rest: "(if ok1 then ret True else if nr \<noteq> Some True then ret False else bind (reconnect A) (\<lambda>_. flush_loop A fuel n)) s1 =
      Some (Inr ok, ch', w')"
    using Suc.prems unfolding flush_loop.simps(2) by (elim bind_valueE) auto
  obtain ch1 w1 where s1: "s1 = (ch1, w1)"
    by (cases s1)
  have says: "\<exists>c. m_client ch1 = Live c \<and> (ok1 \<longleftrightarrow> m_notack_queue c = [])"
    by (rule attempt_says [OF attempt [unfolded s1]])
  show ?case
  proof (cases "ok1 \<or> nr \<noteq> Some True")
    case True
    then show ?thesis
      using rest says s1 by (auto simp: ret_def split: if_splits)
  next
    case False
    then obtain b s2 where "reconnect A s1 = Some (Inr b, s2)" "flush_loop A fuel n s2 = Some (Inr ok, ch', w')"
      using rest by (auto elim: bind_valueE)
    then show ?thesis
      using Suc.IH [of "fst s2" "snd s2"] gives_up_more [of A fuel "(ch, w)" s1 b s2 n] attempt False by auto
  qed
qed (auto simp: ret_def intro: gives_up_none)

section \<open>Property\<close>

text \<open>
  C37: What \<^verbatim>\<open>flush\<close> returns is true exactly when no packet waits for its acknowledgement any more, with one exception,
  which it also reports as true: 120 attempts in a row that each found the connection gone with packets still waiting,
  the last reconnection not looked at.
\<close>
theorem flush_says:
  assumes "flush A fuel (ch, w) = Some (Inr ok, ch', w')"
  shows "(\<exists>c. m_client ch' = Live c \<and> (ok \<longleftrightarrow> m_notack_queue c = [])) \<or> ok \<and> gives_up A fuel 120 (ch, w) (ch', w')"
  by (rule flush_loop_says [OF assms [unfolded flush_def]])

lemma dead_attempt:
  assumes "q \<noteq> []"
  shows "on_client (\<lambda>_. wait_flush (dead_net True) (Suc fuel) 10000 (Some False)) (dead_channel q, u) =
    Some (Inr (False, Some True), dead_channel q, u)"
proof -
  have idle: "interleave (dead_net True) (dead_client q, u) = Some (Inr (), dead_client q, u)"
    by (rule dead_idle) (simp add: dead_client_def)
  have "wait_flush (dead_net True) (Suc fuel) 10000 (Some False) (dead_client q, u) = Some (Inr (False, Some True), dead_client q, u)"
    unfolding wait_flush_def
    apply (rule bind_runI [of _ _ 0 "(dead_client q, u)"])
     apply (simp add: ask_def dead_net_def)
    unfolding wait_flush_loop.simps(2)
    apply (rule bind_runI, rule idle)
    apply (simp add: bind_get_obj dead_client_def assms ret_def)
    done
  then show ?thesis
    by (subst on_client_run [of _ "dead_client q"]) (simp_all add: dead_channel_def)
qed

lemma dead_gives_up: "q \<noteq> [] \<Longrightarrow> gives_up (dead_net True) (Suc fuel) n (dead_channel q, u) (dead_channel q, u)"
  by (induction n) (auto intro: gives_up_none gives_up_more dead_attempt dead_reconnect)

text \<open>A connection that can be made again and again and over which nothing gets through: the packet still waits.\<close>

theorem flush_says_witness:
  "\<forall>e. \<exists>ch'. flush (dead_net True) 1 (dead_channel [e], ()) = Some (Inr True, ch', ()) \<and> m_client ch' = Live (dead_client [e]) \<and>
    m_notack_queue (dead_client [e]) = [e] \<and> gives_up (dead_net True) 1 120 (dead_channel [e], ()) (ch', ())"
proof
  fix e
  have "gives_up (dead_net True) 1 120 (dead_channel [e], ()) (dead_channel [e], ())"
    using dead_gives_up [of "[e]" 0 120] by simp
  then have run: "flush (dead_net True) 1 (dead_channel [e], ()) = Some (Inr True, dead_channel [e], ())"
    unfolding flush_def by (rule gives_up_flush)
  have "m_client (dead_channel [e]) = Live (dead_client [e])" "m_notack_queue (dead_client [e]) = [e]"
    by (simp_all add: dead_channel_def dead_client_def)
  then show "\<exists>ch'. flush (dead_net True) 1 (dead_channel [e], ()) = Some (Inr True, ch', ()) \<and> m_client ch' = Live (dead_client [e]) \<and>
    m_notack_queue (dead_client [e]) = [e] \<and> gives_up (dead_net True) 1 120 (dead_channel [e], ()) (ch', ())"
    using flush_says [OF run] run by auto
qed

end
