(* ===== verification/ChannelRetains.thy ===== *)
theory ChannelRetains imports ChannelDelivery begin

text \<open>
  What becomes of a message that \<^verbatim>\<open>real_send\<close> has taken (\<^verbatim>\<open>src/src/channel.cpp\<close>): until the relay has it, the client of the moment
  keeps it in its queue, over any number of reconnections.
\<close>

section \<open>The relay and its acknowledgements\<close>

text \<open>
  A view of the world: for each stream the packets it has accepted, how many acknowledgements have been read from it, and whether a write
  on it has failed; and the packets that the relay has got.
\<close>

record 'w relay_view =
  written :: "nat \<Rightarrow> 'w \<Rightarrow> packet list"
  acked :: "nat \<Rightarrow> 'w \<Rightarrow> nat"
  broken :: "nat \<Rightarrow> 'w \<Rightarrow> bool"
  arrived :: "'w \<Rightarrow> packet set"

text \<open>
  What the code relies on: a stream starts empty; what is written on it arrives in order or not at all, and after a failed write it
  takes nothing any more (gRPC); the relay acknowledges the packets of a stream in their order, each after it has got it, and
  keeps what it has got.
\<close>

definition same_streams :: "'w relay_view \<Rightarrow> 'w \<Rightarrow> 'w \<Rightarrow> bool" where
  "same_streams V w w' \<longleftrightarrow>
     (\<forall>h. written V h w' = written V h w \<and> acked V h w' = acked V h w \<and> broken V h w' = broken V h w) \<and> arrived V w \<subseteq> arrived V w'"

definition acking_relay :: "('w, 'z) net_api_scheme \<Rightarrow> 'w relay_view \<Rightarrow> bool" where
  "acking_relay A V \<longleftrightarrow>
     (\<forall>h p w ok w'. stream_write A h p w = (ok, w') \<longrightarrow>
        written V h w' = written V h w @ (if ok then [p] else []) \<and> acked V h w' = acked V h w \<and>
        (broken V h w' \<longleftrightarrow> broken V h w \<or> \<not> ok) \<and> (ok \<longrightarrow> \<not> broken V h w) \<and> arrived V w \<subseteq> arrived V w') \<and>
     (\<forall>h w ev w'. stream_read A h w = (ev, w') \<longrightarrow>
        written V h w' = written V h w \<and> broken V h w' = broken V h w \<and> arrived V w \<subseteq> arrived V w' \<and>
        acked V h w' = acked V h w + (if is_ack ev then 1 else 0) \<and>
        (is_ack ev \<longrightarrow> acked V h w < length (written V h w) \<and> written V h w ! acked V h w \<in> arrived V w')) \<and>
     (\<forall>ch md t w h w'. stub_push_v2 A ch md t w = (h, w') \<longrightarrow>
        written V h w' = [] \<and> acked V h w' = 0 \<and> \<not> broken V h w') \<and>
     side_calls A (same_streams V) \<and> net_obeys A (\<lambda>w w'. arrived V w \<subseteq> arrived V w')"

lemma acking_write:
  assumes "acking_relay A V" "stream_write A h p w = (ok, w')"
  shows "written V h w' = written V h w @ (if ok then [p] else [])" "acked V h w' = acked V h w"
    "broken V h w' \<longleftrightarrow> broken V h w \<or> \<not> ok" "ok \<Longrightarrow> \<not> broken V h w" "arrived V w \<subseteq> arrived V w'"
  using assms unfolding acking_relay_def by blast+

lemma acking_read:
  assumes "acking_relay A V" "stream_read A h w = (ev, w')"
  shows "written V h w' = written V h w" "broken V h w' = broken V h w" "arrived V w \<subseteq> arrived V w'"
    "acked V h w' = acked V h w + (if is_ack ev then 1 else 0)"
    "is_ack ev \<Longrightarrow> acked V h w < length (written V h w) \<and> written V h w ! acked V h w \<in> arrived V w'"
  using assms unfolding acking_relay_def by blast+

lemma acking_push:
  assumes "acking_relay A V" "stub_push_v2 A ch md t w = (h, w')"
  shows "written V h w' = []" "acked V h w' = 0" "\<not> broken V h w'" "arrived V w \<subseteq> arrived V w'"
proof -
  show "written V h w' = []" "acked V h w' = 0" "\<not> broken V h w'"
    using assms unfolding acking_relay_def by blast+
  have "net_obeys A (\<lambda>w w'. arrived V w \<subseteq> arrived V w')"
    using assms(1) by (simp add: acking_relay_def)
  from net_obeysD(11) [OF this, of w ch md t] show "arrived V w \<subseteq> arrived V w'"
    using assms(2) by simp
qed

lemma arrived_stays: "acking_relay A V \<Longrightarrow> net_obeys A (\<lambda>w w'. arrived V w \<subseteq> arrived V w')"
  by (simp add: acking_relay_def)

section \<open>A stream and the ledger of its client\<close>

text \<open>
  Every acknowledgement read stands for a packet of the stream that has arrived, and the stream has accepted the packets \<open>L\<close> of the ledger; when
  a write has failed, it may have accepted fewer of them.
\<close>

definition acks_good :: "'w relay_view \<Rightarrow> nat \<Rightarrow> 'w \<Rightarrow> bool" where
  "acks_good V h w \<longleftrightarrow> (\<forall>i < acked V h w. i < length (written V h w) \<and> written V h w ! i \<in> arrived V w)"

definition stream_ok :: "'w relay_view \<Rightarrow> nat \<Rightarrow> packet list \<Rightarrow> 'w \<Rightarrow> bool" where
  "stream_ok V h L w \<longleftrightarrow> acks_good V h w \<and>
     (if broken V h w then \<forall>i. i < length L \<longrightarrow> i < length (written V h w) \<longrightarrow> written V h w ! i = L ! i else written V h w = L)"

abbreviation stream_ledger :: "'w relay_view \<Rightarrow> nat \<Rightarrow> packet list \<Rightarrow> int \<Rightarrow> rpc_client \<times> 'w \<Rightarrow> bool" where
  "stream_ledger V h L \<equiv> ledger (acked V h) (stream_ok V h L) h 0 0 L"

lemma acks_good_side:
  assumes "acks_good V h w" "same_streams V w w'"
  shows "acks_good V h w'"
  using assms unfolding acks_good_def same_streams_def by (metis subsetD)

lemma acks_good_read:
  assumes "acking_relay A V" "acks_good V h w" "stream_read A h w = (ev, w')"
  shows "acks_good V h w'"
proof -
  note r = acking_read [OF assms(1,3)]
  show ?thesis
    unfolding acks_good_def
  proof (intro allI impI)
    fix i assume "i < acked V h w'"
    then consider "i < acked V h w" | "is_ack ev" "i = acked V h w"
      using r(4) by (fastforce split: if_splits)
    then show "i < length (written V h w') \<and> written V h w' ! i \<in> arrived V w'"
    proof cases
      case 1
      then show ?thesis
        using assms(2) r(1,3) unfolding acks_good_def by auto
    next
      case 2
      then show ?thesis
        using r(1,5) by simp
    qed
  qed
qed

lemma counts_stream:
  assumes "acking_relay A V" "\<And>w w'. acks_good V h w' \<Longrightarrow> written V h w' = written V h w \<Longrightarrow> broken V h w' = broken V h w \<Longrightarrow> K w \<Longrightarrow> K w'"
    and "\<And>w. K w \<Longrightarrow> acks_good V h w"
  shows "counts_acks A h (acked V h) K"
  unfolding counts_acks_def
proof (intro conjI allI impI)
  fix w assume K: "K w"
  obtain ev w' where r: "stream_read A h w = (ev, w')"
    by fastforce
  note read = acking_read [OF assms(1) r]
  show "K (snd (stream_read A h w))"
    using assms(2) [OF acks_good_read [OF assms(1) assms(3) [OF K] r] read(1,2) K] r by simp
  show "acked V h (snd (stream_read A h w)) = acked V h w + (if is_ack (fst (stream_read A h w)) then 1 else 0)"
    using read(4) r by simp
next
  have "K w'" "acked V h w' = acked V h w" if "same_streams V w w'" "K w" for w w'
    using assms(2) [OF acks_good_side [OF assms(3) [OF that(2)] that(1)] _ _ that(2)] that(1) by (simp_all add: same_streams_def)
  note keep = this
  have "side_calls A (same_streams V)"
    using assms(1) by (simp add: acking_relay_def)
  then show "side_calls A (\<lambda>w w'. K w \<longrightarrow> K w' \<and> acked V h w' = acked V h w)"
    by (rule side_calls_mono) (use keep in blast)
qed

lemma counts_stream_ok: "acking_relay A V \<Longrightarrow> counts_acks A h (acked V h) (stream_ok V h L)"
  by (rule counts_stream) (auto simp: stream_ok_def split: if_splits)

text \<open>What has left the queue has arrived.\<close>

lemma ledger_arrived:
  assumes "stream_ledger V h L m (c, w)"
  shows "set L \<subseteq> arrived V w \<union> set (m_notack_queue c)"
proof
  fix p assume "p \<in> set L"
  then obtain i where i: "i < length L" "p = L ! i"
    by (auto simp: in_set_conv_nth)
  obtain k where ok: "stream_ok V h L w" and k: "k \<le> length L" "m_notack_queue c = drop k L" "k + pending c + 0 = acked V h w + 0"
    using assms by (rule ledgerE)
  show "p \<in> arrived V w \<union> set (m_notack_queue c)"
  proof (cases "i < k")
    case True
    then have "i < length (written V h w)" "written V h w ! i \<in> arrived V w"
      using ok k(3) unfolding stream_ok_def acks_good_def by auto
    moreover have "written V h w ! i = L ! i"
      using ok calculation(1) i(1) by (auto simp: stream_ok_def split: if_splits)
    ultimately show ?thesis
      using i(2) by simp
  next
    case False
    then have "p = drop k L ! (i - k)" "i - k < length (drop k L)"
      using i by auto
    then show ?thesis
      using k(2) by (metis UnI2 nth_mem)
  qed
qed

lemma ledger_queue: "ledger n K h a b L m (c, w) \<Longrightarrow> set (m_notack_queue c) \<subseteq> set L"
  by (auto simp: ledger_def dest: in_set_dropD)

text \<open>A packet is written on a stream that has accepted all before it.\<close>

lemma stream_ok_write:
  assumes "acking_relay A V" "stream_ok V h L w" "stream_write A h p w = (ok, w')"
  shows "(if ok then stream_ok V h (L @ [p]) else stream_ok V h L) w'"
proof -
  note wr = acking_write [OF assms(1,3)]
  have good: "acks_good V h w'"
    using assms(2) wr(1,2,5) unfolding stream_ok_def acks_good_def by (auto simp: nth_append)
  show ?thesis
  proof (cases ok)
    case True
    then show ?thesis
      using assms(2) wr good by (simp add: stream_ok_def)
  next
    case False
    then show ?thesis
      using assms(2) wr good by (auto simp: stream_ok_def split: if_splits)
  qed
qed

lemma obeys_Send:
  assumes net: "net_obeys A R" and wr: "\<And>h p w. R w (snd (stream_write A h p w))"
  shows "obeys R (Send A ch task content)"
  unfolding Send_def Let_def
  by (auto intro!: obeys_bind obeys_pure obeys_ask obeys_version obeys_interleave net wr net_obeysD(1) [OF net] split: option.split)

lemma arrived_Send:
  assumes "acking_relay A V" "Send A ch task content (c, w) = Some (x, c', w')"
  shows "arrived V w \<subseteq> arrived V w'"
proof -
  have "arrived V v \<subseteq> arrived V (snd (stream_write A h p v))" for h p v
    using acking_write(5) [OF assms(1), of h p v] by (cases "stream_write A h p v") simp
  from obeysD [OF obeys_Send [OF arrived_stays [OF assms(1)] this] assms(2)] show ?thesis .
qed

section \<open>Sending\<close>

text \<open>A client that has not sent yet, or one whose stream has the packets of a ledger.\<close>

definition linked :: "'w relay_view \<Rightarrow> rpc_client \<Rightarrow> 'w \<Rightarrow> bool" where
  "linked V c w \<longleftrightarrow> new_client c \<or> connected_client c \<and> (\<exists>h L. stream_ledger V h L (m_seq c) (c, w))"

definition kept :: "'w relay_view \<Rightarrow> rpc_client \<Rightarrow> 'w \<Rightarrow> packet set" where
  "kept V c w = arrived V w \<union> set (m_notack_queue c)"

lemma new_stream_ledger:
  assumes relay: "acking_relay A V" and net: "relay_net A sent" and new: "new_client c"
    and run: "bind (init_rpc_version A ch) (\<lambda>_. init_sender A ch) (c, w) = Some (Inr (), c', w')"
  obtains h where "stream_ledger V h [] (m_seq c') (c', w')"
proof -
  note conn = version2_client [OF net new run]
  obtain c1 w1 where 1: "init_rpc_version A ch (c, w) = Some (Inr (), c1, w1)" "init_sender A ch (c1, w1) = Some (Inr (), c', w')"
    using run by (auto simp: bind_value)
  have c': "rpc_inv_at (m_seq c') c'" "m_rw_sender c' \<noteq> None" "m_use_rpc_version c' = v2" "m_notack_queue c' = []"
    using conn by (auto simp: connected_client_def)
  have "m_use_rpc_version c1 \<ge> v2"
    using 1(2) c'(3)
    by (auto simp: init_sender_def bind_get_obj bind_ask set_obj_def split: if_splits)
  then obtain h where h: "m_rw_sender c' = Some h" "stub_push_v2 A (m_chl c1) (add_metadata c1 ch) 10000 w1 = (h, w')"
      "m_recv_thread c' = Joinable Spawned"
    using 1(2) by (cases "stub_push_v2 A (m_chl c1) (add_metadata c1 ch) 10000 w1")
      (auto simp: init_sender_def runs set_obj_def raise_def split: thread_handle.splits)
  have "stream_ok V h [] w'"
    using acking_push [OF relay h(2)] by (simp add: stream_ok_def acks_good_def)
  then show ?thesis
    using c' h acking_push(2) [OF relay h(2)]
    by (intro that [of h] ledgerI [where k = 0]) (simp_all add: pending_def)
qed

lemma Send_kept:
  assumes relay: "acking_relay A V" and net: "relay_net A sent" and link: "linked V c w" and mx: "m_seq c < int_max"
    and run: "Send A ch task content (c, w) = Some (Inr (ok, rest), c', w')"
  shows "linked V c' w' \<and> kept V c w \<subseteq> kept V c' w' \<and>
    (ok \<longrightarrow> (\<exists>p \<in> kept V c' w'. seq (header p) = m_seq c \<and> body p = content))"
proof -
  have connected: "linked V c' w' \<and> kept V c w \<subseteq> kept V c' w' \<and>
      (ok \<longrightarrow> (\<exists>p \<in> kept V c' w'. seq (header p) = m_seq c \<and> body p = content))"
    if conn: "connected_client c" and led: "stream_ledger V h L (m_seq c) (c, w)"
    and mx: "m_seq c < int_max" and run: "Send A ch task content (c, w) = Some (Inr (ok, rest), c', w')" for h L c w
  proof -
    let ?p = "seq_packet c task content"
    have v: "m_use_rpc_version c \<ge> v2"
      using conn by (simp add: connected_client_def)
    have wr: "acked V h (snd (stream_write A h ?p u)) = acked V h u \<and>
        (if fst (stream_write A h ?p u) then stream_ok V h (L @ [?p]) else stream_ok V h L) (snd (stream_write A h ?p u))"
      if "stream_ok V h L u" for u
    proof -
      obtain ok' u' where w: "stream_write A h ?p u = (ok', u')"
        by fastforce
      show ?thesis
        using stream_ok_write [OF relay that w] acking_write(2) [OF relay w] w by simp
    qed
    have led': "if ok then stream_ledger V h (L @ [?p]) (m_seq c') (c', w') else stream_ledger V h L (m_seq c') (c', w')"
      by (rule Send_ledger [OF counts_stream_ok [OF relay] counts_stream_ok [OF relay] led v wr run])
    let ?L = "if ok then L @ [?p] else L"
    have l: "stream_ledger V h ?L (m_seq c') (c', w')"
      using led' by (simp split: if_splits)
    have "set ?L \<subseteq> kept V c' w'"
      using ledger_arrived [OF l] by (simp add: kept_def)
    moreover have "set (m_notack_queue c) \<subseteq> set ?L"
      using ledger_queue [OF led] by auto
    moreover have "arrived V w \<subseteq> kept V c' w'"
      using arrived_Send [OF relay run] by (auto simp: kept_def)
    ultimately have "kept V c w \<subseteq> kept V c' w'" "ok \<longrightarrow> ?p \<in> kept V c' w'"
      by (auto simp: kept_def)
    moreover have "linked V c' w'"
      using l send_connected [OF net conn mx run] unfolding linked_def sent_one_def by blast
    ultimately show ?thesis
      by (intro conjI impI bexI [of _ ?p]) simp_all
  qed
  show ?thesis
  proof (cases "new_client c")
    case False
    then show ?thesis
      using link connected [OF _ _ mx run] unfolding linked_def by blast
  next
    case True
    obtain c1 w1 where 1: "bind (init_rpc_version A ch) (\<lambda>_. init_sender A ch) (c, w) = Some (Inr (), c1, w1)"
      and run1: "Send A ch task content (c1, w1) = Some (Inr (ok, rest), c', w')"
      by (rule Send_new [OF net True run])
    obtain h where led: "stream_ledger V h [] (m_seq c1) (c1, w1)"
      by (rule new_stream_ledger [OF relay net True 1])
    have c1: "connected_client c1" "m_seq c1 = 0" "m_seq c = 0" "m_notack_queue c = []"
      using version2_client [OF net True 1] True by (simp_all add: new_client_def fresh_client_def)
    have "obeys (\<lambda>w w'. arrived V w \<subseteq> arrived V w') (bind (init_rpc_version A ch) (\<lambda>_. init_sender A ch))"
      using arrived_stays [OF relay] by (intro obeys_bind obeys_version) (auto intro: net_obeysD(1))
    then have "arrived V w \<subseteq> arrived V w1"
      using 1 by (rule obeysD)
    then have "kept V c w \<subseteq> kept V c1 w1"
      by (auto simp: kept_def c1(4))
    then show ?thesis
      using connected [OF c1(1) led _ run1] c1(2,3) by (auto simp: int_max_def)
  qed
qed

section \<open>Reconnecting\<close>

lemma resend_stream:
  assumes "acking_relay A V"
  shows "resend A h es (c, w) = Some (Inr ok, c', w') \<Longrightarrow> acks_good V h w \<Longrightarrow> \<not> broken V h w \<Longrightarrow> written V h w @ es = L \<Longrightarrow>
    stream_ok V h L w' \<and> acked V h w' = acked V h w \<and> arrived V w \<subseteq> arrived V w'"
proof (induction es arbitrary: w)
  case Nil
  then show ?case
    by (auto simp: ret_def stream_ok_def)
next
  case (Cons e es)
  obtain ok1 w1 where wr: "stream_write A h e w = (ok1, w1)"
    by fastforce
  note w1 = acking_write [OF assms wr]
  have good: "acks_good V h w1"
    using Cons.prems(2) w1(1,2,5) unfolding acks_good_def by (auto simp: nth_append)
  show ?case
  proof (cases ok1)
    case True
    then have "resend A h es (c, w1) = Some (Inr ok, c', w')"
      using Cons.prems(1) wr by (simp add: prog)
    from Cons.IH [OF this good] show ?thesis
      using True w1 Cons.prems(3,4) by auto
  next
    case False
    then have "w' = w1"
      using Cons.prems(1) wr by (simp add: prog)
    then show ?thesis
      using False w1 good Cons.prems(3,4) by (auto simp: stream_ok_def nth_append)
  qed
qed

lemma reconnect_kept:
  assumes relay: "acking_relay A V" and net: "relay_net A sent" and redis: "ch_use_redis ch" and cl: "m_client ch = Live c"
    and conn: "connected_client c" and link: "linked V c w" and run: "reconnect A (ch, w) = Some (Inr ok, ch', w')"
  shows "\<exists>c'. ch' = ch\<lparr>m_client := Live c'\<rparr> \<and> linked V c' w' \<and> kept V c w \<subseteq> kept V c' w'"
proof -
  let ?R = "\<lambda>w w'. arrived V w \<subseteq> arrived V w'"
  have R: "net_obeys A ?R"
    by (rule arrived_stays [OF relay])
  obtain h L where led: "stream_ledger V h L (m_seq c) (c, w)"
    using link conn by (auto simp: linked_def new_client_def fresh_client_def connected_client_def)
  obtain c1 w1 w6 c0 ch6 c' where c1: "finish A ch (c, w) = Some (Inr (), c1, w1)" "rpc_inv_at (m_seq c) c1" "evolves c c1"
    and w6: "\<forall>R. net_obeys A R \<longrightarrow> R w1 w6" and c0: "new_client c0"
    and set: "set_continue_status A (ch6 :: channel) (m_notack_queue c1, m_seq c, m_recv_idx c, v2, m_use_redis_data_version c) (c0, w6) = Some (Inr ok, c', w')"
    and ch': "ch' = ch\<lparr>m_client := Live c'\<rparr>"
    by (rule reconnect_parts [OF redis cl conn run])
  let ?q = "m_notack_queue c1"
  have l1: "stream_ledger V h L (m_seq c) (c1, w1)"
    by (rule finish_ledger [OF counts_stream_ok [OF relay] led _ _ _ c1(1)]) (use conn in \<open>simp_all add: connected_client_def\<close>)
  have w1: "arrived V w \<subseteq> arrived V w1"
    by (rule obeysD [OF obeys_finish [OF R] c1(1)])
  have old: "kept V c w \<subseteq> arrived V w1 \<union> set ?q"
    using ledger_queue [OF led] ledger_arrived [OF l1] w1 by (auto simp: kept_def)
  have fresh: "fresh_client c0"
    using c0 by (simp add: new_client_def)
  have q: "packet_seqs ?q = [m_seq c - int (length ?q) .. m_seq c - 1]"
    using c1(2) by (simp add: rpc_inv_at_def)
  obtain h2 w7 c7 w8 where push: "stub_push_v2 A (m_chl c0) (add_metadata (c0\<lparr>m_use_rpc_version := v2,
       m_use_redis_data_version := m_use_redis_data_version c, m_notack_queue := ?q, m_seq := m_seq c, m_recv_idx := m_recv_idx c\<rparr>) ch6) 10000 w6 = (h2, w7)"
    and c7: "rpc_inv_at (m_seq c) c7" "m_rw_sender c7 = Some h2" "pending c7 = 0" "m_notack_queue c7 = ?q"
    and i: "interleave A (c7, w7) = Some (Inr (), c', w8)" and r: "resend A h2 (m_notack_queue c') (c', w8) = Some (Inr ok, c', w')"
    by (rule set_continue_parts [OF fresh order_refl set q])
  note p = acking_push [OF relay push]
  let ?K = "\<lambda>u. acks_good V h2 u \<and> written V h2 u = [] \<and> \<not> broken V h2 u"
  have counts: "counts_acks A h2 (acked V h2) ?K"
    by (rule counts_stream [OF relay]) auto
  have "ledger (acked V h2) ?K h2 0 0 ?q (m_seq c) (c7, w7)"
    using c7 p by (intro ledgerI [where k = 0]) (simp_all add: acks_good_def)
  then have "ledger (acked V h2) ?K h2 0 0 ?q (m_seq c) (c', w8)"
    by (rule interleave_ledger [OF counts _ i])
  then obtain k where k: "rpc_inv_at (m_seq c) c'" "m_rw_sender c' = Some h2" "?K w8" "m_notack_queue c' = drop k ?q"
      "k + pending c' + 0 = acked V h2 w8 + 0"
    by (rule ledgerE)
  have "acked V h2 w8 = 0"
    using k(3) unfolding acks_good_def by (metis gr0I length_0_conv less_nat_zero_code)
  then have zero: "k = 0" "pending c' = 0" "acked V h2 w8 = 0"
    using k(5) by simp_all
  have s: "stream_ok V h2 ?q w'" "acked V h2 w' = 0" "arrived V w8 \<subseteq> arrived V w'"
    using resend_stream [OF relay r, of ?q] k(3,4) zero by simp_all
  have "stream_ledger V h2 ?q (m_seq c) (c', w')"
    using k(1,2,4) zero s by (intro ledgerI [where k = 0]) simp_all
  moreover have "connected_client c'" "m_seq c' = m_seq c"
    using reconnect_client [OF net redis cl conn run] ch' by (auto dest!: arg_cong [of _ _ m_client])
  ultimately have "linked V c' w'"
    by (auto simp: linked_def)
  moreover have "arrived V w1 \<subseteq> arrived V w6"
    using w6 R by blast
  moreover have "arrived V w7 \<subseteq> arrived V w8"
    by (rule obeysD [OF obeys_interleave [OF R] i])
  ultimately have "arrived V w1 \<subseteq> arrived V w'"
    using p(4) s(3) by blast
  then have "kept V c w \<subseteq> kept V c' w'"
    using old k(4) zero(1) by (auto simp: kept_def)
  then show ?thesis
    using ch' \<open>linked V c' w'\<close> by blast
qed

section \<open>The retry loop\<close>

text \<open>
  \<open>retained V w ch msgs\<close>: of each of the messages \<open>msgs\<close>, the packet with its number and its contents has arrived at the relay or is in the queue of the
  channel's client.
\<close>

definition retained :: "'w relay_view \<Rightarrow> 'w \<Rightarrow> channel \<Rightarrow> bytes list \<Rightarrow> bool" where
  "retained V w ch msgs \<longleftrightarrow>
     (\<exists>c. m_client ch = Live c \<and> linked V c w \<and> (\<forall>i < length msgs. \<exists>p \<in> kept V c w. seq (header p) = int i \<and> body p = msgs ! i))"

lemma kept_more:
  assumes "\<forall>i < length msgs. \<exists>p \<in> X. seq (header p) = int i \<and> body p = msgs ! i" "X \<subseteq> Y"
  shows "\<forall>i < length msgs. \<exists>p \<in> Y. seq (header p) = int i \<and> body p = msgs ! i"
  using assms by blast

lemma kept_snoc:
  assumes "\<forall>i < length msgs. \<exists>p \<in> Y. seq (header p) = int i \<and> body p = msgs ! i"
    and "\<exists>p \<in> Y. seq (header p) = int (length msgs) \<and> body p = m"
  shows "\<forall>i < length (msgs @ [m]). \<exists>p \<in> Y. seq (header p) = int i \<and> body p = (msgs @ [m]) ! i"
  using assms by (auto simp: nth_append less_Suc_eq)

lemma send_client_retained:
  assumes relay: "acking_relay A V" and net: "relay_net A sent" and inv: "sender_inv (sent w) ch msgs" and ret: "retained V w ch msgs"
    and mx: "int (length msgs) < int_max"
    and run: "on_client (\<lambda>ch. Send A ch (m_channelid ch) str) (ch, w) = Some (Inr (ok, rest), ch', w')"
  shows "retained V w' ch' (if ok then msgs @ [str] else msgs)"
proof -
  obtain c where c: "m_client ch = Live c" "linked V c w"
    and k: "\<forall>i < length msgs. \<exists>p \<in> kept V c w. seq (header p) = int i \<and> body p = msgs ! i"
    using ret by (auto simp: retained_def)
  have n: "m_seq c = int (length msgs)"
    using inv c(1) by (auto simp: sender_inv_def)
  obtain c' where c': "Send A ch (m_channelid ch) str (c, w) = Some (Inr (ok, rest), c', w')" "ch' = ch\<lparr>m_client := Live c'\<rparr>"
    using run c(1) by (rule on_client_value)
  have s: "linked V c' w'" "kept V c w \<subseteq> kept V c' w'" "ok \<longrightarrow> (\<exists>p \<in> kept V c' w'. seq (header p) = int (length msgs) \<and> body p = str)"
    using Send_kept [OF relay net c(2) _ c'(1)] mx n by auto
  have more: "\<forall>i < length msgs. \<exists>p \<in> kept V c' w'. seq (header p) = int i \<and> body p = msgs ! i"
    by (rule kept_more [OF k s(2)])
  then show ?thesis
    using kept_snoc [OF more] s(1,3) c'(2) by (cases ok) (auto simp: retained_def)
qed

lemma reconnect_retained:
  assumes relay: "acking_relay A V" and net: "relay_net A sent" and redis: "ch_use_redis ch"
    and cl: "m_client ch = Live c" "connected_client c" and ret: "retained V w ch msgs"
    and run: "reconnect A (ch, w) = Some (Inr ok, ch', w')"
  shows "retained V w' ch' msgs"
proof -
  have c: "linked V c w" "\<forall>i < length msgs. \<exists>p \<in> kept V c w. seq (header p) = int i \<and> body p = msgs ! i"
    using ret cl(1) by (auto simp: retained_def)
  obtain c' where "ch' = ch\<lparr>m_client := Live c'\<rparr>" "linked V c' w'" "kept V c w \<subseteq> kept V c' w'"
    using reconnect_kept [OF relay net redis cl c(1) run] by blast
  then show ?thesis
    using kept_more [OF c(2)] by (auto simp: retained_def)
qed

lemma send_loop_retained:
  assumes relay: "acking_relay A V" and net: "relay_net A sent" and mx: "int (length msgs) < int_max"
  shows "sender_inv (sent w) ch msgs \<Longrightarrow> retained V w ch msgs \<Longrightarrow>
    send_loop A n prev str (ch, w) = Some (Inr (ok, rest), ch', w') \<Longrightarrow>
    (ok \<and> rest = [] \<and> sender_inv (sent w') ch' (msgs @ [str]) \<and> retained V w' ch' (msgs @ [str])) \<or>
    (rest = str \<and> sender_inv (sent w') ch' msgs \<and> retained V w' ch' msgs)"
proof (induction n arbitrary: prev ch w)
  case 0
  then show ?case
    by (auto simp: ret_def)
next
  case (Suc n)
  obtain ok1 rest1 ch1 w1 where 1: "on_client (\<lambda>ch. Send A ch (m_channelid ch) str) (ch, w) = Some (Inr (ok1, rest1), ch1, w1)"
    and 2: "(if ok1 then ret (True, rest1) else bind (reconnect A) (\<lambda>prev'. send_loop A n prev' rest1)) (ch1, w1) =
      Some (Inr (ok, rest), ch', w')"
    using Suc.prems(3) by (auto simp: bind_value)
  obtain c1 where c1: "ch1 = ch\<lparr>m_client := Live c1\<rparr>" "connected_client c1"
    and s1: "if ok1 then rest1 = [] \<and> sender_inv (sent w1) ch1 (msgs @ [str]) else rest1 = str \<and> sender_inv (sent w1) ch1 msgs"
    using send_client_inv [OF net Suc.prems(1) mx 1] by blast
  have r1: "retained V w1 ch1 (if ok1 then msgs @ [str] else msgs)"
    by (rule send_client_retained [OF relay net Suc.prems(1,2) mx 1])
  show ?case
  proof (cases ok1)
    case True
    then show ?thesis
      using 2 s1 r1 by (auto simp: ret_def)
  next
    case False
    obtain p2 ch2 w2 where r: "reconnect A (ch1, w1) = Some (Inr p2, ch2, w2)"
      and l: "send_loop A n p2 str (ch2, w2) = Some (Inr (ok, rest), ch', w')"
      using 2 False s1 by (auto simp: bind_value)
    have cl: "m_client ch1 = Live c1" "ch_use_redis ch1"
      using s1 False c1(1) by (simp_all add: sender_inv_def)
    have "sender_inv (sent w2) ch2 msgs"
      using reconnect_inv [OF net _ cl(1) c1(2) r] s1 False by simp
    moreover have "retained V w2 ch2 msgs"
      using reconnect_retained [OF relay net cl(2,1) c1(2) _ r] r1 False by simp
    ultimately show ?thesis
      using Suc.IH l by blast
  qed
qed

section \<open>Property\<close>

text \<open>
  C10: A \<^verbatim>\<open>real_send\<close> that returns, however often it reconnected, loses nothing and falsifies nothing. Every message that was ever taken has
  arrived at the relay, or is in the queue of the channel's client and is sent again with the next reconnection, in a packet with its number and its
  contents; no other packet is ever written. Either the new message has
  been taken under the next number and the caller's string is empty, or all attempts failed and
  the string still holds it. The traffic counters count the message in both cases.
\<close>
theorem real_send_faithful:
  assumes "relay_net A sent" "acking_relay A V" "sender_inv (sent w) ch msgs" "retained V w ch msgs" "int (length msgs) < int_max"
    and "real_send A str (ch, w) = Some (Inr rest, ch', w')"
  shows "m_bytes_send ch' = m_bytes_send ch + of_nat (length str) \<and> m_packet_send ch' = m_packet_send ch + 1 \<and>
    (rest = [] \<and> sender_inv (sent w') ch' (msgs @ [str]) \<and> retained V w' ch' (msgs @ [str]) \<or>
     rest = str \<and> sender_inv (sent w') ch' msgs \<and> retained V w' ch' msgs)"
proof -
  obtain ok ch1 where l: "send_loop A 120 False str (ch, w) = Some (Inr (ok, rest), ch1, w')"
    and ch': "ch' = statistics_send (of_nat (length str)) ch1"
    using assms(6) by (auto simp: real_send_def bind_value set_obj_def ret_def raise_def split: if_splits)
  have stat: "retained V w' ch' ms = retained V w' ch1 ms" "sender_inv (sent w') ch' ms = sender_inv (sent w') ch1 ms" for ms
    by (simp_all add: ch' retained_def sender_inv_def statistics_send_def)
  show ?thesis
    using real_send_inv [OF assms(1,3,5,6)] send_loop_retained [OF assms(2,1,5,3,4) l] unfolding stat by blast
qed

text \<open>
  A relay to evaluate on: it keeps its streams, with the packets written, the number of those acknowledged and whether a write failed.
\<close>

definition stream_of :: "nat \<Rightarrow> net_world \<Rightarrow> packet list \<times> nat \<times> bool" where
  "stream_of h w = (if h < length (w_streams w) then w_streams w ! h else ([], 0, True))"

definition set_stream :: "nat \<Rightarrow> packet list \<times> nat \<times> bool \<Rightarrow> net_world \<Rightarrow> net_world" where
  "set_stream h s w = w\<lparr>w_streams := (w_streams w)[h := s]\<rparr>"

definition demo_view :: "net_world relay_view" where
  "demo_view = \<lparr>written = (\<lambda>h w. fst (stream_of h w)), acked = (\<lambda>h w. fst (snd (stream_of h w))), broken = (\<lambda>h w. snd (snd (stream_of h w))),
     arrived = (\<lambda>w. set (concat (map fst (w_streams w))))\<rparr>"

definition write_stream :: "nat \<Rightarrow> packet \<Rightarrow> net_world \<Rightarrow> bool \<times> net_world" where
  "write_stream h p w =
     (case stream_of h w of (ps, a, b) \<Rightarrow>
        let (ok, rest) = pick True (w_writes w)
        in if ok \<and> \<not> b then (True, set_stream h (ps @ [p], a, False) (w\<lparr>w_writes := rest, w_sent := w_sent w @ [p]\<rparr>))
           else (False, set_stream h (ps, a, True) (w\<lparr>w_writes := rest\<rparr>)))"

definition read_stream :: "nat \<Rightarrow> net_world \<Rightarrow> read_event \<times> net_world" where
  "read_stream h w =
     (case stream_of h w of (ps, a, b) \<Rightarrow>
        if a < length ps then (Acked (seq (header (ps ! a))), set_stream h (ps, Suc a, b) w) else (Pending, w))"

definition demo_acking :: "net_world net_api" where
  "demo_acking = demo_relay\<lparr>stream_write := write_stream, stream_read := read_stream,
     stub_push_v2 := (\<lambda>ch md t w. (length (w_streams w), w\<lparr>w_streams := w_streams w @ [([], 0, False)]\<rparr>))\<rparr>"

lemma demo_acking_simps [simp]:
  "stream_write demo_acking = write_stream" "stream_read demo_acking = read_stream"
  "stub_push_v2 demo_acking ch md t w = (length (w_streams w), w\<lparr>w_streams := w_streams w @ [([], 0, False)]\<rparr>)"
  "stub_get_version demo_acking ch md w = (VersionOk 3, w)" "schedule demo_acking w = (w_sched w, w)"
  by (simp_all add: demo_acking_def demo_relay_def)

lemma demo_view_simps [simp]:
  "written demo_view h w = fst (stream_of h w)" "acked demo_view h w = fst (snd (stream_of h w))" "broken demo_view h w = snd (snd (stream_of h w))"
  "arrived demo_view w = (\<Union>s \<in> set (w_streams w). set (fst s))"
  by (simp_all add: demo_view_def)

lemma stream_of_set [simp]: "stream_of h (set_stream h s w) = (if h < length (w_streams w) then s else ([], 0, True))"
  by (simp add: stream_of_def set_stream_def)

lemma stream_of_fields [simp]:
  "stream_of h (w\<lparr>w_writes := x\<rparr>) = stream_of h w" "stream_of h (w\<lparr>w_sent := y\<rparr>) = stream_of h w"
  by (simp_all add: stream_of_def)

lemma set_stream_fields [simp]: "w_sent (set_stream h s w) = w_sent w" "w_list (set_stream h s w) = w_list w"
  by (simp_all add: set_stream_def)

lemma set_stream_arrived:
  assumes "stream_of h w = s" "set (fst s) \<subseteq> set (fst s')"
  shows "arrived demo_view w \<subseteq> arrived demo_view (set_stream h s' w)"
proof
  fix p assume "p \<in> arrived demo_view w"
  then obtain t where t: "t \<in> set (w_streams w)" "p \<in> set (fst t)"
    by auto
  from t(1) obtain i where i: "i < length (w_streams w)" "p \<in> set (fst (w_streams w ! i))"
    using t(2) by (metis in_set_conv_nth)
  then have "p \<in> set (fst ((w_streams w)[h := s'] ! i))"
    using assms by (cases "i = h") (auto simp: stream_of_def)
  moreover have "(w_streams w)[h := s'] ! i \<in> set ((w_streams w)[h := s'])"
    using i(1) by simp
  ultimately show "p \<in> arrived demo_view (set_stream h s' w)"
    by (auto simp: set_stream_def)
qed

lemma stream_arrived: "i < length (fst (stream_of h w)) \<Longrightarrow> fst (stream_of h w) ! i \<in> arrived demo_view w"
  by (auto simp: stream_of_def split: if_splits intro!: bexI [OF _ nth_mem [of h "w_streams w"]])

lemma write_stream_law:
  assumes "write_stream h p w = (ok, w')"
  shows "written demo_view h w' = written demo_view h w @ (if ok then [p] else [])" "acked demo_view h w' = acked demo_view h w"
    "broken demo_view h w' \<longleftrightarrow> broken demo_view h w \<or> \<not> ok" "ok \<longrightarrow> \<not> broken demo_view h w"
    "arrived demo_view w \<subseteq> arrived demo_view w'" "w_sent w' = w_sent w @ (if ok then [p] else [])"
proof -
  obtain ps a b where s: "stream_of h w = (ps, a, b)"
    by (cases "stream_of h w")
  obtain x rest where x: "pick True (w_writes w) = (x, rest)"
    by fastforce
  have out: "h < length (w_streams w) \<or> ps = [] \<and> a = 0 \<and> b"
    using s by (auto simp: stream_of_def split: if_splits)
  show "written demo_view h w' = written demo_view h w @ (if ok then [p] else [])" "acked demo_view h w' = acked demo_view h w"
    "broken demo_view h w' \<longleftrightarrow> broken demo_view h w \<or> \<not> ok" "ok \<longrightarrow> \<not> broken demo_view h w" "w_sent w' = w_sent w @ (if ok then [p] else [])"
    using assms s x out by (auto simp: write_stream_def split: if_splits)
  have more: "arrived demo_view w \<subseteq> arrived demo_view (set_stream h s' u)" if "w_streams u = w_streams w" "set ps \<subseteq> set (fst s')" for s' u
  proof -
    have "stream_of h u = (ps, a, b)"
      using s that(1) unfolding stream_of_def by (simp only:)
    from set_stream_arrived [OF this, of s'] show ?thesis
      using that by simp
  qed
  show "arrived demo_view w \<subseteq> arrived demo_view w'"
  proof (cases "x \<and> \<not> b")
    case True
    then have "w' = set_stream h (ps @ [p], a, False) (w\<lparr>w_writes := rest, w_sent := w_sent w @ [p]\<rparr>)"
      using assms s x by (simp add: write_stream_def)
    then show ?thesis
      using more [of "w\<lparr>w_writes := rest, w_sent := w_sent w @ [p]\<rparr>" "(ps @ [p], a, False)"] by auto
  next
    case False
    then have "w' = set_stream h (ps, a, True) (w\<lparr>w_writes := rest\<rparr>)"
      using assms s x by (auto simp: write_stream_def)
    then show ?thesis
      using more [of "w\<lparr>w_writes := rest\<rparr>" "(ps, a, True)"] by auto
  qed
qed

lemma read_stream_law:
  assumes "read_stream h w = (ev, w')"
  shows "written demo_view h w' = written demo_view h w" "broken demo_view h w' = broken demo_view h w" "arrived demo_view w \<subseteq> arrived demo_view w'"
    "acked demo_view h w' = acked demo_view h w + (if is_ack ev then 1 else 0)" "w_sent w' = w_sent w"
    "is_ack ev \<longrightarrow> acked demo_view h w < length (written demo_view h w) \<and> written demo_view h w ! acked demo_view h w \<in> arrived demo_view w'"
proof -
  obtain ps a b where s: "stream_of h w = (ps, a, b)"
    by (cases "stream_of h w")
  have h: "h < length (w_streams w)" if "a < length ps"
    using s that by (auto simp: stream_of_def split: if_splits)
  show "written demo_view h w' = written demo_view h w" "broken demo_view h w' = broken demo_view h w"
    "acked demo_view h w' = acked demo_view h w + (if is_ack ev then 1 else 0)" "w_sent w' = w_sent w"
    using assms s h by (auto simp: read_stream_def split: if_splits)
  have "arrived demo_view w \<subseteq> arrived demo_view (set_stream h (ps, Suc a, b) w)"
    by (rule set_stream_arrived [OF s]) simp
  then show more: "arrived demo_view w \<subseteq> arrived demo_view w'"
    using assms s by (auto simp: read_stream_def simp del: demo_view_simps split: if_splits)
  have "is_ack ev \<longrightarrow> a < length ps"
    using assms s by (auto simp: read_stream_def split: if_splits)
  then show "is_ack ev \<longrightarrow> acked demo_view h w < length (written demo_view h w) \<and> written demo_view h w ! acked demo_view h w \<in> arrived demo_view w'"
    using more stream_arrived [of a h w] s by auto
qed

lemma demo_acking_calls:
  "redis_open demo_acking = redis_open demo_net" "redis_close demo_acking = redis_close demo_net" "redis_ping demo_acking = redis_ping demo_net"
  "redis_hset demo_acking = redis_hset demo_net" "redis_expire demo_acking = redis_expire demo_net" "redis_lpush demo_acking = redis_lpush demo_net"
  "stub_push demo_acking = stub_push demo_net" "stream_writes_done demo_acking = stream_writes_done demo_net"
  "stream_finish demo_acking = stream_finish demo_net" "chan_create demo_acking = chan_create demo_net"
  "chan_connected demo_acking = chan_connected demo_net" "chan_ready demo_acking = chan_ready demo_net"
  "chan_wait_shutdown demo_acking = chan_wait_shutdown demo_net" "steady_ms demo_acking = steady_ms demo_net" "sleep_ms demo_acking = sleep_ms demo_net"
  by (simp_all add: demo_acking_def demo_relay_def)

lemma demo_acking_obeys:
  assumes "preorder R" "\<And>h w. R w (snd (read_stream h w))" "\<And>w. R w (w\<lparr>w_streams := w_streams w @ [([], 0, False)]\<rparr>)"
    and "\<And>w x. R w (w\<lparr>w_connects := x\<rparr>)" "\<And>w t. R w (w\<lparr>w_clock := t\<rparr>)"
  shows "net_obeys demo_acking R"
proof -
  have "R w w" for w
    using assms(1) by (simp add: preorder_def)
  moreover have "R u w" if "R u v" "R v w" for u v w
    using assms(1) that unfolding preorder_def by blast
  ultimately show ?thesis
    using assms by (auto simp: net_obeys_def thread_respects_def demo_acking_calls split: prod.splits)
qed

lemma demo_acking_relay: "acking_relay demo_acking demo_view"
proof -
  have "side_calls demo_acking (same_streams demo_view)"
    by (simp add: side_calls_def same_streams_def demo_acking_calls)
  moreover have "net_obeys demo_acking (\<lambda>w w'. arrived demo_view w \<subseteq> arrived demo_view w')"
  proof (rule demo_acking_obeys)
    show "arrived demo_view w \<subseteq> arrived demo_view (snd (read_stream h w))" for h w
      using read_stream_law(3) [of h w] by (metis prod.collapse)
  qed (auto simp: preorder_def)
  moreover have "written demo_view h w' = [] \<and> acked demo_view h w' = 0 \<and> \<not> broken demo_view h w'"
    if "stub_push_v2 demo_acking ch md t w = (h, w')" for ch md t w h w'
    using that by (auto simp: stream_of_def nth_append)
  ultimately show ?thesis
    unfolding acking_relay_def using write_stream_law(1-5) read_stream_law(1-4,6) by (simp del: demo_view_simps)
qed

lemma demo_acking_net: "relay_net demo_acking w_sent"
proof -
  have read: "w_sent (snd (read_stream h w)) = w_sent w" for h w
    using read_stream_law(5) [of h w] by (metis prod.collapse)
  have "net_obeys demo_acking (\<lambda>w w'. w_sent w' = w_sent w)"
    by (rule demo_acking_obeys) (auto simp: preorder_def read)
  moreover have "w_sent (snd (write_stream h p w)) = w_sent w @ (if fst (write_stream h p w) then [p] else [])" for h p w
    using write_stream_law(6) [of h p w] by (metis prod.collapse)
  ultimately show ?thesis
    by (simp add: relay_net_def records_writes_def net_obeysD(2) demo_acking_calls)
qed

text \<open>Nothing has been sent yet; the message is sent and its acknowledgement is not read.\<close>

definition fresh_channel :: channel where
  "fresh_channel = demo_channel\<lparr>m_client := Live demo_fresh\<rparr>"

lemma fresh_channel_inv [simp]: "sender_inv [] fresh_channel []" "retained demo_view demo_world fresh_channel []"
proof -
  have "new_client demo_fresh"
    by (simp add: new_client_def redis_set_def) (simp add: demo_fresh_def)
  then show "sender_inv [] fresh_channel []" "retained demo_view demo_world fresh_channel []"
    by (auto simp: sender_inv_def retained_def linked_def fresh_channel_def demo_channel_def channel_members_def demo_fresh_def)
qed

lemma fresh_real_send:
  "\<exists>ch' w'. real_send demo_acking [5] (fresh_channel, demo_world) = Some (Inr [], ch', w')"
proof -
  have n: "send_loop demo_acking 120 False [5] = send_loop demo_acking (Suc 119) False [5]"
    by simp
  have "\<exists>c' w'. Send demo_acking ch ''task'' [5] (demo_fresh, demo_world) = Some (Inr (True, []), c', w')" for ch :: channel
    by (simp add: Send_def init_rpc_version_def init_sender_def interleave_def runs prog demo_fresh_def v2_def not_inited_def
        config_support_max_version_def write_stream_def stream_of_def set_stream_def int_max_def Let_def numeral_eq_Suc)
  then obtain c' w' where "Send demo_acking fresh_channel ''task'' [5] (demo_fresh, demo_world) = Some (Inr (True, []), c', w')"
    by blast
  moreover have "m_client fresh_channel = Live demo_fresh" "m_channelid fresh_channel = ''task''"
    by (simp_all add: fresh_channel_def demo_channel_def channel_members_def)
  ultimately have 1: "on_client (\<lambda>ch. Send demo_acking ch (m_channelid ch) [5]) (fresh_channel, demo_world) =
      Some (Inr (True, []), fresh_channel\<lparr>m_client := Live c'\<rparr>, w')"
    by (simp add: on_client_def)
  have 2: "send_loop demo_acking (Suc 119) False [5] (fresh_channel, demo_world) =
      Some (Inr (True, []), fresh_channel\<lparr>m_client := Live c'\<rparr>, w')"
    unfolding send_loop.simps(2) by (rule bind_runI, rule 1) (simp add: ret_def)
  show ?thesis
    unfolding real_send_def n by (intro exI, rule bind_runI, rule 2) (simp add: bind_set_obj ret_def)
qed

theorem real_send_faithful_witness:
  "\<exists>ch' w'. real_send demo_acking [5] (fresh_channel, demo_world) = Some (Inr [], ch', w') \<and>
    m_packet_send ch' = m_packet_send fresh_channel + 1 \<and> retained demo_view w' ch' [[5]]"
proof -
  obtain ch' w' where run: "real_send demo_acking [5] (fresh_channel, demo_world) = Some (Inr [], ch', w')"
    using fresh_real_send by blast
  from real_send_faithful [OF demo_acking_net demo_acking_relay _ fresh_channel_inv(2) _ run] show ?thesis
    using run by (simp add: int_max_def)
qed

end
