(* ===== verification/RpcReceive.thy ===== *)
theory RpcReceive imports RpcDelivery NetDemo begin

text \<open>
  \<^verbatim>\<open>RpcClient::Recv\<close> against its specification: a call delivers exactly what \<^verbatim>\<open>scan\<close> says of the
  elements it has popped, and over the elements that the relay writes for a stream of messages
  this is each message once, in order. Also: calls of \<^verbatim>\<open>Recv\<close> return.
\<close>

section \<open>A call of \<^verbatim>\<open>Recv\<close>\<close>

text \<open>
  A view of the world that lists the elements popped from the Redis list: a \<^verbatim>\<open>brpop\<close> that returns
  an element appends it, nothing else changes it.
\<close>

definition records_pops :: "('w, 'z) net_api_scheme \<Rightarrow> ('w \<Rightarrow> bytes list) \<Rightarrow> bool" where
  "records_pops A popped \<longleftrightarrow>
     (\<forall>k h key t w. popped (snd (redis_brpop A k h key t w)) =
        popped w @ (case fst (redis_brpop A k h key t w) of Inr (Some (_, v)) \<Rightarrow> [v] | _ \<Rightarrow> [])) \<and>
     thread_respects A (\<lambda>w w'. popped w' = popped w) \<and>
     (\<forall>ms w. popped (sleep_ms A ms w) = popped w)"

lemma brpop_call:
  assumes "redis_ready r"
  obtains k h where "(brpop A r key t :: ('c \<times> 'w, _) prog) = redis_call (redis_brpop A k h key t)"
proof (cases "m_use_cluster r")
  case True
  then obtain h where "redis_cluster r = Live h"
    using assms by (auto simp: redis_ready_def)
  then have "(brpop A r key t :: ('c \<times> 'w, _) prog) = redis_call (redis_brpop A ClusterServer h key t)"
    using True by (simp add: brpop_def bind_def ret_def fun_eq_iff)
  then show ?thesis by (rule that)
next
  case False
  then obtain h where "redis r = Live h"
    using assms by (auto simp: redis_ready_def)
  then have "(brpop A r key t :: ('c \<times> 'w, _) prog) = redis_call (redis_brpop A SingleServer h key t)"
    using False by (simp add: brpop_def bind_def ret_def fun_eq_iff)
  then show ?thesis by (rule that)
qed

lemma brpop_run:
  fixes c :: 'c and w :: 'w
  assumes "redis_ready r"
  obtains (error) m w1 where "brpop A r key t (c, w) = Some (Inl (RedisError m), c, w1)"
      "\<forall>popped. records_pops A popped \<longrightarrow> popped w1 = popped w"
  | (nothing) w1 where "brpop A r key t (c, w) = Some (Inr None, c, w1)"
      "\<forall>popped. records_pops A popped \<longrightarrow> popped w1 = popped w"
  | (element) k v w1 where "brpop A r key t (c, w) = Some (Inr (Some (k, v)), c, w1)"
      "\<forall>popped. records_pops A popped \<longrightarrow> popped w1 = popped w @ [v]"
proof -
  obtain k h where b: "(brpop A r key t :: ('c \<times> 'w, _) prog) = redis_call (redis_brpop A k h key t)"
    using brpop_call [OF assms] .
  obtain x w1 where x: "redis_brpop A k h key t w = (x, w1)"
    by fastforce
  have g: "\<forall>popped. records_pops A popped \<longrightarrow>
      popped w1 = popped w @ (case x of Inr (Some (_, v)) \<Rightarrow> [v] | _ \<Rightarrow> [])"
    using x unfolding records_pops_def by (metis fst_conv snd_conv)
  have run: "brpop A r key t (c, w) = Some (case x of Inl m \<Rightarrow> Inl (RedisError m) | Inr y \<Rightarrow> Inr y, c, w1)"
    using x by (simp add: b redis_call_def bind_def ask_def raise_def ret_def split: sum.split)
  show ?thesis
  proof (cases x)
    case (Inl m)
    show ?thesis
      by (rule error [of m w1]) (use run g Inl in simp_all)
  next
    case (Inr y)
    show ?thesis
    proof (cases y)
      case None
      show ?thesis
        by (rule nothing [of w1]) (use run g Inr None in simp_all)
    next
      case (Some kv)
      show ?thesis
        by (rule element [of "fst kv" "snd kv" w1]) (use run g Inr Some in \<open>cases kv; simp\<close>)+
    qed
  qed
qed

lemma pop_element_run:
  assumes r: "redis_client c = Live r" "redis_ready r"
  obtains (nothing) p w1 where "pop_element A task (c, w) = Some (Inr p, c, w1)" "p \<in> {None, Some None}"
      "\<forall>popped. records_pops A popped \<longrightarrow> popped w1 = popped w"
  | (element) v w1 where "pop_element A task (c, w) = Some (Inr (Some (Some v)), c, w1)"
      "\<forall>popped. records_pops A popped \<longrightarrow> popped w1 = popped w @ [v]"
proof (cases rule: brpop_run [OF r(2), of A "list_key c task" 1 c w])
  case (1 m w1)
  let ?w = "sleep_ms A 1000 w1"
  have "pop_element A task (c, w) = Some (Inr None, c, ?w)"
    using 1(1) r(1)
    by (simp add: pop_element_def catch_redis_error_def try_catch_def bind_def get_obj_def ret_def sleep_def ask_def)
  moreover have "\<forall>popped. records_pops A popped \<longrightarrow> popped ?w = popped w"
    using 1(2) by (simp add: records_pops_def)
  ultimately show ?thesis
    by - (rule nothing [of None ?w], auto)
next
  case (2 w1)
  then have "pop_element A task (c, w) = Some (Inr (Some None), c, w1)"
    using r(1) by (simp add: pop_element_def catch_redis_error_def try_catch_def bind_def get_obj_def ret_def)
  then show ?thesis
    using 2(2) by - (rule nothing [of "Some None" w1], auto)
next
  case (3 k v w1)
  then have "pop_element A task (c, w) = Some (Inr (Some (Some v)), c, w1)"
    using r(1) by (simp add: pop_element_def catch_redis_error_def try_catch_def bind_def get_obj_def ret_def)
  then show ?thesis
    using element 3(2) by blast
qed

text \<open>The iteration of the loop, with the handling of an element as \<^verbatim>\<open>handle_element\<close>.\<close>

definition recv_next :: "('w, 'z) net_api_scheme \<Rightarrow> string \<Rightarrow> bytes \<Rightarrow> bool option \<Rightarrow> nat \<Rightarrow> int \<Rightarrow> verdict \<Rightarrow>
    ('w, bool \<times> bytes \<times> bool option) rpc" where
  "recv_next A task content nr n i v =
     (case v of
        NextTry \<Rightarrow> recv_loop A task content nr n (i + 1)
      | StartOver \<Rightarrow> recv_loop A task content nr n 1
      | Deliver data \<Rightarrow> ret (True, data, nr)
      | Broken \<Rightarrow> ret (False, content, nr))"

definition recv_idle :: "('w, 'z) net_api_scheme \<Rightarrow> string \<Rightarrow> bytes \<Rightarrow> bool option \<Rightarrow> nat \<Rightarrow> int \<Rightarrow>
    ('w, bool \<times> bytes \<times> bool option) rpc" where
  "recv_idle A task content nr n i =
     bind (interleave A) (\<lambda>_.
     bind (get_obj id) (\<lambda>c.
     if m_recv_thread_status c = ThreadFinished \<and> m_notack_queue c \<noteq> [] \<and> nr \<noteq> None
     then ret (False, content, Some True)
     else recv_loop A task content nr n (i + 1)))"

lemma recv_loop_Suc:
  "recv_loop A task content nr (Suc n) i =
     bind (get_obj m_redis_timeout) (\<lambda>t.
     if \<not> (i \<le> t \<or> t = 0) then ret (False, content, nr)
     else
       bind (pop_element A task) (\<lambda>popped.
       case popped of
         None \<Rightarrow> recv_loop A task content nr n (i + 1)
       | Some None \<Rightarrow> recv_idle A task content nr n i
       | Some (Some item) \<Rightarrow> bind (handle_element item) (recv_next A task content nr n i)))"
  unfolding recv_loop.simps handle_element_def recv_next_def [abs_def] recv_idle_def bind_bind ..

declare recv_loop.simps(2) [simp del]

lemma recv_loop_go:
  assumes "i \<le> m_redis_timeout c \<or> m_redis_timeout c = 0" "pop_element A task (c, w) = Some (Inr p, c1, w1)"
  shows "recv_loop A task content nr (Suc n) i (c, w) =
     (case p of
        None \<Rightarrow> recv_loop A task content nr n (i + 1)
      | Some None \<Rightarrow> recv_idle A task content nr n i
      | Some (Some item) \<Rightarrow> bind (handle_element item) (recv_next A task content nr n i)) (c1, w1)"
proof -
  have b: "bind (get_obj f) g (c, w) = g (f c) (c, w)" for f :: "rpc_client \<Rightarrow> int" and g
    by (simp add: bind_def get_obj_def)
  have b2: "bind (pop_element A task) g (c, w) = g p (c1, w1)" for g
    by (simp add: bind_def assms(2))
  have t: "(\<not> (i \<le> m_redis_timeout c \<or> m_redis_timeout c = 0)) = False"
    using assms(1) by blast
  show ?thesis
    unfolding recv_loop_Suc b t if_False b2 ..
qed

lemma recv_loop_timeout:
  assumes "\<not> (i \<le> m_redis_timeout c \<or> m_redis_timeout c = 0)"
  shows "recv_loop A task content nr (Suc n) i (c, w) = Some (Inr (False, content, nr), c, w)"
  using assms by (simp add: recv_loop_Suc bind_def get_obj_def ret_def)

text \<open>What a call of \<^verbatim>\<open>Recv\<close> may change: what the receiving thread changes, the data version and the index.\<close>

definition reads :: "rpc_client \<Rightarrow> rpc_client \<Rightarrow> bool" where
  "reads c c' \<longleftrightarrow> (\<exists>c1. evolves c c1 \<and> c' = set_reader (reader c') c1)"

lemma evolves_reads: "evolves c c1 \<Longrightarrow> reads c1 c' \<Longrightarrow> reads c c'"
  unfolding reads_def using evolves_trans by blast

lemma reads_refl [simp]: "reads c c"
  unfolding reads_def by (rule exI [of _ c]) simp

lemma reads_set_reader: "reads c (set_reader st c)"
  unfolding reads_def by (rule exI [of _ c]) simp

lemma reads_from_set_reader:
  assumes "reads (set_reader st c) c'"
  shows "reads c c'"
proof -
  obtain c1 where c1: "evolves (set_reader st c) c1" "c' = set_reader (reader c') c1"
    using assms unfolding reads_def by blast
  obtain k t st' where "c1 = (set_reader st c)\<lparr>m_notack_queue := drop k (m_notack_queue (set_reader st c)),
      m_recv_thread := t, m_recv_thread_status := st'\<rparr>"
    using c1(1) unfolding evolves_def by blast
  then have "set_reader (reader c) c1 = c\<lparr>m_notack_queue := drop k (m_notack_queue c),
      m_recv_thread := t, m_recv_thread_status := st'\<rparr>"
    by (simp add: set_reader_def reader_def)
  then have "evolves c (set_reader (reader c) c1)"
    unfolding evolves_def by blast
  moreover have "c' = set_reader (reader c') (set_reader (reader c) c1)"
    using c1(2) by simp
  ultimately show ?thesis
    unfolding reads_def by blast
qed

lemma reads_simps:
  assumes "reads c c'"
  shows "m_seq c' = m_seq c" "redis_client c' = redis_client c" "m_use_rpc_version c' = m_use_rpc_version c"
    "m_rw_sender c' = m_rw_sender c" "m_redis_timeout c' = m_redis_timeout c" "m_use_redis c' = m_use_redis c"
    "m_chl c' = m_chl c"
    "\<exists>k. m_notack_queue c' = drop k (m_notack_queue c)"
proof -
  obtain c1 st where "evolves c c1" "c' = set_reader st c1"
    using assms unfolding reads_def by blast
  then show "m_seq c' = m_seq c" "redis_client c' = redis_client c" "m_use_rpc_version c' = m_use_rpc_version c"
    "m_rw_sender c' = m_rw_sender c" "m_redis_timeout c' = m_redis_timeout c" "m_use_redis c' = m_use_redis c"
    "m_chl c' = m_chl c"
    "\<exists>k. m_notack_queue c' = drop k (m_notack_queue c)"
    using evolves_queue [of c c1] evolves_fields [of c c1] by (simp_all add: set_reader_def)
qed

lemma recv_loop_scan:
  assumes rec: "records_pops A popped" and r: "redis_client c = Live r" "redis_ready r" and inv: "rpc_inv_at m c"
    and run: "recv_loop A task content nr n i (c, w) = Some (Inr (ok, out, nr'), c', w')"
  shows "\<exists>new. popped w' = popped w @ new \<and>
    scan (reader c) new = (if ok then [out] else [], reader c') \<and> (\<not> ok \<longrightarrow> out = content) \<and>
    rpc_inv_at m c' \<and> reads c c'"
  using r inv run
proof (induction n arbitrary: i c w)
  case 0
  then show ?case
    by (simp add: stuck_def)
next
  case (Suc n)
  have thr: "thread_respects A (\<lambda>w w'. popped w' = popped w)"
    using rec by (simp add: records_pops_def)
  have nil: ?case
    if "popped w' = popped w" "\<not> ok" "out = content" "rpc_inv_at m c'" "evolves c c'" "reader c' = reader c"
    using that evolves_reads [OF that(5) reads_refl] by (intro exI [of _ "[]"]) simp
  show ?case
  proof (cases "i \<le> m_redis_timeout c \<or> m_redis_timeout c = 0")
    case False
    then have "ok = False" "out = content" "c' = c" "w' = w"
      using Suc.prems(4) recv_loop_timeout [OF False, of A task content nr n w] by simp_all
    then show ?thesis
      using nil Suc.prems(3) by simp
  next
    case go: True
    show ?thesis
    proof (cases rule: pop_element_run [OF Suc.prems(1,2), of A task w])
      case (1 p w1)
      have w1: "popped w1 = popped w"
        using 1(3) rec by blast
      show ?thesis
      proof (cases p)
        case None
        then have "recv_loop A task content nr n (i + 1) (c, w1) = Some (Inr (ok, out, nr'), c', w')"
          using Suc.prems(4) recv_loop_go [OF go 1(1), of content nr n] by simp
        from Suc.IH [OF Suc.prems(1-3) this] show ?thesis
          by (simp only: w1)
      next
        case (Some q)
        then have idle: "recv_idle A task content nr n i (c, w1) = Some (Inr (ok, out, nr'), c', w')"
          using Suc.prems(4) recv_loop_go [OF go 1(1), of content nr n] 1(2) by auto
        obtain c2 w2 where 2: "interleave A (c, w1) = Some (Inr (), c2, w2)" "rpc_inv_at m c2" "evolves c c2"
          and w2: "\<forall>R. thread_respects A R \<longrightarrow> R w1 w2"
          using interleave_total [OF Suc.prems(3), of A w1] by blast
        have w2': "popped w2 = popped w"
          using w2 thr w1 by force
        have rd: "reader c2 = reader c"
          using evolves_fields [OF 2(3)] by (simp add: reader_def)
        show ?thesis
        proof (cases "m_recv_thread_status c2 = ThreadFinished \<and> m_notack_queue c2 \<noteq> [] \<and> nr \<noteq> None")
          case True
          then have "ok = False" "out = content" "c' = c2" "w' = w2"
            using idle 2(1) by (auto simp: recv_idle_def bind_def get_obj_def ret_def)
          then show ?thesis
            using nil 2 w2' rd by simp
        next
          case False
          then have "recv_loop A task content nr n (i + 1) (c2, w2) = Some (Inr (ok, out, nr'), c', w')"
            using idle 2(1) by (auto simp: recv_idle_def bind_def get_obj_def split: if_splits)
          from Suc.IH [OF _ Suc.prems(2) 2(2) this] Suc.prems(1) evolves_fields [OF 2(3)]
          show ?thesis
            using w2' rd evolves_reads [OF 2(3), of c'] by auto
        qed
      qed
    next
      case (2 item w1)
      have w1: "popped w1 = popped w @ [item]"
        using 2(2) rec by blast
      have loop: "bind (handle_element item) (recv_next A task content nr n i) (c, w1) = Some (Inr (ok, out, nr'), c', w')"
        using Suc.prems(4) recv_loop_go [OF go 2(1), of content nr n] by simp
      then obtain v c2 w2 where h: "handle_element item (c, w1) = Some (Inr v, c2, w2)"
        and nxt: "recv_next A task content nr n i v (c2, w2) = Some (Inr (ok, out, nr'), c', w')"
        by (auto simp: bind_value)
      have cl: "w2 = w1" "v = snd (classify (reader c) item)" "c2 = set_reader (fst (classify (reader c) item)) c"
        using handle_element_classify [OF h] by simp_all
      obtain st where st: "classify (reader c) item = (st, v)"
        using cl(2) by (cases "classify (reader c) item") simp
      have c2: "c2 = set_reader st c" "reader c2 = st" "rpc_inv_at m c2"
        using cl(3) st Suc.prems(3) by simp_all
      have go_on: ?thesis if v: "v = NextTry \<or> v = StartOver"
        and k: "recv_loop A task content nr n j (c2, w2) = Some (Inr (ok, out, nr'), c', w')" for j
      proof -
        have "redis_client c2 = Live r"
          using c2(1) Suc.prems(1) by simp
        from Suc.IH [OF this Suc.prems(2) c2(3) k]
        obtain new where new: "popped w' = popped w2 @ new"
          "scan st new = (if ok then [out] else [], reader c')" "\<not> ok \<longrightarrow> out = content" "rpc_inv_at m c'"
          "reads c2 c'"
          unfolding c2(2) by blast
        have "reads c c'"
          using new(5) unfolding c2(1) by (rule reads_from_set_reader)
        moreover have "scan (reader c) (item # new) = (if ok then [out] else [], reader c')"
          using st v new(2) by auto
        ultimately show ?thesis
          using new w1 cl(1) by (intro exI [of _ "item # new"]) auto
      qed
      show ?thesis
      proof (cases v)
        case NextTry
        then show ?thesis
          using go_on [of "i + 1"] nxt by (simp add: recv_next_def)
      next
        case StartOver
        then show ?thesis
          using go_on [of 1] nxt by (simp add: recv_next_def)
      next
        case (Deliver d)
        then have "ok = True" "out = d" "c' = c2" "w' = w2"
          using nxt by (auto simp: recv_next_def ret_def)
        then show ?thesis
          using st Deliver c2 w1 cl(1)
          by (intro exI [of _ "[item]"]) (simp add: reads_set_reader)
      next
        case Broken
        then have "ok = False" "out = content" "c' = c2" "w' = w2"
          using nxt by (auto simp: recv_next_def ret_def)
        then show ?thesis
          using st Broken c2 w1 cl(1)
          by (intro exI [of _ "[item]"]) (simp add: reads_set_reader)
      qed
    qed
  qed
qed

section \<open>Streams of messages\<close>

text \<open>
  What the relay writes into the list for the message \<^verbatim>\<open>m\<close> with number \<^verbatim>\<open>i\<close>, and its control
  elements (a negative index and nothing else). The first element of a version-2 stream carries
  the magic string in front. \<^verbatim>\<open>relay_items msg N dv\<close>: all elements are those of the first \<^verbatim>\<open>N\<close>
  messages \<^verbatim>\<open>msg 0, msg 1, ...\<close>, in any order, repeated or missing.
\<close>

definition relay_element :: "nat \<Rightarrow> bytes \<Rightarrow> bytes" where
  "relay_element i m = le32 (of_nat i) @ m"

definition relay_item :: "(nat \<Rightarrow> bytes) \<Rightarrow> nat \<Rightarrow> bytes \<Rightarrow> bool" where
  "relay_item msg N x \<longleftrightarrow>
     (\<exists>i < N. x = relay_element i (msg i)) \<or> (\<exists>u. x = le32 u \<and> sint u < 0)"

definition relay_items :: "(nat \<Rightarrow> bytes) \<Rightarrow> nat \<Rightarrow> int \<Rightarrow> bytes list \<Rightarrow> bool" where
  "relay_items msg N dv xs \<longleftrightarrow>
     (case xs of
        [] \<Rightarrow> True
      | x # ys \<Rightarrow>
          (if dv = not_inited then \<exists>e. x = data_version_magic_string @ e \<and> relay_item msg N e
           else dv = v2 \<and> relay_item msg N x) \<and>
          (\<forall>y \<in> set ys. relay_item msg N y))"

lemma relay_items_Cons:
  assumes "relay_items msg N dv (x # xs)"
  shows "\<exists>e. strip_version dv x = (v2, e) \<and> relay_item msg N e" "relay_items msg N v2 xs"
  using assms
  by (auto simp: relay_items_def strip_version_def v2_def not_inited_def split: if_splits list.splits)

lemma sint_of_nat_small:
  assumes "i < 2 ^ 31"
  shows "sint (of_nat i :: u32) = int i"
proof -
  have "unat (of_nat i :: u32) = i"
    using assms by (simp add: unat_of_nat)
  then show ?thesis
    using assms sint_small [of "of_nat i :: u32"] by simp
qed

lemma classify_relay_item:
  assumes "relay_item msg N e" "N \<le> 2 ^ 31" "strip_version dv x = (v2, e)"
  shows "classify (dv, r) x = ((v2, r), NextTry) \<or> classify (dv, r) x = ((v2, r), StartOver) \<or>
    classify (dv, r) x = ((v2, r), Broken) \<or>
    (\<exists>i < N. int i = r + 1 \<and> classify (dv, r) x = ((v2, int i), Deliver (msg i)))"
  using assms(1) unfolding relay_item_def
proof
  assume "\<exists>u. e = le32 u \<and> sint u < 0"
  then show ?thesis
    using assms(3) by (auto simp: classify_def Let_def)
next
  assume "\<exists>i<N. e = relay_element i (msg i)"
  then obtain i where i: "i < N" "e = relay_element i (msg i)"
    by blast
  have "sint (un_le32 e) = int i"
    using i assms(2) by (simp add: relay_element_def sint_of_nat_small)
  then show ?thesis
    using assms(3) i by (auto simp: classify_def relay_element_def Let_def intro!: exI [of _ i])
qed

lemma scan_relay_items:
  assumes "relay_items msg N dv xs" "N \<le> 2 ^ 31" "-1 \<le> r"
  shows "\<exists>r'. scan (dv, r) xs = (map (\<lambda>i. msg (nat i)) [r + 1 .. r'], (if xs = [] then dv else v2, r')) \<and>
    r \<le> r' \<and> (r < r' \<longrightarrow> r' < int N)"
  using assms(1,3)
proof (induction xs arbitrary: dv r)
  case Nil
  then show ?case by simp
next
  case (Cons x xs)
  obtain e where e: "strip_version dv x = (v2, e)" "relay_item msg N e"
    using relay_items_Cons(1) [OF Cons.prems(1)] by blast
  have rest: "relay_items msg N v2 xs"
    using relay_items_Cons(2) [OF Cons.prems(1)] .
  consider (skip) v where "classify (dv, r) x = ((v2, r), v)" "v = NextTry \<or> v = StartOver \<or> v = Broken"
    | (take) i where "i < N" "int i = r + 1" "classify (dv, r) x = ((v2, int i), Deliver (msg i))"
    using classify_relay_item [OF e(2) assms(2) e(1), of r] by blast
  then show ?case
  proof cases
    case skip
    from Cons.IH [OF rest Cons.prems(2)] show ?thesis
      using skip by (auto split: if_splits)
  next
    case take
    obtain r' where r': "scan (v2, int i) xs = (map (\<lambda>i. msg (nat i)) [int i + 1 .. r'], (v2, r'))" "int i \<le> r'"
      "int i < r' \<longrightarrow> r' < int N"
      using Cons.IH [OF rest, of "int i"] by auto
    have "[r + 1 .. r'] = (r + 1) # [int i + 1 .. r']"
      using take(2) r'(2) by (subst upto_rec1) auto
    moreover have "nat (r + 1) = i"
      using take(2) by (simp add: nat_int flip: take(2))
    ultimately show ?thesis
      using take r' by (intro exI [of _ r']) auto
  qed
qed

text \<open>The application's loop: up to \<^verbatim>\<open>k\<close> calls of \<^verbatim>\<open>Recv\<close>, each into an empty string, up to the first that fails.\<close>

fun recv_many :: "('w, 'z) net_api_scheme \<Rightarrow> nat \<Rightarrow> string \<Rightarrow> bool option \<Rightarrow> nat \<Rightarrow> ('w, bytes list) rpc" where
  "recv_many A fuel task nr 0 = ret []"
| "recv_many A fuel task nr (Suc k) =
     bind (Recv A fuel task [] nr) (\<lambda>(ok, out, nr').
     if ok then bind (recv_many A fuel task nr k) (\<lambda>outs. ret (out # outs)) else ret [])"

lemma recv_scan:
  assumes "records_pops A popped" "redis_client c = Live r" "redis_ready r" "rpc_inv c" "m_use_redis c"
    and "Recv A fuel task content nr (c, w) = Some (Inr (ok, out, nr'), c', w')"
  shows "\<exists>new. popped w' = popped w @ new \<and>
    scan (reader c) new = (if ok then [out] else [], reader c') \<and> (\<not> ok \<longrightarrow> out = content) \<and>
    rpc_inv c' \<and> reads c c'"
proof -
  have "recv_loop A task content nr fuel 1 (c, w) = Some (Inr (ok, out, nr'), c', w')"
    using assms(5,6) by (simp add: Recv_def bind_def get_obj_def)
  from recv_loop_scan [OF assms(1-4) this] show ?thesis
    using reads_simps(1) [of c c'] by auto
qed

lemma recv_many_scan:
  assumes "records_pops A popped" "redis_client c = Live r" "redis_ready r" "rpc_inv c" "m_use_redis c"
    and "recv_many A fuel task nr k (c, w) = Some (Inr outs, c', w')"
  shows "\<exists>new. popped w' = popped w @ new \<and> scan (reader c) new = (outs, reader c') \<and> rpc_inv c'"
  using assms(2,4-6)
proof (induction k arbitrary: c w outs)
  case 0
  then show ?case by (intro exI [of _ "[]"]) (simp add: ret_def)
next
  case (Suc k)
  obtain ok out nr' c1 w1 where 1: "Recv A fuel task [] nr (c, w) = Some (Inr (ok, out, nr'), c1, w1)"
    and 2: "(if ok then bind (recv_many A fuel task nr k) (\<lambda>outs. ret (out # outs)) else ret []) (c1, w1) =
      Some (Inr outs, c', w')"
    using Suc.prems(4) by (auto simp: bind_value)
  obtain new where new: "popped w1 = popped w @ new" "scan (reader c) new = (if ok then [out] else [], reader c1)"
    "rpc_inv c1" "reads c c1"
    using recv_scan [OF assms(1) Suc.prems(1) assms(3) Suc.prems(2,3) 1] by blast
  show ?case
  proof (cases ok)
    case False
    then show ?thesis
      using 2 new by (auto simp: ret_def)
  next
    case True
    then obtain outs' where o: "recv_many A fuel task nr k (c1, w1) = Some (Inr outs', c', w')" "outs = out # outs'"
      using 2 by (auto simp: bind_value ret_def)
    obtain new' where "popped w' = popped w1 @ new'" "scan (reader c1) new' = (outs', reader c')" "rpc_inv c'"
      using Suc.IH [OF _ new(3) _ o(1)] reads_simps [OF new(4)] Suc.prems by auto
    then show ?thesis
      using new True o(2) by (intro exI [of _ "new @ new'"]) (simp add: scan_append)
  qed
qed

text \<open>
  C3: Exactly once and in order: whatever repetitions, gaps and control elements the relay's list
  holds for the messages \<^verbatim>\<open>msg 0, msg 1, ...\<close>, the successful calls of \<^verbatim>\<open>Recv\<close> of a client that has
  delivered up to index \<^verbatim>\<open>r\<close> return \<^verbatim>\<open>msg (r+1), msg (r+2), ...\<close> without omission, repetition or
  reordering, and the client's index says where it stands.
\<close>
theorem recv_exactly_once_in_order:
  assumes "records_pops A popped" "redis_client c = Live r" "redis_ready r" "rpc_inv c" "m_use_redis c"
    and "recv_many A fuel task nr k (c, w) = Some (Inr outs, c', w')"
    and "relay_items msg N (m_use_redis_data_version c) (drop (length (popped w)) (popped w'))"
    and "N \<le> 2 ^ 31" "-1 \<le> m_recv_idx c"
  shows "outs = map (\<lambda>i. msg (nat i)) [m_recv_idx c + 1 .. m_recv_idx c']"
proof -
  obtain new where "popped w' = popped w @ new" "scan (reader c) new = (outs, reader c')"
    using recv_many_scan [OF assms(1-6)] by blast
  then show ?thesis
    using scan_relay_items [of msg N "m_use_redis_data_version c" new "m_recv_idx c"] assms(7-9)
    by (auto simp: reader_def)
qed

lemma demo_respects [simp]:
  "thread_respects demo_net (\<lambda>w w'. w_popped w' = w_popped w)"
  "thread_respects demo_net (\<lambda>w w'. w_sent w' = w_sent w)"
  "thread_respects demo_net (\<lambda>w w'. w_clock w \<le> w_clock w')"
  "thread_respects demo_net (\<lambda>w w'. length (w_list w') = length (w_list w))"
  by (auto simp: thread_respects_def split: prod.splits)

lemma demo_records [simp]: "records_pops demo_net w_popped" "records_writes demo_net w_sent"
  by (auto simp: records_pops_def records_writes_def pick_def split: list.splits prod.splits)

lemma demo_inv [simp]: "rpc_inv demo_client" "rpc_inv_at 0 demo_client"
  by (simp_all add: rpc_inv_at_def packet_seqs_def)

definition demo_msg :: "nat \<Rightarrow> bytes" where
  "demo_msg i = [of_nat i, 7]"

text \<open>Two messages, the first of them twice, and the control element of a disconnection.\<close>

definition demo_list :: "bytes list" where
  "demo_list = [relay_element 0 (demo_msg 0), le32 (- 1), relay_element 0 (demo_msg 0), relay_element 1 (demo_msg 1)]"

definition demo_at :: "int \<Rightarrow> rpc_client" where
  "demo_at r = demo_client\<lparr>m_recv_idx := r\<rparr>"

lemma demo_at_simps [simp]:
  "m_use_redis (demo_at r)" "m_redis_timeout (demo_at r) = 2" "m_use_redis_data_version (demo_at r) = v2"
  "m_recv_idx (demo_at r) = r" "(demo_at r)\<lparr>m_recv_idx := k\<rparr> = demo_at k"
  "redis_client (demo_at r) = Live demo_redis_object"
  by (simp_all add: demo_at_def)

lemma demo_client_at: "demo_client = demo_at (-1)"
  by (simp add: demo_at_def demo_client_def)

lemma demo_pop:
  assumes "w_list w = x # xs"
  shows "pop_element demo_net task (demo_at r, w) =
    Some (Inr (Some (Some x)), demo_at r, w\<lparr>w_list := xs, w_popped := w_popped w @ [x]\<rparr>)"
  using assms
  by (simp add: pop_element_def catch_redis_error_def try_catch_def brpop_def redis_call_def demo_redis_object_def
      bind_def get_obj_def ask_def ret_def)

lemma demo_step:
  assumes "w_list w = x # xs" "i \<le> 2"
  shows "recv_loop demo_net task content nr (Suc n) i (demo_at r, w) =
    (case check_element x (demo_at r, w\<lparr>w_list := xs, w_popped := w_popped w @ [x]\<rparr>) of
       None \<Rightarrow> None
     | Some (Inl e, s) \<Rightarrow> Some (Inl e, s)
     | Some (Inr v, s) \<Rightarrow> recv_next demo_net task content nr n i v s)"
proof -
  have "handle_element x (demo_at r, u) = check_element x (demo_at r, u)" for u :: net_world
    by (simp add: handle_element_def bind_def get_obj_def ret_def v2_def not_inited_def)
  then show ?thesis
    using recv_loop_go [OF _ demo_pop [OF assms(1)], of i r task content nr n] assms(2)
    by (simp add: bind_def)
qed

lemma demo_recv:
  "Recv demo_net 3 task [] nr (demo_at (-1), demo_world\<lparr>w_list := demo_list\<rparr>) =
     Some (Inr (True, [0, 7], nr), demo_at 0,
       demo_world\<lparr>w_list := tl demo_list, w_popped := [relay_element 0 (demo_msg 0)]\<rparr>)"
  "Recv demo_net 3 task [] nr (demo_at 0, demo_world\<lparr>w_list := tl demo_list, w_popped := [relay_element 0 (demo_msg 0)]\<rparr>) =
     Some (Inr (True, [1, 7], nr), demo_at 1, demo_world\<lparr>w_popped := demo_list\<rparr>)"
  by (simp_all add: Recv_def bind_def get_obj_def numeral_3_eq_3 demo_step demo_list_def relay_element_def
      demo_msg_def check_element_cases recv_next_def ret_def int_max_def)

theorem recv_exactly_once_in_order_witness:
  "recv_many demo_net 3 ''task'' None 2 (demo_client, demo_world\<lparr>w_list := demo_list\<rparr>) =
     Some (Inr [[0, 7], [1, 7]], demo_at 1, demo_world\<lparr>w_popped := demo_list\<rparr>) \<and>
   [[0, 7], [1, 7]] = map (\<lambda>i. demo_msg (nat i)) [-1 + 1 .. 1]"
proof -
  let ?w = "demo_world\<lparr>w_list := demo_list\<rparr>" and ?w' = "demo_world\<lparr>w_popped := demo_list\<rparr>"
  have run: "recv_many demo_net 3 ''task'' None 2 (demo_client, ?w) = Some (Inr [[0, 7], [1, 7]], demo_at 1, ?w')"
    by (simp add: demo_client_at numeral_2_eq_2 bind_def ret_def demo_recv)
  have "relay_item demo_msg 2 (relay_element i (demo_msg i))" if "i < 2" for i
    using that by (auto simp: relay_item_def)
  moreover have "relay_item demo_msg 2 (le32 (- 1))"
    unfolding relay_item_def by (rule disjI2, rule exI [of _ "- 1"]) simp
  ultimately have "relay_items demo_msg 2 v2 demo_list"
    by (simp add: relay_items_def demo_list_def v2_def not_inited_def)
  then have "relay_items demo_msg 2 (m_use_redis_data_version demo_client)
      (drop (length (w_popped ?w)) (w_popped ?w'))"
    by simp
  from recv_exactly_once_in_order [OF demo_records(1) _ _ demo_inv(1) _ run this]
  show ?thesis
    using run by simp
qed

section \<open>\<^verbatim>\<open>Recv\<close> returns\<close>

text \<open>
  A view of the world that counts the elements in the list: a \<^verbatim>\<open>brpop\<close> that returns an element
  takes one away, nothing adds any. (An element that another process adds during the call can be
  counted from the start.)
\<close>

definition counts_list :: "('w, 'z) net_api_scheme \<Rightarrow> ('w \<Rightarrow> nat) \<Rightarrow> bool" where
  "counts_list A waiting \<longleftrightarrow>
     (\<forall>k h key t w. waiting (snd (redis_brpop A k h key t w)) +
        (case fst (redis_brpop A k h key t w) of Inr (Some _) \<Rightarrow> 1 | _ \<Rightarrow> 0) \<le> waiting w) \<and>
     thread_respects A (\<lambda>w w'. waiting w' \<le> waiting w) \<and>
     (\<forall>ms w. waiting (sleep_ms A ms w) \<le> waiting w)"

lemma brpop_waiting:
  fixes c :: 'c and w :: 'w
  assumes "counts_list A waiting" "redis_ready r" "brpop A r key t (c, w) = Some (x, c', w')"
  shows "waiting w' + (case x of Inr (Some _) \<Rightarrow> 1 | _ \<Rightarrow> 0) \<le> waiting w"
proof -
  obtain k h where k: "(brpop A r key t :: ('c \<times> 'w, _) prog) = redis_call (redis_brpop A k h key t)"
    using brpop_call [OF assms(2)] .
  have "waiting (snd (redis_brpop A k h key t w)) +
      (case fst (redis_brpop A k h key t w) of Inr (Some _) \<Rightarrow> 1 | _ \<Rightarrow> 0) \<le> waiting w"
    using assms(1) unfolding counts_list_def by blast
  then show ?thesis
    using assms(3) unfolding k
    by (auto simp: redis_call_def bind_def ask_def raise_def ret_def split: prod.splits sum.splits)
qed

lemma pop_element_waiting:
  assumes "counts_list A waiting" "redis_client c = Live r" "redis_ready r"
  obtains p w1 where "pop_element A task (c, w) = Some (Inr p, c, w1)"
    "waiting w1 + (case p of Some (Some _) \<Rightarrow> 1 | _ \<Rightarrow> 0) \<le> waiting w"
proof (cases rule: brpop_run [OF assms(3), of A "list_key c task" 1 c w])
  case (1 m w1)
  have "waiting (sleep_ms A 1000 w1) \<le> waiting w1"
    using assms(1) by (simp add: counts_list_def)
  then show ?thesis
    using 1(1) assms(2) brpop_waiting [OF assms(1,3) 1(1)] that [of None "sleep_ms A 1000 w1"]
    by (simp add: pop_element_def catch_redis_error_def try_catch_def bind_def get_obj_def ret_def sleep_def ask_def)
next
  case (2 w1)
  then show ?thesis
    using assms(2) brpop_waiting [OF assms(1,3) 2(1)] that [of "Some None" w1]
    by (simp add: pop_element_def catch_redis_error_def try_catch_def bind_def get_obj_def ret_def)
next
  case (3 k v w1)
  then show ?thesis
    using assms(2) brpop_waiting [OF assms(1,3) 3(1)] that [of "Some (Some v)" w1]
    by (simp add: pop_element_def catch_redis_error_def try_catch_def bind_def get_obj_def ret_def)
qed

text \<open>The iterations a call can make: a new count for every waiting element, and the rest of this one.\<close>

definition recv_bound :: "int \<Rightarrow> nat \<Rightarrow> int \<Rightarrow> nat" where
  "recv_bound t waiting i = waiting * nat (t + 1) + nat (t + 1 - i)"

lemma recv_loop_ends:
  assumes cnt: "counts_list A waiting" and r: "redis_ready r" and t: "0 < t"
  shows "redis_client c = Live r \<Longrightarrow> rpc_inv_at m c \<Longrightarrow> m_redis_timeout c = t \<Longrightarrow> 1 \<le> i \<Longrightarrow>
    recv_bound t (waiting w) i < n \<Longrightarrow> ends (recv_loop A task content nr n i) (c, w)"
proof (induction n arbitrary: i c w)
  case 0
  show ?case
    using 0(5) by (rule less_zeroE)
next
  case (Suc n)
  have thr: "thread_respects A (\<lambda>w w'. waiting w' \<le> waiting w)"
    using cnt unfolding counts_list_def by (elim conjE)
  show ?case
  proof (cases "i \<le> m_redis_timeout c \<or> m_redis_timeout c = 0")
    case False
    then show ?thesis
      using recv_loop_timeout [of i c A task content nr n w] by (simp add: ends_def)
  next
    case go: True
    then have i: "i \<le> t"
      using t Suc.prems(3) by auto
    obtain p w1 where p: "pop_element A task (c, w) = Some (Inr p, c, w1)"
      "waiting w1 + (case p of Some (Some _) \<Rightarrow> 1 | _ \<Rightarrow> 0) \<le> waiting w"
      using pop_element_waiting [OF cnt Suc.prems(1) r] .
    have le: "waiting w1 \<le> waiting w"
      using p(2) by simp
    have mono: "x * nat (t + 1) \<le> y * nat (t + 1)" if "x \<le> y" for x y
      using that by simp
    have later: "recv_bound t x (i + 1) < n" if "x \<le> waiting w" for x
      using Suc.prems(5) i mono [OF that] unfolding recv_bound_def by linarith
    have over: "recv_bound t x 1 < n" if "x + 1 \<le> waiting w" for x
    proof -
      have "x * nat (t + 1) + nat (t + 1) \<le> waiting w * nat (t + 1)"
        using mono [OF that] by simp
      then show ?thesis
        using Suc.prems(5) t unfolding recv_bound_def by linarith
    qed
    note run = recv_loop_go [OF go p(1), of content nr n]
    show ?thesis
    proof (cases p)
      case None
      have "ends (recv_loop A task content nr n (i + 1)) (c, w1)"
        by (rule Suc.IH [OF Suc.prems(1-3) _ later [OF le]]) (use Suc.prems(4) in simp)
      then show ?thesis
        using run None by (simp add: ends_def)
    next
      case (Some q)
      show ?thesis
      proof (cases q)
        case None
        obtain c2 w2 where 2: "interleave A (c, w1) = Some (Inr (), c2, w2)" "rpc_inv_at m c2" "evolves c c2"
          and w2: "\<forall>R. thread_respects A R \<longrightarrow> R w1 w2"
          using interleave_total [OF Suc.prems(2), of A w1] by blast
        have "waiting w2 \<le> waiting w"
          using w2 thr le by fastforce
        then have "ends (recv_loop A task content nr n (i + 1)) (c2, w2)"
          by (intro Suc.IH [OF _ 2(2) _ _ later]) (use Suc.prems(1,3,4) evolves_fields [OF 2(3)] in simp_all)
        then have "recv_idle A task content nr n i (c, w1) \<noteq> None"
          using 2(1) by (simp add: recv_idle_def bind_def get_obj_def ret_def ends_def)
        then show ?thesis
          using run Some None by (simp add: ends_def)
      next
        case (Some item)
        obtain x s2 where h: "handle_element item (c, w1) = Some (x, s2)"
          using handle_element_ends [of item c w1] by auto
        have "bind (handle_element item) (recv_next A task content nr n i) (c, w1) \<noteq> None"
        proof (cases x)
          case (Inl e)
          then show ?thesis
            using h by (simp add: bind_def)
        next
          case (Inr v)
          have s2: "s2 = (set_reader (fst (classify (reader c) item)) c, w1)"
            using handle_element_classify [of item c w1 v "fst s2" "snd s2"] h Inr by (cases s2) simp
          have "ends (recv_loop A task content nr n j) s2" if "recv_bound t (waiting w1) j < n" "1 \<le> j" for j
            unfolding s2 by (rule Suc.IH) (use Suc.prems that in simp_all)
          moreover have "waiting w1 + 1 \<le> waiting w"
            using p(2) \<open>p = Some q\<close> Some by simp
          ultimately show ?thesis
            using h Inr later [OF le] over [of "waiting w1"] Suc.prems(4)
            by (cases v) (simp_all add: bind_def recv_next_def ends_def ret_def)
        qed
        then show ?thesis
          using run \<open>p = Some q\<close> Some by (simp add: ends_def)
      qed
    qed
  qed
qed

text \<open>
  C23: With a positive time-out a call of \<^verbatim>\<open>Recv\<close> in Redis mode returns (with a value or an
  exception): repeated elements restart the count, but each of them is taken from the list, so
  the loop makes at most \<^verbatim>\<open>(waiting + 1) (timeout + 1)\<close> iterations.
\<close>
theorem recv_returns:
  assumes "counts_list A waiting" "redis_client c = Live r" "redis_ready r" "rpc_inv c" "m_use_redis c"
    and "0 < m_redis_timeout c" "(waiting w + 1) * nat (m_redis_timeout c + 1) \<le> fuel"
  shows "\<exists>x s'. Recv A fuel task content nr (c, w) = Some (x, s')"
proof -
  have "recv_bound (m_redis_timeout c) (waiting w) 1 < fuel"
    using assms(6,7) by (simp add: recv_bound_def)
  then have "ends (recv_loop A task content nr fuel 1) (c, w)"
    using recv_loop_ends [OF assms(1,3,6), of c "m_seq c" 1 w fuel] assms(2,4) by simp
  then show ?thesis
    using assms(5) by (auto simp: Recv_def bind_def get_obj_def ends_def)
qed

lemma demo_counts [simp]: "counts_list demo_net (\<lambda>w. length (w_list w))"
  by (auto simp: counts_list_def thread_respects_def split: list.splits prod.splits)

theorem recv_returns_witness:
  "\<exists>x s'. Recv demo_net 15 ''task'' [] None (demo_client, demo_world\<lparr>w_list := demo_list\<rparr>) = Some (x, s')"
  using recv_returns [of demo_net "\<lambda>w. length (w_list w)" demo_client demo_redis_object
      "demo_world\<lparr>w_list := demo_list\<rparr>" 15]
  by (simp add: demo_list_def)

end
