(* ===== verification/ChannelReceive.thy ===== *)
theory ChannelReceive imports ChannelDelivery RpcReceive begin

text \<open>
  \<^verbatim>\<open>channel::real_recv\<close> over its retry loop: whatever reconnections happen on the way, the elements popped
  from the list are consumed once and the receive index is carried over.
\<close>

section \<open>What keeps a field of the client\<close>

definition keeps :: "('c \<Rightarrow> 'b) \<Rightarrow> ('c \<times> 'w, 'a) prog \<Rightarrow> bool" where
  "keeps f m \<longleftrightarrow> (\<forall>c w x c' w'. m (c, w) = Some (x, c', w') \<longrightarrow> f c' = f c)"

lemma keepsD: "keeps f m \<Longrightarrow> m (c, w) = Some (x, c', w') \<Longrightarrow> f c' = f c"
  unfolding keeps_def by blast

lemma keeps_pure:
  "keeps f (ret a)" "keeps f (raise e)" "keeps f stuck" "keeps f (get_obj g)" "keeps f (from_sum r)" "keeps f (ask h)"
proof -
  show "keeps f (from_sum r)"
    by (cases r) (auto simp: keeps_def prog)
qed (auto simp: keeps_def prog split: prod.splits)

lemma keeps_set: "(\<And>c. f (g c) = f c) \<Longrightarrow> keeps f (set_obj g)"
  by (auto simp: keeps_def prog)

lemma keeps_bind:
  assumes "keeps f m" "\<And>a. keeps f (k a)"
  shows "keeps f (bind m k)"
  unfolding keeps_def
proof (intro allI impI)
  fix c w x c' w'
  assume run: "bind m k (c, w) = Some (x, c', w')"
  then obtain y c1 w1 where 1: "m (c, w) = Some (y, c1, w1)"
    by (auto simp: bind_def split: option.splits prod.splits)
  show "f c' = f c"
    using run 1 keepsD [OF assms(1) 1] keepsD [OF assms(2)] by (cases y) (auto simp: bind_def)
qed

lemma keeps_catch:
  assumes "keeps f m" "keeps f k"
  shows "keeps f (catch_redis_error m k)"
  unfolding keeps_def catch_redis_error_def try_catch_def
proof (intro allI impI)
  fix c w x c' w'
  assume run: "(case m (c, w) of
      Some (Inl e, s') \<Rightarrow> (case case e of RedisError _ \<Rightarrow> Some k | _ \<Rightarrow> None of None \<Rightarrow> Some (Inl e, s') | Some k \<Rightarrow> k s')
    | r \<Rightarrow> r) = Some (x, c', w')"
  then obtain y c1 w1 where 1: "m (c, w) = Some (y, c1, w1)"
    by (auto split: option.splits prod.splits)
  show "f c' = f c"
    using run 1 keepsD [OF assms(1) 1] keepsD [OF assms(2)]
    by (cases y) (auto split: fault.splits)
qed

lemma keeps_interleave: "keeps joinable (interleave A)"
  unfolding keeps_def by (intro allI impI) (rule interleave_joinable)

lemma keeps_pop: "keeps f (pop_element A task)"
  unfolding pop_element_def brpop_def redis_call_def sleep_def
  by (intro keeps_catch keeps_bind keeps_pure) (auto intro!: keeps_bind keeps_pure split: sum.split)

lemma keeps_element: "keeps joinable (init_redis_data_version item)" "keeps joinable (check_element item)"
  unfolding init_redis_data_version_def check_element_def Let_def
  by (auto intro!: keeps_bind keeps_pure keeps_set simp: joinable_def)

lemma keeps_recv_loop: "keeps joinable (recv_loop A task content nr n i)"
proof (induction n arbitrary: i)
  case (Suc n)
  show ?case
    unfolding recv_loop.simps(2)
    by (auto intro!: keeps_bind keeps_pure keeps_pop keeps_element keeps_interleave Suc split: option.split verdict.split)
qed (simp add: keeps_pure)

text \<open>A retry is asked for only while packets wait for their acknowledgement.\<close>

lemma recv_loop_retry:
  assumes "recv_loop A task content nr n i (c, w) = Some (Inr (ok, out, nr'), c', w')"
  shows "nr' = nr \<or> m_notack_queue c' \<noteq> []"
  using assms
proof (induction n arbitrary: i c w)
  case (Suc n)
  show ?case
  proof (cases "i \<le> m_redis_timeout c \<or> m_redis_timeout c = 0")
    case False
    then show ?thesis
      using recv_loop_timeout [OF False, of A task content nr n w] Suc.prems by simp
  next
    case True
    obtain p c1 w1 where 1: "pop_element A task (c, w) = Some (Inr p, c1, w1)"
      and rest: "(case p of
          None \<Rightarrow> recv_loop A task content nr n (i + 1)
        | Some None \<Rightarrow> recv_idle A task content nr n i
        | Some (Some item) \<Rightarrow> bind (handle_element item) (recv_next A task content nr n i)) (c1, w1) = Some (Inr (ok, out, nr'), c', w')"
      using Suc.prems True unfolding recv_loop_Suc by (auto simp: bind_get_obj bind_value)
    consider "p = None" | "p = Some None" | item where "p = Some (Some item)"
      by (cases p) auto
    then show ?thesis
    proof cases
      case 1
      then show ?thesis
        using rest Suc.IH by simp
    next
      case 2
      then obtain c2 w2 where "(if m_recv_thread_status c2 = ThreadFinished \<and> m_notack_queue c2 \<noteq> [] \<and> nr \<noteq> None
          then ret (False, content, Some True) else recv_loop A task content nr n (i + 1)) (c2, w2) = Some (Inr (ok, out, nr'), c', w')"
        using rest by (auto simp: recv_idle_def bind_value get_obj_def)
      then show ?thesis
        using Suc.IH by (auto simp: ret_def split: if_splits)
    next
      case 3
      then obtain v c2 w2 where "recv_next A task content nr n i v (c2, w2) = Some (Inr (ok, out, nr'), c', w')"
        using rest by (auto simp: bind_value)
      then show ?thesis
        using Suc.IH by (cases v) (auto simp: recv_next_def ret_def)
    qed
  qed
qed (simp add: stuck_def)

section \<open>One call through the channel\<close>

definition receiving :: "rpc_client \<Rightarrow> bool" where
  "receiving c \<longleftrightarrow> m_use_redis c \<and> redis_set c \<and> rpc_inv c \<and> (connected_client c \<or> m_notack_queue c = [])"

lemma receivingI:
  "new_client c \<Longrightarrow> receiving c" "connected_client c \<Longrightarrow> receiving c"
  using fresh_client_inv by (auto simp: receiving_def new_client_def fresh_client_def connected_client_def)

lemma recv_receiving:
  assumes "records_pops A popped" "receiving c"
    and "Recv A fuel task content nr (c, w) = Some (Inr (ok, out, nr'), c', w')"
  shows "\<exists>new. popped w' = popped w @ new \<and> scan (reader c) new = (if ok then [out] else [], reader c') \<and>
    (\<not> ok \<longrightarrow> out = content) \<and> receiving c' \<and> (nr' = nr \<or> connected_client c')"
proof -
  obtain r where r: "redis_client c = Live r" "redis_ready r" and c: "rpc_inv c" "m_use_redis c"
    using assms(2) by (auto simp: receiving_def redis_set_def)
  have loop: "recv_loop A task content nr fuel 1 (c, w) = Some (Inr (ok, out, nr'), c', w')"
    using assms(3) c(2) by (simp add: Recv_def bind_def get_obj_def)
  obtain new where new: "popped w' = popped w @ new" "scan (reader c) new = (if ok then [out] else [], reader c')"
    "\<not> ok \<longrightarrow> out = content" "rpc_inv c'" "reads c c'"
    using recv_scan [OF assms(1) r c assms(3)] by blast
  have j: "joinable c' = joinable c"
    using keepsD [OF keeps_recv_loop loop] .
  note same = reads_simps [OF new(5)]
  have con: "connected_client c'" if "connected_client c"
    using that new(4) same(2-4,6) j by (simp add: connected_client_def redis_set_def)
  have set: "redis_set c'" "m_use_redis c'"
    using assms(2) same(2,6) by (simp_all add: receiving_def redis_set_def)
  have empty: "m_notack_queue c' = []" if "m_notack_queue c = []"
    using same(8) that by auto
  have "receiving c'"
    using assms(2) con empty new(4) set by (auto simp: receiving_def)
  moreover have "nr' = nr \<or> connected_client c'"
    using recv_loop_retry [OF loop] assms(2) con empty by (auto simp: receiving_def)
  ultimately show ?thesis
    using new by blast
qed

section \<open>A reconnection pops nothing\<close>

lemma obeys_resend:
  assumes "preorder R" "\<And>h p w. R w (snd (stream_write A h p w))"
  shows "obeys R (resend A h es)"
  by (induction es) (auto intro!: obeys_bind obeys_pure obeys_ask assms)

lemma obeys_reconnect:
  assumes net: "net_obeys A R" and wr: "\<And>h p w. R w (snd (stream_write A h p w))"
  shows "obeys R (reconnect A)"
proof -
  have pre: "preorder R"
    using net by (rule net_obeysD)
  have "obeys R (set_continue_status A ch tup)" for ch :: channel and tup
    unfolding set_continue_status_def
    by (auto intro!: obeys_bind obeys_pure obeys_version(2) obeys_interleave obeys_resend pre net wr
        split: prod.split option.split)
  then show ?thesis
    unfolding reconnect_def get_continue_status_def
    by (auto intro!: obeys_bind obeys_pure obeys_on_client obeys_finish obeys_connection obeys_sleep pre net)
qed

text \<open>A view of the world that only a \<^verbatim>\<open>brpop\<close> changes.\<close>

definition receive_net :: "('w, 'z) net_api_scheme \<Rightarrow> ('w \<Rightarrow> bytes list) \<Rightarrow> bool" where
  "receive_net A popped \<longleftrightarrow> records_pops A popped \<and> net_obeys A (\<lambda>w w'. popped w' = popped w) \<and>
     (\<forall>h p w. popped (snd (stream_write A h p w)) = popped w)"

lemma recv_retry_scan:
  assumes net: "receive_net A popped" "relay_net A sent"
  shows "ch_use_redis ch \<Longrightarrow> m_client ch = Live c \<Longrightarrow> receiving c \<Longrightarrow>
    recv_retry_loop A fuel n prev str (ch, w) = Some (Inr (ok, out), ch', w') \<Longrightarrow>
    \<exists>c' new. ch' = ch\<lparr>m_client := Live c'\<rparr> \<and> receiving c' \<and> popped w' = popped w @ new \<and>
      (scan (reader c) new = ([out], reader c') \<or> out = str \<and> scan (reader c) new = ([], reader c'))"
proof (induction n arbitrary: prev ch c w)
  case 0
  then show ?case
    by (intro exI [of _ c] exI [of _ "[]"]) (auto simp: ret_def)
next
  case (Suc n)
  have rec: "records_pops A popped"
    using net by (simp add: receive_net_def)
  obtain ok1 out1 nr ch1 w1 where
    1: "on_client (\<lambda>ch. Recv A fuel (m_channelid ch) str (Some False)) (ch, w) = Some (Inr (ok1, out1, nr), ch1, w1)"
    and 2: "(if ok1 then ret (True, out1) else if nr \<noteq> Some True then ret (False, out1)
        else bind (reconnect A) (\<lambda>prev'. recv_retry_loop A fuel n prev' out1)) (ch1, w1) = Some (Inr (ok, out), ch', w')"
    using Suc.prems(4) by (auto simp: bind_value)
  obtain c1 where c1: "Recv A fuel (m_channelid ch) str (Some False) (c, w) = Some (Inr (ok1, out1, nr), c1, w1)"
    "ch1 = ch\<lparr>m_client := Live c1\<rparr>"
    using 1 Suc.prems(2) by (rule on_client_value)
  obtain new where new: "popped w1 = popped w @ new" "scan (reader c) new = (if ok1 then [out1] else [], reader c1)"
    "\<not> ok1 \<longrightarrow> out1 = str" "receiving c1" "nr = Some False \<or> connected_client c1"
    using recv_receiving [OF rec Suc.prems(3) c1(1)] by blast
  show ?case
  proof (cases "ok1 \<or> nr \<noteq> Some True")
    case True
    then have "out = out1" "ch' = ch1" "w' = w1"
      using 2 by (auto simp: ret_def split: if_splits)
    then show ?thesis
      using new c1(2) by (intro exI [of _ c1] exI [of _ new]) auto
  next
    case False
    then have con: "connected_client c1"
      using new(5) by auto
    obtain prev' ch2 w2 where r: "reconnect A (ch1, w1) = Some (Inr prev', ch2, w2)"
      and l: "recv_retry_loop A fuel n prev' out1 (ch2, w2) = Some (Inr (ok, out), ch', w')"
      using 2 False by (auto simp: bind_value)
    have redis: "ch_use_redis ch1" "m_client ch1 = Live c1"
      using Suc.prems(1) c1(2) by simp_all
    obtain c2 where c2: "ch2 = ch1\<lparr>m_client := Live c2\<rparr>" "connected_client c2" "reader c2 = reader c1"
      using reconnect_client [OF net(2) redis con r] by blast
    have "obeys (\<lambda>w w'. popped w' = popped w) (reconnect A)"
      using net(1) by (intro obeys_reconnect) (auto simp: receive_net_def)
    then have w2: "popped w2 = popped w1"
      using r by (rule obeysD)
    have "ch_use_redis ch2" "m_client ch2 = Live c2"
      using redis(1) c2(1) by simp_all
    moreover have "recv_retry_loop A fuel n prev' str (ch2, w2) = Some (Inr (ok, out), ch', w')"
      using l new(3) False by simp
    ultimately obtain c' more where
      more: "ch' = ch2\<lparr>m_client := Live c'\<rparr>" "receiving c'" "popped w' = popped w2 @ more"
        "scan (reader c2) more = ([out], reader c') \<or> out = str \<and> scan (reader c2) more = ([], reader c')"
      using Suc.IH [OF _ _ receivingI(2) [OF c2(2)]] by blast
    have "ch' = ch\<lparr>m_client := Live c'\<rparr>"
      using more(1) c2(1) c1(2) by simp
    then show ?thesis
      using more(2-4) new False c2(3) w2
      by (intro exI [of _ c'] exI [of _ "new @ more"]) (auto simp: scan_append)
  qed
qed

section \<open>A receiving application\<close>

text \<open>\<open>k\<close> calls of \<^verbatim>\<open>recv(std::string&)\<close>, each with an empty string.\<close>

fun receive_all :: "('w, 'z) net_api_scheme \<Rightarrow> nat \<Rightarrow> nat \<Rightarrow> ('w, bytes list) chan" where
  "receive_all A fuel 0 = ret []"
| "receive_all A fuel (Suc k) =
     bind (recv_string A fuel []) (\<lambda>str. bind (receive_all A fuel k) (\<lambda>strs. ret (str # strs)))"

lemma real_recv_scan:
  assumes net: "receive_net A popped" "relay_net A sent"
    and ch: "ch_use_redis ch" "m_client ch = Live c" "receiving c"
    and run: "real_recv A fuel [] (ch, w) = Some (Inr out, ch', w')"
  shows "\<exists>c' new. m_client ch' = Live c' \<and> ch_use_redis ch' \<and> receiving c' \<and> popped w' = popped w @ new \<and>
    (scan (reader c) new = ([out], reader c') \<or> out = [] \<and> scan (reader c) new = ([], reader c'))"
proof -
  obtain ok ch1 w1 where "recv_retry_loop A fuel 120 False [] (ch, w) = Some (Inr (ok, out), ch1, w1)"
    and ch': "ch' = statistics_recv (of_nat (length out)) ch1" "w' = w1"
    using run ch(1) by (auto simp: real_recv_def bind_get_obj bind_value set_obj_def ret_def raise_def split: if_splits)
  from recv_retry_scan [OF net ch this(1)] show ?thesis
    using ch(1) by (auto simp: ch' statistics_recv_def)
qed

lemma receive_all_scan:
  assumes net: "receive_net A popped" "relay_net A sent"
  shows "ch_use_redis ch \<Longrightarrow> m_client ch = Live c \<Longrightarrow> receiving c \<Longrightarrow>
    receive_all A fuel k (ch, w) = Some (Inr outs, ch', w') \<Longrightarrow>
    \<exists>c' new ds. m_client ch' = Live c' \<and> popped w' = popped w @ new \<and> scan (reader c) new = (ds, reader c') \<and>
      filter (\<lambda>d. d \<noteq> []) outs = filter (\<lambda>d. d \<noteq> []) ds"
proof (induction k arbitrary: ch c w outs)
  case 0
  then show ?case
    by (intro exI [of _ c] exI [of _ "[]"]) (simp add: ret_def)
next
  case (Suc k)
  obtain out outs' ch1 w1 where 1: "real_recv A fuel [] (ch, w) = Some (Inr out, ch1, w1)"
    and 2: "receive_all A fuel k (ch1, w1) = Some (Inr outs', ch', w')" "outs = out # outs'"
    using Suc.prems(4) by (auto simp: recv_string_def bind_value ret_def)
  obtain c1 new where c1: "m_client ch1 = Live c1" "ch_use_redis ch1" "receiving c1" "popped w1 = popped w @ new"
    "scan (reader c) new = ([out], reader c1) \<or> out = [] \<and> scan (reader c) new = ([], reader c1)"
    using real_recv_scan [OF net Suc.prems(1-3) 1] by blast
  obtain c' more ds where "m_client ch' = Live c'" "popped w' = popped w1 @ more" "scan (reader c1) more = (ds, reader c')"
    "filter (\<lambda>d. d \<noteq> []) outs' = filter (\<lambda>d. d \<noteq> []) ds"
    using Suc.IH [OF c1(2,1,3) 2(1)] by blast
  then show ?case
    using c1(4,5) 2(2)
    by (intro exI [of _ c'] exI [of _ "new @ more"] exI [of _ "(if out = [] \<and> scan (reader c) new = ([], reader c1) then [] else [out]) @ ds"])
      (auto simp: scan_append)
qed

lemma upto_map_int: "[int s .. int n - 1] = map int [s..<n]"
proof (induction n)
  case (Suc n)
  show ?case
  proof (cases "s \<le> n")
    case True
    then have "[int s .. int (Suc n) - 1] = [int s .. int n - 1] @ [int n]"
      by (subst upto_rec2) simp_all
    then show ?thesis
      using Suc True by simp
  qed simp
qed simp

lemma receive_all_order:
  assumes "receive_net A popped" "relay_net A sent" "ch_use_redis ch" "m_client ch = Live c" "receiving c"
    and "receive_all A fuel k (ch, w) = Some (Inr outs, ch', w')" "m_recv_idx c = int s - 1"
    and "relay_items msg N (m_use_redis_data_version c) (drop (length (popped w)) (popped w'))"
    and "N \<le> 2 ^ 31" "\<forall>i < N. msg i \<noteq> []"
  shows "\<exists>n. s \<le> n \<and> (s < n \<longrightarrow> n \<le> N) \<and> filter (\<lambda>d. d \<noteq> []) outs = map msg [s..<n]"
proof -
  obtain c' new ds where new: "popped w' = popped w @ new" "scan (reader c) new = (ds, reader c')"
    "filter (\<lambda>d. d \<noteq> []) outs = filter (\<lambda>d. d \<noteq> []) ds"
    using receive_all_scan [OF assms(1-6)] by blast
  have "reader c = (m_use_redis_data_version c, int s - 1)"
    using assms(7) by (simp add: reader_def)
  moreover have "relay_items msg N (m_use_redis_data_version c) new"
    using assms(8) new(1) by simp
  ultimately obtain r where r: "ds = map (\<lambda>i. msg (nat i)) [int s .. r]" "int s - 1 \<le> r" "int s - 1 < r \<longrightarrow> r < int N"
    using scan_relay_items [OF _ assms(9), of msg "m_use_redis_data_version c" new "int s - 1"] new(2) by auto
  define n where "n = nat (r + 1)"
  have r': "r = int n - 1" and n: "s \<le> n" "s < n \<longrightarrow> n \<le> N"
    using r(2,3) by (auto simp: n_def)
  have ds: "ds = map msg [s..<n]"
    by (simp add: r(1) r' upto_map_int comp_def)
  have "filter (\<lambda>d. d \<noteq> []) ds = ds"
    using assms(10) n by (auto simp: ds filter_id_conv)
  then show ?thesis
    using new(3) ds n by auto
qed

text \<open>
  C11: Through the channel too, reconnections included, nothing of the stream is lost, repeated or
  reordered: of the messages \<open>msg 0, msg 1, ...\<close> that the relay's list holds, with repetitions and
  control elements in between, the calls of \<^verbatim>\<open>recv\<close> of a channel that has delivered \<open>s\<close> of them return the
  next ones in order. A call may also return an empty string that is no message: when every attempt
  failed and the last reconnection succeeded.
\<close>
theorem real_recv_in_order:
  assumes "receive_net A popped" "relay_net A sent" "ch_use_redis ch" "m_client ch = Live c" "receiving c"
    and "receive_all A fuel k (ch, w) = Some (Inr outs, ch', w')" "m_recv_idx c = int s - 1"
    and "relay_items msg N (m_use_redis_data_version c) (drop (length (popped w)) (popped w'))"
    and "N \<le> 2 ^ 31" "\<forall>i < N. msg i \<noteq> []"
  shows "\<exists>n. s \<le> n \<and> (s < n \<longrightarrow> n \<le> N) \<and> filter (\<lambda>d. d \<noteq> []) outs = map msg [s..<n]"
  by (rule receive_all_order [OF assms])

lemma demo_relay_interleave: "interleave demo_relay = interleave demo_net"
proof -
  have "recv_thread_step demo_relay = recv_thread_step demo_net"
    unfolding recv_thread_step_def demo_relay_simps ..
  then have "recv_thread_run demo_relay n = recv_thread_run demo_net n" for n
    by (induction n) simp_all
  then have "recv_thread_run demo_relay = recv_thread_run demo_net" ..
  then show ?thesis
    unfolding interleave_def demo_relay_simps by simp
qed

lemma demo_relay_recv: "Recv demo_relay = Recv demo_net"
proof -
  have pop: "pop_element demo_relay task = pop_element demo_net task" for task
    unfolding pop_element_def brpop_def sleep_def demo_relay_simps ..
  have loop: "recv_loop demo_relay task content nr n i = recv_loop demo_net task content nr n i" for task content nr n i
  proof (induction n arbitrary: i)
    case (Suc n)
    show ?case
      unfolding recv_loop.simps(2) pop demo_relay_interleave Suc ..
  qed simp
  have stub: "stub_pull demo_relay = stub_pull demo_net"
    by (simp add: demo_relay_def)
  have pull: "pull_message demo_relay task nr = pull_message demo_net task nr" for task nr
    unfolding pull_message_def stub ..
  show ?thesis
    by (intro ext) (simp only: Recv_def loop pull)
qed

lemma demo_receive_net [simp]: "receive_net demo_relay w_popped"
  by (auto simp: receive_net_def records_pops_def thread_respects_def net_obeys_def preorder_def pick_def demo_relay_def
      split: list.splits prod.splits)

lemma demo_real_recv:
  assumes "Recv demo_net 3 (m_channelid ch) [] (Some False) (c, w) = Some (Inr (True, out, nr), c', w')"
    and "m_client ch = Live c" "ch_use_redis ch"
  shows "real_recv demo_relay 3 [] (ch, w) =
    Some (Inr out, statistics_recv (of_nat (length out)) (ch\<lparr>m_client := Live c'\<rparr>), w')"
proof -
  have n: "recv_retry_loop demo_relay 3 120 False [] = recv_retry_loop demo_relay 3 (Suc 119) False []"
    by simp
  have 1: "on_client (\<lambda>ch. Recv demo_relay 3 (m_channelid ch) [] (Some False)) (ch, w) =
      Some (Inr (True, out, nr), ch\<lparr>m_client := Live c'\<rparr>, w')"
    unfolding demo_relay_recv using assms by (simp add: on_client_run)
  have 2: "recv_retry_loop demo_relay 3 120 False [] (ch, w) = Some (Inr (True, out), ch\<lparr>m_client := Live c'\<rparr>, w')"
    unfolding n recv_retry_loop.simps(2) by (rule bind_runI, rule 1) (simp add: ret_def)
  show ?thesis
    unfolding real_recv_def bind_get_obj id_apply using assms(3)
    apply simp
    apply (rule bind_runI)
     apply (rule bind_runI, rule 2)
     apply (simp add: ret_def)
    apply (simp add: bind_set_obj ret_def)
    done
qed

theorem real_recv_in_order_witness:
  "\<exists>ch' w'. receive_all demo_relay 3 2 (demo_channel, demo_world\<lparr>w_list := demo_list\<rparr>) =
      Some (Inr [[0, 7], [1, 7]], ch', w') \<and>
    (\<exists>n. filter (\<lambda>d. d \<noteq> []) [[0, 7], [1, 7]] = map demo_msg [0..<n])"
proof -
  let ?w = "demo_world\<lparr>w_list := demo_list\<rparr>"
  let ?w1 = "demo_world\<lparr>w_list := tl demo_list, w_popped := [relay_element 0 (demo_msg 0)]\<rparr>"
  let ?w2 = "demo_world\<lparr>w_popped := demo_list\<rparr>"
  have ch: "m_client demo_channel = Live (demo_at (-1))" "ch_use_redis demo_channel" "m_channelid demo_channel = ''task''"
    by (simp_all add: demo_channel_def channel_members_def demo_client_at)
  obtain ch1 where 1: "real_recv demo_relay 3 [] (demo_channel, ?w) = Some (Inr [0, 7], ch1, ?w1)"
    and ch1: "m_client ch1 = Live (demo_at 0)" "ch_use_redis ch1" "m_channelid ch1 = ''task''"
    using demo_real_recv [OF demo_recv(1) ch(1,2)] ch(3) by (simp add: statistics_recv_def ch(2))
  obtain ch2 where 2: "real_recv demo_relay 3 [] (ch1, ?w1) = Some (Inr [1, 7], ch2, ?w2)"
    using demo_real_recv [OF demo_recv(2) ch1(1,2)] by blast
  have run: "receive_all demo_relay 3 2 (demo_channel, ?w) = Some (Inr [[0, 7], [1, 7]], ch2, ?w2)"
    by (simp add: numeral_2_eq_2 recv_string_def bind_def 1 2 ret_def)
  have "relay_item demo_msg 2 (relay_element i (demo_msg i))" if "i < 2" for i
    using that by (auto simp: relay_item_def)
  moreover have "relay_item demo_msg 2 (le32 (- 1))"
    unfolding relay_item_def by (rule disjI2, rule exI [of _ "- 1"]) simp
  ultimately have "relay_items demo_msg 2 v2 demo_list"
    by (simp add: relay_items_def demo_list_def v2_def not_inited_def)
  then have items: "relay_items demo_msg 2 (m_use_redis_data_version demo_client) (drop (length (w_popped ?w)) (w_popped ?w2))"
    by simp
  have "m_client demo_channel = Live demo_client"
    using ch(1) by (simp add: demo_client_at)
  note all = real_recv_in_order [OF demo_receive_net demo_relay_net ch(2) this receivingI(2) [OF demo_client_connected] run _ items]
  have idx: "m_recv_idx demo_client = int 0 - 1" and two: "(2 :: nat) \<le> 2 ^ 31" and msgs: "\<forall>i < 2. demo_msg i \<noteq> []"
    by (simp_all add: demo_msg_def)
  show ?thesis
    using run all [OF idx two msgs] by blast
qed

end
