(* ===== verification/EndToEnd.thy ===== *)
theory EndToEnd imports ChannelReceive begin

text \<open>
  Two applications, two channels and the relay between them: what one side sends is what the other
  side receives.
\<close>

section \<open>From one application to the other\<close>

text \<open>
  The sending application calls \<^verbatim>\<open>send(std::string&)\<close> for one message after the other; what it holds
  afterwards tells whether the message was taken (the string was moved out) or not.
\<close>

fun send_all :: "('w, 'z) net_api_scheme \<Rightarrow> bytes list \<Rightarrow> ('w, bytes list) chan" where
  "send_all A [] = ret []"
| "send_all A (m # ms) =
     bind (send_string A m) (\<lambda>rest. bind (send_all A ms) (\<lambda>rests. ret (rest # rests)))"

fun accepted :: "bytes list \<Rightarrow> bytes list \<Rightarrow> bytes list" where
  "accepted (m # ms) (r # rs) = (if r = [] then [m] else []) @ accepted ms rs"
| "accepted _ _ = []"

text \<open>
  The relay between the two: every element of the receiver's list is a control element or made of a packet
  that the sender's relay has accepted; it may leave out, repeat and reorder. The first element that a
  receiver sees starts with the version string.
\<close>

definition carried :: "packet list \<Rightarrow> bytes \<Rightarrow> bool" where
  "carried log x \<longleftrightarrow> (\<exists>p \<in> set log. x = relay_element (nat (seq (header p))) (body p)) \<or> (\<exists>u. x = le32 u \<and> sint u < 0)"

definition relay_carries :: "packet list \<Rightarrow> int \<Rightarrow> bytes list \<Rightarrow> bool" where
  "relay_carries log dv xs \<longleftrightarrow>
     (case xs of
        [] \<Rightarrow> True
      | x # ys \<Rightarrow>
          (if dv = not_inited then \<exists>e. x = data_version_magic_string @ e \<and> carried log e else dv = v2 \<and> carried log x) \<and>
          (\<forall>y \<in> set ys. carried log y))"

lemma carried_item:
  assumes "carried log x" "\<forall>p \<in> set log. faithful msgs p"
  shows "relay_item (\<lambda>i. msgs ! i) (length msgs) x"
  using assms unfolding carried_def relay_item_def faithful_def by fastforce

lemma relay_carries_items:
  assumes "relay_carries log dv xs" "\<forall>p \<in> set log. faithful msgs p"
  shows "relay_items (\<lambda>i. msgs ! i) (length msgs) dv xs"
  using assms carried_item [OF _ assms(2)] unfolding relay_carries_def relay_items_def
  by (auto split: list.split)

lemma send_all_inv:
  assumes "relay_net A sent"
  shows "sender_inv (sent w) ch acc \<Longrightarrow> [] \<notin> set msgs \<Longrightarrow> int (length acc + length msgs) \<le> int_max \<Longrightarrow>
    send_all A msgs (ch, w) = Some (Inr rests, ch', w') \<Longrightarrow>
    sender_inv (sent w') ch' (acc @ accepted msgs rests) \<and> length rests = length msgs"
proof (induction msgs arbitrary: ch w acc rests)
  case Nil
  then show ?case
    by (auto simp: ret_def)
next
  case (Cons m ms)
  obtain rest rests' ch1 w1 where 1: "real_send A m (ch, w) = Some (Inr rest, ch1, w1)"
    and 2: "send_all A ms (ch1, w1) = Some (Inr rests', ch', w')" and rests: "rests = rest # rests'"
    using Cons.prems(4) by (auto simp: send_string_def bind_value ret_def)
  have "rest = [] \<and> sender_inv (sent w1) ch1 (acc @ [m]) \<or> rest = m \<and> sender_inv (sent w1) ch1 acc"
    using real_send_inv [OF assms Cons.prems(1) _ 1] Cons.prems(3) by simp
  then show ?case
  proof
    assume "rest = [] \<and> sender_inv (sent w1) ch1 (acc @ [m])"
    then show ?thesis
      using Cons.IH [OF _ _ _ 2, of "acc @ [m]"] Cons.prems(2,3) rests by simp
  next
    assume "rest = m \<and> sender_inv (sent w1) ch1 acc"
    then show ?thesis
      using Cons.IH [OF _ _ _ 2, of acc] Cons.prems(2,3) rests by auto
  qed
qed

lemma accepted_all: "length rests = length msgs \<Longrightarrow> set rests \<subseteq> {[]} \<Longrightarrow> accepted msgs rests = msgs"
  by (induction msgs rests rule: accepted.induct) auto

lemma map_nth_take: "n \<le> length xs \<Longrightarrow> map (\<lambda>i. xs ! i) [0..<n] = take n xs"
  by (rule nth_equalityI) simp_all

text \<open>
  C1: End to end: two applications talk through two channels and a relay that may lose, repeat and reorder
  what it carries, and connections may break and be renewed on both sides at any time. What the
  receiver's calls of \<^verbatim>\<open>recv\<close> return (empty strings aside) is, in order and without omission or
  repetition, an initial part of the messages that the sender's calls of \<^verbatim>\<open>send\<close> took; when every
  call took its message, it is an initial part of what was sent.
\<close>
theorem end_to_end_delivery:
  assumes "relay_net A sent" "sender_inv (sent w) chs []" "[] \<notin> set msgs" "int (length msgs) \<le> int_max"
    and "send_all A msgs (chs, w) = Some (Inr rests, chs', w')"
    and "receive_net B popped" "relay_net B sent_back" "ch_use_redis chr" "m_client chr = Live c" "receiving c" "m_recv_idx c = -1"
    and "receive_all B fuel k (chr, v) = Some (Inr outs, chr', v')"
    and "relay_carries (sent w') (m_use_redis_data_version c) (drop (length (popped v)) (popped v'))"
  shows "(\<exists>n. filter (\<lambda>d. d \<noteq> []) outs = take n (accepted msgs rests)) \<and>
    (set rests \<subseteq> {[]} \<longrightarrow> accepted msgs rests = msgs)"
proof -
  let ?acc = "accepted msgs rests"
  have s: "sender_inv (sent w') chs' ?acc" "length rests = length msgs"
    using send_all_inv [OF assms(1,2,3) _ assms(5)] assms(4) by simp_all
  have "length ?acc \<le> length msgs" "set ?acc \<subseteq> set msgs"
    by (induction msgs rests rule: accepted.induct) auto
  then have acc: "length ?acc \<le> 2 ^ 31" "\<forall>i < length ?acc. ?acc ! i \<noteq> []"
    using assms(3,4) by (auto simp: int_max_def dest: nth_mem)
  have "\<forall>p \<in> set (sent w'). faithful ?acc p"
    using s(1) by (auto simp: sender_inv_def)
  then have "relay_items (\<lambda>i. ?acc ! i) (length ?acc) (m_use_redis_data_version c) (drop (length (popped v)) (popped v'))"
    by (rule relay_carries_items [OF assms(13)])
  from receive_all_order [OF assms(6-10) assms(12) _ this acc, of 0] assms(11)
  obtain n where "0 < n \<longrightarrow> n \<le> length ?acc" "filter (\<lambda>d. d \<noteq> []) outs = map (\<lambda>i. ?acc ! i) [0..<n]"
    by auto
  moreover from this(1) have "n \<le> length ?acc"
    by (cases n) simp_all
  ultimately have "filter (\<lambda>d. d \<noteq> []) outs = take n ?acc"
    by (simp only: map_nth_take)
  then show ?thesis
    using accepted_all [OF s(2)] by blast
qed

theorem end_to_end_delivery_witness:
  "\<exists>chs' w' chr' v'. send_all demo_relay [[5]] (demo_channel, demo_world) = Some (Inr [[]], chs', w') \<and>
    receive_all demo_relay 3 1 (demo_channel, demo_world\<lparr>w_list := [relay_element 0 [5]]\<rparr>) = Some (Inr [[5]], chr', v') \<and>
    (\<exists>n. filter (\<lambda>d. d \<noteq> []) [[5]] = take n (accepted [[5]] [[]])) \<and> accepted [[5]] [[]] = [[5]]"
proof -
  obtain chs' w' where send: "real_send demo_relay [5] (demo_channel, demo_world) = Some (Inr [], chs', w')"
    using demo_real_send by blast
  have all: "send_all demo_relay [[5]] (demo_channel, demo_world) = Some (Inr [[]], chs', w')"
    by (simp add: send_string_def bind_def send ret_def)
  let ?x = "relay_element 0 [5]"
  let ?v = "demo_world\<lparr>w_list := [?x]\<rparr>" and ?v' = "demo_world\<lparr>w_popped := [?x]\<rparr>"
  have empty: "demo_world\<lparr>w_list := [], w_popped := [?x]\<rparr> = ?v'"
    by (simp add: demo_world_def)
  have "Recv demo_net 3 (m_channelid demo_channel) [] (Some False) (demo_client, ?v) =
      Some (Inr (True, [5], Some False), demo_at 0, ?v')"
    unfolding demo_client_at
    by (simp add: Recv_def bind_def get_obj_def numeral_3_eq_3 demo_step relay_element_def check_element_cases
        recv_next_def ret_def int_max_def empty del: recv_loop.simps(2))
  moreover have ch: "m_client demo_channel = Live demo_client" "ch_use_redis demo_channel"
    by (simp_all add: demo_channel_def channel_members_def)
  ultimately obtain chr' where "real_recv demo_relay 3 [] (demo_channel, ?v) = Some (Inr [5], chr', ?v')"
    using demo_real_recv by blast
  then have recv: "receive_all demo_relay 3 1 (demo_channel, ?v) = Some (Inr [[5]], chr', ?v')"
    by (simp add: recv_string_def bind_def ret_def)
  have "sender_inv (w_sent w') chs' [[5]]"
    using send_all_inv [OF demo_relay_net _ _ _ all, of "[]"] by (simp add: int_max_def)
  then obtain p where "p \<in> set (w_sent w')" "seq (header p) = 0" "body p = [5]"
    by (auto simp: sender_inv_def faithful_def)
  then have "carried (w_sent w') ?x"
    unfolding carried_def by (metis nat_zero_as_int nat_int of_nat_0)
  then have carries: "relay_carries (w_sent w') (m_use_redis_data_version demo_client) (drop (length (w_popped ?v)) (w_popped ?v'))"
    by (simp add: relay_carries_def v2_def not_inited_def)
  note e2e = end_to_end_delivery [OF demo_relay_net _ _ _ all demo_receive_net demo_relay_net ch(2,1)
      receivingI(2) [OF demo_client_connected] _ recv carries]
  have "sender_inv (w_sent demo_world) demo_channel []" "[] \<notin> set [[5 :: u8]]" "int (length [[5 :: u8]]) \<le> int_max"
    "m_recv_idx demo_client = -1"
    by (simp_all add: int_max_def)
  note result = e2e [OF this]
  have "accepted [[5]] [[]] = [[5 :: u8]]"
    using conjunct2 [OF result] by simp
  moreover obtain n where "filter (\<lambda>d. d \<noteq> []) [[5]] = take n (accepted [[5]] [[]])"
    using conjunct1 [OF result] ..
  ultimately show ?thesis
    using all recv by (intro exI conjI) assumption+
qed

end
