(* ===== verification/Machine.thy ===== *)
theory Machine imports Prelude begin

text \<open>
  Interleaved threads. A machine is a partial function: \<open>fire l s\<close> is the state after the action
  \<open>l\<close>, or \<open>None\<close> when the action is not enabled in \<open>s\<close> (a thread that waits for a mutex, for
  instance). Its runs are the sequences of enabled actions in any order, which is what the
  scheduler may choose from; a blocked thread is one that has no enabled action. The locale holds what
  an invariant of a machine gives.
\<close>

section \<open>Runs\<close>

fun run_actions :: "('l \<Rightarrow> 's \<Rightarrow> 's option) \<Rightarrow> 'l list \<Rightarrow> 's \<Rightarrow> 's option" where
  "run_actions fire [] s = Some s"
| "run_actions fire (l # ls) s = (case fire l s of None \<Rightarrow> None | Some s' \<Rightarrow> run_actions fire ls s')"

inductive reach :: "('l \<Rightarrow> 's \<Rightarrow> 's option) \<Rightarrow> 's \<Rightarrow> 's \<Rightarrow> bool" for fire s0 where
  reach_refl [simp, intro]: "reach fire s0 s0"
| reach_fire: "reach fire s0 s \<Longrightarrow> fire l s = Some s' \<Longrightarrow> reach fire s0 s'"

lemma reach_run:
  assumes "reach fire s0 s" "run_actions fire ls s = Some s'"
  shows "reach fire s0 s'"
  using assms
  by (induction fire ls s arbitrary: s' rule: run_actions.induct) (auto split: option.splits intro: reach_fire)

lemma run_reach: "run_actions fire ls s0 = Some s \<Longrightarrow> reach fire s0 s"
  by (rule reach_run) (rule reach_refl)

text \<open>An evaluated run, read off by a part \<open>f\<close> of its last state.\<close>

lemma run_part:
  assumes "map_option f (run_actions fire ls s0) = Some y"
  obtains s where "run_actions fire ls s0 = Some s" "reach fire s0 s" "f s = y"
proof -
  obtain s where s: "run_actions fire ls s0 = Some s" "f s = y"
    using assms by (cases "run_actions fire ls s0") auto
  show ?thesis
    by (rule that [OF s(1) run_reach [OF s(1)] s(2)])
qed

lemma reach_iff_run: "reach fire s0 s \<longleftrightarrow> (\<exists>ls. run_actions fire ls s0 = Some s)"
proof
  assume "reach fire s0 s"
  then show "\<exists>ls. run_actions fire ls s0 = Some s"
  proof induction
    case reach_refl
    show ?case
      by (rule exI [of _ "[]"]) simp
  next
    case (reach_fire s l s')
    then obtain ls where "run_actions fire ls s0 = Some s"
      by blast
    moreover have "run_actions fire (ks @ [l]) t = (case run_actions fire ks t of None \<Rightarrow> None | Some u \<Rightarrow> fire l u)" for ks t
      by (induction fire ks t rule: run_actions.induct) (auto split: option.splits)
    ultimately show ?case
      using reach_fire(2) by (intro exI [of _ "ls @ [l]"]) simp
  qed
qed (auto intro: run_reach)

lemma reach_trans: "reach fire s0 s \<Longrightarrow> reach fire s s' \<Longrightarrow> reach fire s0 s'"
  using reach_run reach_iff_run by metis

section \<open>Invariants\<close>

locale machine_invariant =
  fixes fire :: "'l \<Rightarrow> 's \<Rightarrow> 's option"
    and good :: "'s \<Rightarrow> bool"
  assumes kept: "good s \<Longrightarrow> fire l s = Some s' \<Longrightarrow> good s'"
begin

lemma always: "reach fire s0 s \<Longrightarrow> good s0 \<Longrightarrow> good s"
  by (induction rule: reach.induct) (auto intro: kept)

lemma always_run: "run_actions fire ls s0 = Some s \<Longrightarrow> good s0 \<Longrightarrow> good s"
  by (rule always [OF run_reach])

end

section \<open>Mutexes\<close>

text \<open>
  \<^verbatim>\<open>std::mutex\<close> by its owner. Locking is enabled when nobody owns it; unlocking by a thread that does
  not own it is undefined behaviour.
\<close>

type_synonym mutex = "nat option"

definition mutex_lock :: "nat \<Rightarrow> mutex \<Rightarrow> mutex option" where
  "mutex_lock t m = (if m = None then Some (Some t) else None)"

definition mutex_unlock :: "nat \<Rightarrow> mutex \<Rightarrow> fault + mutex" where
  "mutex_unlock t m = (if m = Some t then Inr None else Inl NotOwner)"

end
