(* ===== verification/SafeQueue.thy ===== *)
theory SafeQueue imports Machine begin

text \<open>
  \<^verbatim>\<open>src/src/SafeQueue.h\<close>: a queue behind a mutex. Every operation runs with the mutex held from
  its first to its last line, so each is one atomic step here. The contract the thread pool relies
  on is the locale; the model of the code interprets it.
\<close>

section \<open>Operations\<close>

record 'a safe_queue =
  q_elements :: "'a list"

definition SafeQueue :: "'a safe_queue" where
  "SafeQueue = \<lparr>q_elements = []\<rparr>"

text \<open>The copy constructor leaves its argument aside: the copy is empty.\<close>

definition SafeQueue_copy :: "'a safe_queue \<Rightarrow> 'a safe_queue" where
  "SafeQueue_copy other = SafeQueue"

definition queue_empty :: "'a safe_queue \<Rightarrow> bool" where
  "queue_empty q \<longleftrightarrow> q_elements q = []"

text \<open>\<^verbatim>\<open>int size()\<close> converts a \<^verbatim>\<open>size_t\<close>.\<close>

definition queue_size :: "'a safe_queue \<Rightarrow> i32" where
  "queue_size q = of_nat (length (q_elements q))"

definition enqueue :: "'a \<Rightarrow> 'a safe_queue \<Rightarrow> 'a safe_queue" where
  "enqueue t q = q\<lparr>q_elements := q_elements q @ [t]\<rparr>"

definition dequeue :: "'a safe_queue \<Rightarrow> 'a option \<times> 'a safe_queue" where
  "dequeue q = (case q_elements q of [] \<Rightarrow> (None, q) | t # ts \<Rightarrow> (Some t, q\<lparr>q_elements := ts\<rparr>))"

section \<open>The contract\<close>

locale fifo =
  fixes enq :: "'a \<Rightarrow> 'q \<Rightarrow> 'q"
    and deq :: "'q \<Rightarrow> 'a option \<times> 'q"
    and is_empty :: "'q \<Rightarrow> bool"
    and items :: "'q \<Rightarrow> 'a list"
  assumes items_enq: "items (enq x q) = items q @ [x]"
    and deq_items: "items q = (case deq q of (None, q') \<Rightarrow> [] | (Some x, q') \<Rightarrow> x # items q')"
    and deq_none: "deq q = (None, q') \<Longrightarrow> q' = q"
    and empty_iff: "is_empty q \<longleftrightarrow> items q = []"
begin

fun enq_all :: "'a list \<Rightarrow> 'q \<Rightarrow> 'q" where
  "enq_all [] q = q"
| "enq_all (x # xs) q = enq_all xs (enq x q)"

lemma items_enq_all: "items (enq_all xs q) = items q @ xs"
  by (induction xs q rule: enq_all.induct) (simp_all add: items_enq)

lemma deq_Some: "deq q = (Some x, q') \<Longrightarrow> items q = x # items q'"
  using deq_items [of q] by simp

lemma deq_None: "deq q = (None, q') \<Longrightarrow> items q = [] \<and> q' = q"
  using deq_items [of q] deq_none by simp

text \<open>What was put in front of an element comes out before it.\<close>

lemma deq_after_enq:
  assumes "deq (enq y q) = (Some x, q')"
  shows "items q @ [y] = x # items q'"
  using deq_Some [OF assms] by (simp add: items_enq)

end

interpretation sq: fifo enqueue dequeue queue_empty q_elements
  by unfold_locales (auto simp: enqueue_def dequeue_def queue_empty_def split: list.splits)

lemma q_SafeQueue [simp]: "q_elements SafeQueue = []"
  by (simp add: SafeQueue_def)

lemma queue_eqI: "q_elements p = q_elements q \<Longrightarrow> p = (q :: 'a safe_queue)"
  by simp

end
