(* ===== verification/ThreadPool.thy ===== *)
theory ThreadPool imports SafeQueue "HOL-Library.Multiset" begin

text \<open>
  \<^verbatim>\<open>src/src/ThreadPool.h\<close>: workers that wait on a condition variable for tasks. A worker's place
  in its loop is a constructor; between two places it does what no other thread can observe
  half-way. A task is a value; running it moves it to the history.
\<close>

section \<open>State\<close>

text \<open>Where a worker is in \<^verbatim>\<open>ThreadWorker::operator()\<close>.\<close>

datatype 'f worker =
    Checking             \<comment> \<open>about to read \<open>m_shutdown\<close>\<close>
  | Entering             \<comment> \<open>about to lock the mutex\<close>
  | Testing              \<comment> \<open>holds the mutex, about to test the queue\<close>
  | Blocking             \<comment> \<open>holds the mutex, about to wait\<close>
  | Waiting              \<comment> \<open>in the wait: the mutex is released\<close>
  | Woken                \<comment> \<open>notified, about to lock the mutex again\<close>
  | Taking               \<comment> \<open>holds the mutex, about to dequeue\<close>
  | Leaving "'f option"  \<comment> \<open>holds the mutex, has dequeued\<close>
  | Running 'f           \<comment> \<open>calls the task\<close>
  | Exited

text \<open>Where the thread is that calls \<^verbatim>\<open>shutdown\<close>.\<close>

datatype closer = NotClosing | Notifying | Joining nat | Closed

text \<open>
  \<open>submitting\<close> counts the calls of \<^verbatim>\<open>submit\<close> that have put their task into the queue and have not
  notified yet; \<open>submitted\<close>, \<open>taken\<close> and \<open>finished\<close> are the history of the tasks.
\<close>

record 'f pool =
  m_queue :: "'f safe_queue"
  m_threads :: "'f worker list"
  m_shutdown :: bool
  m_conditional_mutex :: mutex
  submitting :: nat
  closer :: closer
  submitted :: "'f list"
  taken :: "'f list"
  finished :: "'f list"

definition ThreadPool :: "nat \<Rightarrow> 'f pool" where
  "ThreadPool n_threads =
     \<lparr>m_queue = SafeQueue, m_threads = replicate n_threads Checking, m_shutdown = False,
      m_conditional_mutex = None, submitting = 0, closer = NotClosing, submitted = [], taken = [], finished = []\<rparr>"

section \<open>Steps\<close>

definition goes_to :: "nat \<Rightarrow> 'f worker \<Rightarrow> 'f pool \<Rightarrow> 'f pool" where
  "goes_to i w p = p\<lparr>m_threads := (m_threads p)[i := w]\<rparr>"

text \<open>Worker \<open>i\<close> takes its next step; \<open>None\<close> when it cannot.\<close>

definition worker_step :: "nat \<Rightarrow> 'f pool \<Rightarrow> 'f pool option" where
  "worker_step i p =
     (if length (m_threads p) \<le> i then None
      else case m_threads p ! i of
        Checking \<Rightarrow> Some (goes_to i (if m_shutdown p then Exited else Entering) p)
      | Entering \<Rightarrow>
          (case mutex_lock i (m_conditional_mutex p) of
             None \<Rightarrow> None
           | Some m \<Rightarrow> Some (goes_to i Testing (p\<lparr>m_conditional_mutex := m\<rparr>)))
      | Testing \<Rightarrow> Some (goes_to i (if queue_empty (m_queue p) then Blocking else Taking) p)
      | Blocking \<Rightarrow> Some (goes_to i Waiting (p\<lparr>m_conditional_mutex := None\<rparr>))
      | Waiting \<Rightarrow> None
      | Woken \<Rightarrow>
          (case mutex_lock i (m_conditional_mutex p) of
             None \<Rightarrow> None
           | Some m \<Rightarrow> Some (goes_to i Taking (p\<lparr>m_conditional_mutex := m\<rparr>)))
      | Taking \<Rightarrow>
          (let (dequeued, q) = dequeue (m_queue p)
           in Some (goes_to i (Leaving dequeued)
                (p\<lparr>m_queue := q, taken := taken p @ (case dequeued of None \<Rightarrow> [] | Some f \<Rightarrow> [f])\<rparr>)))
      | Leaving dequeued \<Rightarrow>
          Some (goes_to i (case dequeued of None \<Rightarrow> Checking | Some f \<Rightarrow> Running f) (p\<lparr>m_conditional_mutex := None\<rparr>))
      | Running f \<Rightarrow> Some (goes_to i Checking (p\<lparr>finished := finished p @ [f]\<rparr>))
      | Exited \<Rightarrow> None)"

text \<open>\<^verbatim>\<open>submit\<close>: the task is queued, and later one waiting worker is notified.\<close>

definition submit :: "'f \<Rightarrow> 'f pool \<Rightarrow> 'f pool" where
  "submit f p = p\<lparr>m_queue := enqueue f (m_queue p), submitting := Suc (submitting p), submitted := submitted p @ [f]\<rparr>"

definition wake :: "'f worker \<Rightarrow> 'f worker" where
  "wake w = (case w of Waiting \<Rightarrow> Woken | _ \<Rightarrow> w)"

text \<open>
  \<^verbatim>\<open>notify_one\<close> wakes one of the workers that wait, the one the argument names; without any it has
  no effect.
\<close>

definition notify_one :: "nat \<Rightarrow> 'f pool \<Rightarrow> 'f pool option" where
  "notify_one i p =
     (if submitting p = 0 then None
      else if Waiting \<notin> set (m_threads p) then Some (p\<lparr>submitting := submitting p - 1\<rparr>)
      else if i < length (m_threads p) \<and> m_threads p ! i = Waiting
           then Some (goes_to i Woken (p\<lparr>submitting := submitting p - 1\<rparr>))
           else None)"

text \<open>A condition variable may wake a waiting thread for no reason.\<close>

definition spurious :: "nat \<Rightarrow> 'f pool \<Rightarrow> 'f pool option" where
  "spurious i p = (if i < length (m_threads p) \<and> m_threads p ! i = Waiting then Some (goes_to i Woken p) else None)"

text \<open>
  \<^verbatim>\<open>shutdown\<close>, called once: the flag is set under the mutex, all waiting workers are notified, the
  threads are joined in order.
\<close>

definition shutdown_step :: "'f pool \<Rightarrow> 'f pool option" where
  "shutdown_step p =
     (case closer p of
        NotClosing \<Rightarrow> (if m_conditional_mutex p = None then Some (p\<lparr>m_shutdown := True, closer := Notifying\<rparr>) else None)
      | Notifying \<Rightarrow> Some (p\<lparr>m_threads := map wake (m_threads p), closer := Joining 0\<rparr>)
      | Joining k \<Rightarrow>
          (if length (m_threads p) \<le> k then Some (p\<lparr>closer := Closed\<rparr>)
           else if m_threads p ! k = Exited then Some (p\<lparr>closer := Joining (Suc k)\<rparr>)
           else None)
      | Closed \<Rightarrow> None)"

datatype 'f pool_action = Submit 'f | NotifyOne nat | Worker nat | Spurious nat | Shutdown

fun pool_fire :: "'f pool_action \<Rightarrow> 'f pool \<Rightarrow> 'f pool option" where
  "pool_fire (Submit f) p = Some (submit f p)"
| "pool_fire (NotifyOne i) p = notify_one i p"
| "pool_fire (Worker i) p = worker_step i p"
| "pool_fire (Spurious i) p = spurious i p"
| "pool_fire Shutdown p = shutdown_step p"

section \<open>Invariants\<close>

fun in_section :: "'f worker \<Rightarrow> bool" where
  "in_section Testing = True"
| "in_section Blocking = True"
| "in_section Taking = True"
| "in_section (Leaving d) = True"
| "in_section _ = False"

fun in_hand :: "'f worker \<Rightarrow> 'f list" where
  "in_hand (Leaving (Some f)) = [f]"
| "in_hand (Running f) = [f]"
| "in_hand _ = []"

definition in_flight :: "'f pool \<Rightarrow> 'f list" where
  "in_flight p = concat (map in_hand (m_threads p))"

text \<open>The mutex: its owner is the one worker between locking and unlocking it.\<close>

definition lock_ok :: "'f pool \<Rightarrow> bool" where
  "lock_ok p \<longleftrightarrow> (\<forall>i < length (m_threads p). in_section (m_threads p ! i) \<longleftrightarrow> m_conditional_mutex p = Some i) \<and>
     (\<forall>i. m_conditional_mutex p = Some i \<longrightarrow> i < length (m_threads p))"

text \<open>The tasks: each submitted one is queued, in the hands of a worker, or finished.\<close>

definition history_ok :: "'f pool \<Rightarrow> bool" where
  "history_ok p \<longleftrightarrow> submitted p = taken p @ q_elements (m_queue p) \<and>
     mset (taken p) = mset (finished p) + mset (in_flight p) \<and>
     (length (m_threads p) = 1 \<longrightarrow> taken p = finished p @ in_flight p)"

text \<open>Closing: only a pool that is shut down has workers that left, and the joined ones have left.\<close>

definition joined :: "'f pool \<Rightarrow> nat" where
  "joined p = (case closer p of NotClosing \<Rightarrow> 0 | Notifying \<Rightarrow> 0 | Joining k \<Rightarrow> k | Closed \<Rightarrow> length (m_threads p))"

definition closing_ok :: "'f pool \<Rightarrow> bool" where
  "closing_ok p \<longleftrightarrow> (m_shutdown p \<longleftrightarrow> closer p \<noteq> NotClosing) \<and>
     (\<forall>i < length (m_threads p). m_threads p ! i = Exited \<longrightarrow> m_shutdown p) \<and>
     (\<forall>i < length (m_threads p). i < joined p \<longrightarrow> m_threads p ! i = Exited)"

lemma wake_simps [simp]:
  "in_section (wake w) = in_section w" "in_hand (wake w) = in_hand w" "wake w = Exited \<longleftrightarrow> w = Exited"
  by (cases w; simp add: wake_def)+

lemma length_goes_to [simp]: "length (m_threads (goes_to i w p)) = length (m_threads p)"
  by (simp add: goes_to_def)

lemma goes_to_fields [simp]:
  "m_queue (goes_to i w p) = m_queue p" "m_shutdown (goes_to i w p) = m_shutdown p"
  "m_conditional_mutex (goes_to i w p) = m_conditional_mutex p" "submitting (goes_to i w p) = submitting p"
  "closer (goes_to i w p) = closer p" "submitted (goes_to i w p) = submitted p" "taken (goes_to i w p) = taken p"
  "finished (goes_to i w p) = finished p" "m_threads (goes_to i w p) = (m_threads p)[i := w]"
  by (simp_all add: goes_to_def)

text \<open>Every action changes the threads, if at all, at one index or by \<open>wake\<close>.\<close>

lemma worker_stepE:
  assumes "worker_step i p = Some p'"
  obtains w p1 where "i < length (m_threads p)" "p' = goes_to i w p1" "m_threads p1 = m_threads p"
  using assms
  by (cases "i < length (m_threads p)"; cases "m_threads p ! i")
    (auto simp: worker_step_def split: option.splits prod.splits)

lemma mset_concat_update:
  "i < length ws \<Longrightarrow> mset (concat (map in_hand (ws[i := w]))) + mset (in_hand (ws ! i)) =
     mset (concat (map in_hand ws)) + mset (in_hand w)"
proof (induction ws arbitrary: i)
  case (Cons v ws)
  then show ?case
    by (cases i) (simp_all add: add.assoc add.left_commute)
qed simp

lemma in_flight_keep:
  assumes "i < length (m_threads p)" "in_hand w = in_hand (m_threads p ! i)"
  shows "in_flight (goes_to i w p) = in_flight p"
proof -
  have "map in_hand ((m_threads p)[i := w]) = map in_hand (m_threads p)"
    using assms by (metis map_update list_update_id nth_map)
  then show ?thesis
    by (simp add: in_flight_def)
qed

lemma lock_ok_worker:
  assumes "lock_ok p" "worker_step i p = Some p'"
  shows "lock_ok p'"
proof -
  have i: "i < length (m_threads p)"
    using worker_stepE [OF assms(2)] by blast
  have own: "in_section (m_threads p ! i) \<longleftrightarrow> m_conditional_mutex p = Some i"
    using assms(1) i by (simp add: lock_ok_def)
  show ?thesis
    using assms i own
    by (cases "m_threads p ! i")
      (auto simp: worker_step_def lock_ok_def mutex_lock_def nth_list_update split: if_splits prod.splits option.splits)
qed

lemma lock_ok_goes:
  assumes "lock_ok p" "in_section w = in_section (m_threads p ! i)"
    and "m_threads q = m_threads p" "m_conditional_mutex q = m_conditional_mutex p"
  shows "lock_ok (goes_to i w q)"
proof -
  have "in_section ((m_threads p)[i := w] ! j) = in_section (m_threads p ! j)" if "j < length (m_threads p)" for j
    using that assms(2) by (cases "i = j") simp_all
  then show ?thesis
    using assms(1,3,4) by (simp add: lock_ok_def)
qed

lemma lock_ok_kept:
  assumes "lock_ok p" "pool_fire l p = Some p'"
  shows "lock_ok p'"
proof (cases l)
  case (Worker i)
  then show ?thesis
    using assms lock_ok_worker by simp
next
  case (NotifyOne i)
  then show ?thesis
    using assms by (auto simp: notify_one_def split: if_splits intro!: lock_ok_goes [of p]) (simp_all add: lock_ok_def)
next
  case (Spurious i)
  then show ?thesis
    using assms by (auto simp: spurious_def split: if_splits intro!: lock_ok_goes [of p])
qed (use assms in \<open>auto simp: lock_ok_def submit_def shutdown_step_def split: if_splits closer.splits\<close>)

lemma closing_ok_worker:
  assumes "closing_ok p" "worker_step i p = Some p'"
  shows "closing_ok p'"
proof -
  have i: "i < length (m_threads p)"
    using worker_stepE [OF assms(2)] by blast
  show ?thesis
    using assms i
    by (cases "m_threads p ! i")
      (auto simp: worker_step_def closing_ok_def joined_def nth_list_update
        split: if_splits prod.splits option.splits closer.splits)
qed

lemma closing_ok_kept:
  assumes "closing_ok p" "pool_fire l p = Some p'"
  shows "closing_ok p'"
proof (cases l)
  case (Worker i)
  then show ?thesis
    using assms closing_ok_worker by simp
qed (use assms in \<open>auto simp: closing_ok_def joined_def submit_def notify_one_def spurious_def shutdown_step_def
    nth_list_update less_Suc_eq split: if_splits closer.splits\<close>)

text \<open>
  The history: a worker changes it when it dequeues and when it runs a task. The other steps keep
  every list.
\<close>

lemma history_ok_same:
  assumes "history_ok p" "submitted q = submitted p" "taken q = taken p" "m_queue q = m_queue p"
    "finished q = finished p" "in_flight q = in_flight p" "length (m_threads q) = length (m_threads p)"
  shows "history_ok q"
  using assms by (simp add: history_ok_def)

lemma in_flight_swap:
  assumes "i < length (m_threads p)" "m_threads q = m_threads p"
  shows "mset (in_flight (goes_to i w q)) + mset (in_hand (m_threads p ! i)) = mset (in_flight p) + mset (in_hand w)"
  using mset_concat_update [OF assms(1)] assms(2) by (simp add: in_flight_def)

lemma in_flight_single:
  "length (m_threads p) = 1 \<Longrightarrow> i < length (m_threads p) \<Longrightarrow> in_flight p = in_hand (m_threads p ! i)"
  by (cases "m_threads p") (simp_all add: in_flight_def)

lemma history_ok_taking:
  assumes "history_ok p" "i < length (m_threads p)" "m_threads p ! i = Taking" "worker_step i p = Some p'"
  shows "history_ok p'"
proof (cases "dequeue (m_queue p)")
  case (Pair d q)
  have p': "p' = goes_to i (Leaving d) (p\<lparr>m_queue := q, taken := taken p @ (case d of None \<Rightarrow> [] | Some f \<Rightarrow> [f])\<rparr>)"
    using assms(2-4) Pair by (simp add: worker_step_def)
  have hand: "in_hand (Leaving d) = (case d of None \<Rightarrow> [] | Some f \<Rightarrow> [f])"
    by (simp split: option.split)
  have "mset (in_flight p') = mset (in_flight p) + mset (in_hand (Leaving d))"
    unfolding p' using in_flight_swap [OF assms(2)] assms(3) by simp
  moreover have "q_elements (m_queue p) = in_hand (Leaving d) @ q_elements q"
    using Pair sq.deq_Some [of "m_queue p"] sq.deq_None [of "m_queue p"] by (cases d) auto
  moreover have "in_flight p = []" "in_flight p' = in_hand (Leaving d)" if "length (m_threads p) = 1"
    using in_flight_single [of p i] in_flight_single [of p' i] that assms(2,3) by (simp_all add: p')
  ultimately show ?thesis
    using assms(1) by (auto simp: history_ok_def p' hand [symmetric])
qed

lemma history_ok_running:
  assumes "history_ok p" "i < length (m_threads p)" "m_threads p ! i = Running f" "worker_step i p = Some p'"
  shows "history_ok p'"
proof -
  have p': "p' = goes_to i Checking (p\<lparr>finished := finished p @ [f]\<rparr>)"
    using assms(2-4) by (simp add: worker_step_def)
  have "mset (in_flight p') + {#f#} = mset (in_flight p)"
    unfolding p' using in_flight_swap [OF assms(2), of "p\<lparr>finished := finished p @ [f]\<rparr>" Checking] assms(3) by simp
  moreover have "in_flight p = [f]" "in_flight p' = []" if "length (m_threads p) = 1"
    using in_flight_single [of p i] in_flight_single [of p' i] that assms(2,3) by (simp_all add: p')
  ultimately show ?thesis
    using assms(1) by (auto simp: history_ok_def p' union_assoc add.commute)
qed

lemma history_ok_goes:
  assumes "history_ok p" "i < length (m_threads p)" "in_hand w = in_hand (m_threads p ! i)"
    and "m_threads q = m_threads p" "submitted q = submitted p" "taken q = taken p" "m_queue q = m_queue p"
      "finished q = finished p"
  shows "history_ok (goes_to i w q)"
proof (rule history_ok_same [OF assms(1)])
  have "in_flight (goes_to i w q) = in_flight q"
    using assms(2-4) by (intro in_flight_keep) simp_all
  then show "in_flight (goes_to i w q) = in_flight p"
    using assms(4) by (simp add: in_flight_def)
qed (use assms in simp_all)

lemma history_ok_worker:
  assumes "history_ok p" "worker_step i p = Some p'"
  shows "history_ok p'"
proof -
  have i: "i < length (m_threads p)"
    using worker_stepE [OF assms(2)] by blast
  consider "m_threads p ! i = Taking" | f where "m_threads p ! i = Running f"
    | "m_threads p ! i \<noteq> Taking" "\<forall>f. m_threads p ! i \<noteq> Running f"
    by blast
  then show ?thesis
  proof cases
    case 1
    then show ?thesis
      by (rule history_ok_taking [OF assms(1) i _ assms(2)])
  next
    case 2
    then show ?thesis
      by (rule history_ok_running [OF assms(1) i _ assms(2)])
  next
    case 3
    obtain w q where "p' = goes_to i w q" "m_threads q = m_threads p" "in_hand w = in_hand (m_threads p ! i)"
      "submitted q = submitted p" "taken q = taken p" "m_queue q = m_queue p" "finished q = finished p"
      using assms(2) i 3
      by (cases "m_threads p ! i") (auto simp: worker_step_def split: option.splits if_splits)
    then show ?thesis
      using history_ok_goes [OF assms(1) i] by simp
  qed
qed

lemma history_ok_kept:
  assumes "history_ok p" "pool_fire l p = Some p'"
  shows "history_ok p'"
proof (cases l)
  case (Submit f)
  then show ?thesis
    using assms by (auto simp: submit_def history_ok_def sq.items_enq in_flight_def)
next
  case (NotifyOne i)
  then show ?thesis
    using assms by (auto simp: notify_one_def in_flight_def split: if_splits
        intro: history_ok_same intro!: history_ok_goes [of p])
next
  case (Worker i)
  then show ?thesis
    using assms history_ok_worker by simp
next
  case (Spurious i)
  then show ?thesis
    using assms by (auto simp: spurious_def split: if_splits intro!: history_ok_goes [of p])
next
  case Shutdown
  then show ?thesis
    using assms by (auto simp: shutdown_step_def in_flight_def comp_def split: if_splits closer.splits intro!: history_ok_same [of p])
qed

definition pool_ok :: "'f pool \<Rightarrow> bool" where
  "pool_ok p \<longleftrightarrow> lock_ok p \<and> history_ok p \<and> closing_ok p"

interpretation pool_inv: machine_invariant pool_fire pool_ok
  by unfold_locales (use lock_ok_kept history_ok_kept closing_ok_kept in \<open>auto simp: pool_ok_def\<close>)

lemma in_flight_new [simp]: "in_flight (ThreadPool n) = []"
  by (induction n) (simp_all add: in_flight_def ThreadPool_def)

lemma ThreadPool_ok: "pool_ok (ThreadPool n)"
proof -
  have "history_ok (ThreadPool n)"
    unfolding history_ok_def in_flight_new by (simp add: ThreadPool_def)
  then show ?thesis
    by (auto simp: pool_ok_def lock_ok_def closing_ok_def joined_def ThreadPool_def)
qed

lemma pool_length: "reach pool_fire (ThreadPool n) p \<Longrightarrow> length (m_threads p) = n"
proof (induction rule: reach.induct)
  case (reach_fire p l p')
  then show ?case
    by (cases l) (auto simp: submit_def notify_one_def spurious_def shutdown_step_def
        split: if_splits closer.splits elim!: worker_stepE)
qed (simp add: ThreadPool_def)

lemma asleep_none: "m_threads p = [Waiting] \<Longrightarrow> worker_step i p = None"
  by (cases i) (simp_all add: worker_step_def)

lemma notify_none: "submitting p = 0 \<Longrightarrow> notify_one j p = None"
  by (simp add: notify_one_def)

section \<open>Properties\<close>

text \<open>
  C17: Whatever the scheduler, the wake-ups and the calls of \<^verbatim>\<open>submit\<close> and \<^verbatim>\<open>shutdown\<close> do, every
  submitted task is queued, in the hands of one worker or finished, never two of these: it runs at
  most once and nothing else runs. Tasks are taken in the order of their submission; the default pool
  of one thread also finishes them in that order.
\<close>
theorem pool_runs_each_task_once:
  assumes "reach pool_fire (ThreadPool n) p"
  shows "mset (submitted p) = mset (finished p) + mset (in_flight p) + mset (q_elements (m_queue p)) \<and>
    submitted p = taken p @ q_elements (m_queue p) \<and>
    (n = 1 \<longrightarrow> submitted p = finished p @ in_flight p @ q_elements (m_queue p))"
proof -
  have "history_ok p"
    using pool_inv.always [OF assms ThreadPool_ok] by (simp add: pool_ok_def)
  then show ?thesis
    using pool_length [OF assms] by (auto simp: history_ok_def)
qed

definition demo_run :: "nat pool_action list" where
  "demo_run = [Submit 7, Worker 0, NotifyOne 0, Worker 0, Worker 0, Worker 0, Submit 8, Worker 0, Worker 0, Worker 0]"

lemmas pool_defs = worker_step_def submit_def notify_one_def shutdown_step_def spurious_def goes_to_def mutex_lock_def
  queue_empty_def enqueue_def dequeue_def SafeQueue_def ThreadPool_def

theorem pool_runs_each_task_once_witness:
  "\<exists>p. run_actions pool_fire demo_run (ThreadPool 1) = Some p \<and> finished p = [7] \<and>
    submitted p = finished p @ in_flight p @ q_elements (m_queue p)"
proof -
  obtain p where p: "run_actions pool_fire demo_run (ThreadPool 1) = Some p" "finished p = [7]"
    by (simp add: demo_run_def pool_defs)
  then show ?thesis
    using pool_runs_each_task_once [OF run_reach [OF p(1)]] by blast
qed

text \<open>
  \<^verbatim>\<open>shutdown\<close> returns only when every worker has left its loop; from then on no task runs any
  more. A task that was still queued is never run: its future is never fulfilled.
\<close>
lemma pool_shutdown_quiesces:
  assumes "reach pool_fire (ThreadPool n) p" "closer p = Closed"
  shows "set (m_threads p) \<subseteq> {Exited} \<and>
    mset (submitted p) = mset (finished p) + mset (q_elements (m_queue p)) \<and>
    (\<forall>l p'. pool_fire l p = Some p' \<longrightarrow> finished p' = finished p)"
proof -
  have ok: "closing_ok p" "history_ok p"
    using pool_inv.always [OF assms(1) ThreadPool_ok] by (simp_all add: pool_ok_def)
  then have ex: "\<forall>i < length (m_threads p). m_threads p ! i = Exited"
    using assms(2) by (simp add: closing_ok_def joined_def)
  then have all: "set (m_threads p) \<subseteq> {Exited}"
    by (auto simp: in_set_conv_nth)
  then have none: "in_flight p = []"
    by (auto simp: in_flight_def)
  have "finished p' = finished p" if "pool_fire l p = Some p'" for l p'
    using that ex assms(2)
    by (cases l) (auto simp: submit_def notify_one_def spurious_def shutdown_step_def worker_step_def split: if_splits)
  then show ?thesis
    using all none ok(2) by (simp add: history_ok_def)
qed

lemma pool_shutdown_quiesces_witness:
  "\<exists>p. run_actions pool_fire [Submit 7, Shutdown, Shutdown, Worker 0, Shutdown, Shutdown] (ThreadPool 1) = Some p \<and>
    mset (submitted p) = mset (finished p) + mset (q_elements (m_queue p)) \<and> q_elements (m_queue p) = [7 :: nat]"
proof -
  obtain p where p: "run_actions pool_fire [Submit (7 :: nat), Shutdown, Shutdown, Worker 0, Shutdown, Shutdown] (ThreadPool 1) = Some p"
    "closer p = Closed" "q_elements (m_queue p) = [7]"
    by (simp add: pool_defs wake_def)
  then show ?thesis
    using pool_shutdown_quiesces [OF run_reach [OF p(1)] p(2)] by simp
qed

text \<open>
  C32: A wake-up can be lost: \<^verbatim>\<open>submit\<close> queues the task and notifies without holding the mutex, so
  both can happen between the worker's test of the queue and its wait. Then the only worker of a pool that is not
  being shut down sleeps with the task in the queue, the mutex free and no notification under way, and only a spurious wake-up,
  another \<^verbatim>\<open>submit\<close> or \<^verbatim>\<open>shutdown\<close> can make a step.
\<close>
theorem pool_lost_wakeup:
  "\<exists>p. reach pool_fire (ThreadPool 1) p \<and> m_threads p = [Waiting] \<and> \<not> m_shutdown p \<and> closer p = NotClosing \<and>
    submitted p = [f] \<and> q_elements (m_queue p) = [f] \<and> finished p = [] \<and> m_conditional_mutex p = None \<and> submitting p = 0 \<and>
    (\<forall>i j. worker_step i p = None \<and> notify_one j p = None)"
proof -
  obtain p where p: "run_actions pool_fire [Worker 0, Worker 0, Worker 0, Submit f, NotifyOne 0, Worker 0] (ThreadPool 1) = Some p"
    "submitted p = [f]" "q_elements (m_queue p) = [f]" "finished p = []" "m_threads p = [Waiting]" "submitting p = 0"
    "\<not> m_shutdown p" "closer p = NotClosing" "m_conditional_mutex p = None"
    by (simp add: pool_defs)
  moreover have "worker_step i p = None" "notify_one j p = None" for i j
    using p(5,6) by (simp_all add: asleep_none notify_none)
  ultimately show ?thesis
    using run_reach [OF p(1)] by blast
qed

text \<open>
  C33: \<^verbatim>\<open>shutdown\<close> can hang: a worker that has read \<^verbatim>\<open>m_shutdown\<close> as false before \<^verbatim>\<open>shutdown\<close> sets it does
  not look again before it waits, so it misses the one notification and \<^verbatim>\<open>join\<close> never returns.
\<close>
theorem pool_shutdown_hangs:
  "\<exists>p :: 'f pool. reach pool_fire (ThreadPool 1) p \<and> m_shutdown p \<and> closer p = Joining 0 \<and> shutdown_step p = None \<and>
    (\<forall>i j. worker_step i p = None \<and> notify_one j p = None)"
proof -
  obtain p :: "'f pool" where p: "run_actions pool_fire [Worker 0, Shutdown, Shutdown, Worker 0, Worker 0, Worker 0] (ThreadPool 1) = Some p"
    "m_shutdown p" "closer p = Joining 0" "m_threads p = [Waiting]" "submitting p = 0"
    by (simp add: pool_defs wake_def)
  moreover have "worker_step i p = None" "notify_one j p = None" "shutdown_step p = None" for i j
    using p(3-5) by (simp_all add: asleep_none notify_none shutdown_step_def)
  ultimately show ?thesis
    using run_reach [OF p(1)] by blast
qed

end
