(* ===== verification/PoolFutures.thy ===== *)
theory PoolFutures imports ThreadPool begin

text \<open>
  What \<^verbatim>\<open>submit\<close> of \<^verbatim>\<open>src/src/ThreadPool.h\<close> returns: the future of a \<^verbatim>\<open>std::packaged_task\<close> that a worker of theory
  \<^verbatim>\<open>ThreadPool\<close> calls. The value or the exception of the call ends up in the future.
\<close>

section \<open>State\<close>

text \<open>
  The shared state of a packaged task: not ready, or what its one call has left there; \<open>Broken\<close> is what the destructor of
  a packaged task leaves that was never called.
\<close>

datatype ('e, 'r) shared_state = NotReady | Value 'r | Raised 'e | Broken

text \<open>
  The pool's tasks are the numbers of their packaged tasks. \<open>task_calls ! k\<close>: the outcomes that the \<open>k\<close>-th function,
  bound to its arguments, may have; it may also never return.
\<close>

record ('e, 'r) future_pool =
  base :: "nat pool"
  task_calls :: "('e + 'r \<Rightarrow> bool) list"
  futures :: "('e, 'r) shared_state list"

definition new_pool :: "nat \<Rightarrow> ('e, 'r) future_pool" where
  "new_pool n_threads = \<lparr>base = ThreadPool n_threads, task_calls = [], futures = []\<rparr>"

section \<open>Operations\<close>

text \<open>\<^verbatim>\<open>submit\<close> makes the packaged task, queues its wrapper and returns the future: its number.\<close>

definition submit_task :: "('e + 'r \<Rightarrow> bool) \<Rightarrow> ('e, 'r) future_pool \<Rightarrow> nat \<times> ('e, 'r) future_pool" where
  "submit_task f p =
     (let k = length (task_calls p)
      in (k, p\<lparr>base := submit k (base p), task_calls := task_calls p @ [f], futures := futures p @ [NotReady]\<rparr>))"

text \<open>The wrapper: a packaged task keeps the value its function returns or the exception it throws.\<close>

fun keep_outcome :: "'e + 'r \<Rightarrow> ('e, 'r) shared_state" where
  "keep_outcome (Inl e) = Raised e"
| "keep_outcome (Inr r) = Value r"

definition call_task :: "nat \<Rightarrow> 'e + 'r \<Rightarrow> ('e, 'r) future_pool \<Rightarrow> ('e, 'r) future_pool option" where
  "call_task k out p =
     (if k < length (task_calls p) \<and> (task_calls p ! k) out then Some (p\<lparr>futures := (futures p)[k := keep_outcome out]\<rparr>) else None)"

text \<open>A step of worker \<open>i\<close>; when it is at the call of a task, \<open>out\<close> is what the function does.\<close>

definition pool_worker :: "nat \<Rightarrow> 'e + 'r \<Rightarrow> ('e, 'r) future_pool \<Rightarrow> ('e, 'r) future_pool option" where
  "pool_worker i out p =
     (case worker_step i (base p) of
        None \<Rightarrow> None
      | Some b \<Rightarrow>
          (case m_threads (base p) ! i of
             Running k \<Rightarrow> (case call_task k out p of None \<Rightarrow> None | Some p' \<Rightarrow> Some (p'\<lparr>base := b\<rparr>))
           | _ \<Rightarrow> Some (p\<lparr>base := b\<rparr>)))"

datatype ('e, 'r) future_action = Give "'e + 'r \<Rightarrow> bool" | Step nat "'e + 'r" | Other "nat pool_action"

text \<open>The remaining actions of the pool: notifications, spurious wake-ups, \<^verbatim>\<open>shutdown\<close>.\<close>

fun future_fire :: "('e, 'r) future_action \<Rightarrow> ('e, 'r) future_pool \<Rightarrow> ('e, 'r) future_pool option" where
  "future_fire (Give f) p = Some (snd (submit_task f p))"
| "future_fire (Step i out) p = pool_worker i out p"
| "future_fire (Other a) p =
     (case a of Submit k \<Rightarrow> None | Worker i \<Rightarrow> None | _ \<Rightarrow> map_option (\<lambda>b. p\<lparr>base := b\<rparr>) (pool_fire a (base p)))"

text \<open>\<^verbatim>\<open>future::get\<close>: \<open>None\<close> while it has to wait; of a broken promise it throws, \<open>broken\<close> stands for that exception.\<close>

definition future_get :: "'e \<Rightarrow> nat \<Rightarrow> ('e, 'r) future_pool \<Rightarrow> ('e + 'r) option" where
  "future_get broken k p =
     (case futures p ! k of NotReady \<Rightarrow> None | Value r \<Rightarrow> Some (Inr r) | Raised e \<Rightarrow> Some (Inl e) | Broken \<Rightarrow> Some (Inl broken))"

text \<open>
  The destructor the compiler makes: the threads go before the queue, and a thread that has not been joined terminates
  the program; the wrappers still queued take their packaged tasks with them.
\<close>

definition delete_pool :: "('e, 'r) future_pool \<Rightarrow> fault + ('e, 'r) future_pool" where
  "delete_pool p =
     (if joined (base p) < length (m_threads (base p)) then Inl Terminated
      else Inr (p\<lparr>futures := map (\<lambda>(k, f). if k \<in> set (q_elements (m_queue (base p))) then Broken else f)
                               (enumerate 0 (futures p))\<rparr>))"

section \<open>Invariant\<close>

definition futures_ok :: "('e, 'r) future_pool \<Rightarrow> bool" where
  "futures_ok p \<longleftrightarrow> pool_ok (base p) \<and> length (futures p) = length (task_calls p) \<and> submitted (base p) = [0..<length (task_calls p)] \<and>
     (\<forall>k < length (futures p). if k \<in> set (finished (base p))
        then \<exists>out. (task_calls p ! k) out \<and> futures p ! k = keep_outcome out else futures p ! k = NotReady)"

lemma keep_outcome_ready [simp]: "keep_outcome out \<noteq> NotReady" "keep_outcome out \<noteq> Broken" "NotReady \<noteq> keep_outcome out"
  by (cases out; simp)+

lemma futures_ok_base:
  assumes "futures_ok p" "pool_fire a (base p) = Some b" "submitted b = submitted (base p)" "finished b = finished (base p)"
  shows "futures_ok (p\<lparr>base := b\<rparr>)"
  using assms pool_inv.kept [OF _ assms(2)] by (simp add: futures_ok_def)

lemma futures_ok_worker:
  assumes ok: "futures_ok p" and run: "pool_worker i out p = Some p'"
  shows "futures_ok p'"
proof -
  obtain b where b: "worker_step i (base p) = Some b"
    using run by (auto simp: pool_worker_def split: option.splits)
  then have fire: "pool_fire (Worker i) (base p) = Some b" and i: "i < length (m_threads (base p))"
    by (auto simp: worker_step_def split: if_splits)
  show ?thesis
  proof (cases "\<exists>k. m_threads (base p) ! i = Running k")
    case True
    then obtain k where k: "m_threads (base p) ! i = Running k"
      by blast
    then have "submitted b = submitted (base p)" "finished b = finished (base p) @ [k]"
      using b i by (auto simp: worker_step_def)
    moreover have "k < length (task_calls p)" "(task_calls p ! k) out" "p' = p\<lparr>futures := (futures p)[k := keep_outcome out], base := b\<rparr>"
      using run b k by (auto simp: pool_worker_def call_task_def split: if_splits)
    moreover have "pool_ok b"
      using ok pool_inv.kept [OF _ fire] by (simp add: futures_ok_def)
    ultimately show ?thesis
      using ok by (auto simp: futures_ok_def nth_list_update)
  next
    case False
    then have "submitted b = submitted (base p)" "finished b = finished (base p)" "p' = p\<lparr>base := b\<rparr>"
      using run b i by (auto simp: worker_step_def pool_worker_def Let_def split: worker.splits if_splits option.splits prod.splits)
    then show ?thesis
      using futures_ok_base [OF ok fire] by simp
  qed
qed

lemma futures_ok_fire:
  assumes ok: "futures_ok p" and run: "future_fire a p = Some p'"
  shows "futures_ok p'"
  using run
proof (cases "(a, p)" rule: future_fire.cases)
  case (1 f q)
  have "pool_ok (submit (length (task_calls p)) (base p))"
    using pool_inv.kept [of "base p" "Submit (length (task_calls p))"] ok by (simp add: futures_ok_def)
  moreover have "set (finished (base p)) \<subseteq> {0..<length (task_calls p)}"
  proof -
    have "mset (finished (base p)) \<subseteq># mset (submitted (base p))"
      using ok by (simp add: futures_ok_def pool_ok_def history_ok_def)
    then show ?thesis
      using ok set_mset_mono by (fastforce simp: futures_ok_def)
  qed
  ultimately show ?thesis
    using ok run 1 by (fastforce simp: futures_ok_def submit_task_def submit_def Let_def nth_append less_Suc_eq)
next
  case (2 i out q)
  then show ?thesis
    using futures_ok_worker [OF ok] run by simp
next
  case (3 act q)
  then obtain b where "pool_fire act (base p) = Some b" "p' = p\<lparr>base := b\<rparr>" "submitted b = submitted (base p)" "finished b = finished (base p)"
    using run by (cases act) (auto simp: notify_one_def spurious_def shutdown_step_def split: if_splits closer.splits)
  then show ?thesis
    using futures_ok_base [OF ok] by simp
qed

interpretation future_inv: machine_invariant future_fire futures_ok
  by unfold_locales (rule futures_ok_fire)

lemma new_pool_ok: "futures_ok (new_pool n)"
  using ThreadPool_ok [of n] by (simp add: futures_ok_def new_pool_def ThreadPool_def)

lemma futures_okD:
  assumes "futures_ok p" "k < length (futures p)"
  shows "k \<in> set (finished (base p)) \<Longrightarrow> \<exists>out. (task_calls p ! k) out \<and> futures p ! k = keep_outcome out"
    "k \<notin> set (finished (base p)) \<Longrightarrow> futures p ! k = NotReady"
  using assms unfolding futures_ok_def by auto

lemma tasks_apart:
  assumes "futures_ok p"
  shows "distinct (finished (base p) @ in_flight (base p) @ q_elements (m_queue (base p)))"
    "set (finished (base p) @ in_flight (base p) @ q_elements (m_queue (base p))) = {0..<length (futures p)}"
proof -
  let ?ts = "finished (base p) @ in_flight (base p) @ q_elements (m_queue (base p))"
  have "mset ?ts = mset [0..<length (futures p)]"
    using assms unfolding futures_ok_def pool_ok_def history_ok_def by (metis add.assoc mset_append)
  then show "distinct ?ts" "set ?ts = {0..<length (futures p)}"
    using mset_eq_imp_distinct_iff distinct_upt mset_eq_setD by (blast, metis set_upt)
qed

lemma future_stays:
  assumes ok: "futures_ok p" and run: "future_fire a p = Some p'" and ready: "k < length (futures p)" "futures p ! k \<noteq> NotReady"
  shows "futures p' ! k = futures p ! k"
proof (cases "(a, p)" rule: future_fire.cases)
  case (1 f q)
  then show ?thesis
    using run ready by (auto simp: submit_task_def Let_def nth_append)
next
  case (2 i out q)
  have "set (finished (base p)) \<inter> set (in_flight (base p)) = {}"
    using tasks_apart(1) [OF ok] by auto
  moreover have "k \<in> set (finished (base p))"
    using futures_okD(2) [OF ok ready(1)] ready(2) by blast
  moreover have "j \<in> set (in_flight (base p))" if "m_threads (base p) ! i = Running j" "i < length (m_threads (base p))" for j
    using that(1) by (auto simp: in_flight_def intro!: bexI [OF _ nth_mem [OF that(2)]])
  ultimately have "m_threads (base p) ! i \<noteq> Running k \<or> \<not> i < length (m_threads (base p))"
    by blast
  then show ?thesis
    using run 2 by (auto simp: pool_worker_def worker_step_def call_task_def split: worker.splits if_splits option.splits prod.splits)
next
  case (3 act q)
  then show ?thesis
    using run by (cases act) auto
qed

lemma futures_grow:
  assumes "future_fire a p = Some p'"
  shows "length (futures p) \<le> length (futures p')"
proof (cases "(a, p)" rule: future_fire.cases)
  case (3 act q)
  then show ?thesis
    using assms by (cases act) auto
qed (use assms in \<open>auto simp: submit_task_def Let_def pool_worker_def call_task_def split: option.splits worker.splits if_splits\<close>)

lemma future_kept:
  assumes "reach future_fire p p'" "futures_ok p" "k < length (futures p)" "futures p ! k \<noteq> NotReady"
  shows "futures p' ! k = futures p ! k \<and> k < length (futures p')"
  using assms(1)
proof induction
  case (reach_fire q l q')
  then show ?case
    using future_stays [OF future_inv.always [OF reach_fire(1) assms(2)] reach_fire(2)] futures_grow [OF reach_fire(2)] assms(4)
    by (metis order_less_le_trans)
qed (use assms(3) in simp)

lemma future_get_simps:
  "future_get broken k p = None \<longleftrightarrow> futures p ! k = NotReady"
  "futures p ! k = keep_outcome out \<Longrightarrow> future_get broken k p = Some out"
  by (cases out; simp add: future_get_def split: shared_state.splits)+

text \<open>A worker that calls a task.\<close>

lemma worker_calls:
  assumes "futures_ok p" "k < length (futures p)" "i < length (m_threads (base p))" "m_threads (base p) ! i = Running k" "(task_calls p ! k) out"
  shows "\<exists>q. future_fire (Step i out) p = Some q \<and> m_threads (base q) = (m_threads (base p))[i := Checking] \<and> future_get broken k q = Some out"
proof -
  have "k < length (task_calls p)"
    using assms(1,2) by (simp add: futures_ok_def)
  then show ?thesis
    using assms(2-5) by (simp add: pool_worker_def worker_step_def call_task_def future_get_simps(2) [of _ k out])
qed

lemma future_outcome_kept:
  assumes ok: "futures_ok p" and later: "reach future_fire p p'" and k: "k < length (futures p)"
  shows "(future_get broken k p = None \<longleftrightarrow> k \<notin> set (finished (base p))) \<and>
    (\<forall>out. future_get broken k p = Some out \<longrightarrow> (task_calls p ! k) out \<and> future_get broken k p' = Some out)"
proof (cases "k \<in> set (finished (base p))")
  case True
  then obtain out where out: "(task_calls p ! k) out" "futures p ! k = keep_outcome out"
    using futures_okD(1) [OF ok k] by blast
  then have "futures p' ! k = keep_outcome out"
    using future_kept [OF later ok k] by simp
  then show ?thesis
    using True out by (simp add: future_get_simps)
next
  case False
  then have "futures p ! k = NotReady"
    by (rule futures_okD(2) [OF ok k])
  then show ?thesis
    using False by (simp add: future_get_simps(1) [THEN iffD2])
qed

section \<open>Properties\<close>

text \<open>
  C38: The future that \<^verbatim>\<open>submit\<close> returns belongs to its task: \<^verbatim>\<open>get\<close> waits exactly until a worker has called the task, and from
  then on gives, at every later moment, the one value or exception with which that call ended; no task is called twice.
  An exception stays in its future and does not reach the worker: whatever the call of a task ends with, a value or an exception,
  the worker goes on with its loop, every other worker is where it was, and the future gives that outcome.
\<close>
theorem pool_future_outcome:
  assumes "reach future_fire (new_pool n) p" "reach future_fire p p'" "k < length (futures p)"
  shows "(future_get broken k p = None \<longleftrightarrow> k \<notin> set (finished (base p))) \<and>
    (\<forall>out. future_get broken k p = Some out \<longrightarrow> (task_calls p ! k) out \<and> future_get broken k p' = Some out) \<and>
    distinct (finished (base p')) \<and>
    (\<forall>i out. i < length (m_threads (base p)) \<and> m_threads (base p) ! i = Running k \<and> (task_calls p ! k) out \<longrightarrow>
      (\<exists>q. future_fire (Step i out) p = Some q \<and> m_threads (base q) = (m_threads (base p))[i := Checking] \<and>
         future_get broken k q = Some out))"
proof -
  have ok: "futures_ok p"
    by (rule future_inv.always [OF assms(1) new_pool_ok])
  have "distinct (finished (base p'))"
    using tasks_apart(1) [OF future_inv.always [OF assms(2) ok]] by simp
  moreover have "\<exists>q. future_fire (Step i out) p = Some q \<and> m_threads (base q) = (m_threads (base p))[i := Checking] \<and>
      future_get broken k q = Some out"
    if "i < length (m_threads (base p))" "m_threads (base p) ! i = Running k" "(task_calls p ! k) out" for i out
    using worker_calls [OF ok assms(3) that] .
  ultimately show ?thesis
    using future_outcome_kept [OF ok assms(2,3)] by blast
qed

text \<open>Two tasks on one thread: one returns 5, the other one throws.\<close>

definition demo_tasks :: "(string, nat) future_action list" where
  "demo_tasks =
     [Give (\<lambda>out. out = Inr 5), Give (\<lambda>out. out = Inl ''boom'')] @ replicate 6 (Step 0 (Inr 5)) @ replicate 6 (Step 0 (Inl ''boom''))"

theorem pool_future_outcome_witness:
  "\<exists>p. run_actions future_fire demo_tasks (new_pool 1) = Some p \<and> future_get ''broken'' 0 p = Some (Inr 5) \<and>
    future_get ''broken'' 1 p = Some (Inl ''boom'') \<and> distinct (finished (base p)) \<and> m_threads (base p) = [Checking]"
proof -
  have "map_option (\<lambda>p. (length (futures p), future_get ''broken'' 0 p, future_get ''broken'' 1 p, m_threads (base p)))
      (run_actions future_fire demo_tasks (new_pool 1)) = Some (2, Some (Inr 5), Some (Inl ''boom''), [Checking])"
    by code_simp
  then obtain p where p: "run_actions future_fire demo_tasks (new_pool 1) = Some p" "reach future_fire (new_pool 1) p"
      "(length (futures p), future_get ''broken'' 0 p, future_get ''broken'' 1 p, m_threads (base p)) =
        (2, Some (Inr 5), Some (Inl ''boom''), [Checking])"
    by (rule run_part)
  have "0 < length (futures p)"
    using p(3) by simp
  from pool_future_outcome [OF p(2) reach_refl this] p show ?thesis
    by simp
qed

text \<open>
  C39: The pool can be destroyed only when a \<^verbatim>\<open>shutdown\<close> has joined every thread, otherwise, and only then, the program is terminated.
  After it every thread has left its loop, and nobody waits for ever: the tasks that were called keep their outcome, and the futures of
  those that were still queued get a broken promise.
\<close>
theorem pool_destroyed:
  assumes "reach future_fire (new_pool n) p" "k < length (futures p)"
  shows "case delete_pool p of
      Inl e \<Rightarrow> e = Terminated \<and> joined (base p) < length (m_threads (base p))
    | Inr p' \<Rightarrow> length (m_threads (base p)) \<le> joined (base p) \<and> (\<forall>w \<in> set (m_threads (base p)). w = Exited) \<and>
        (m_threads (base p) \<noteq> [] \<longrightarrow> m_shutdown (base p)) \<and>
        future_get broken k p' = (if k \<in> set (finished (base p)) then future_get broken k p else Some (Inl broken))"
proof (cases "joined (base p) < length (m_threads (base p))")
  case False
  have ok: "futures_ok p"
    by (rule future_inv.always [OF assms(1) new_pool_ok])
  then have exited: "\<forall>i < length (m_threads (base p)). m_threads (base p) ! i = Exited"
      and "\<forall>i < length (m_threads (base p)). m_threads (base p) ! i = Exited \<longrightarrow> m_shutdown (base p)"
    using False unfolding futures_ok_def pool_ok_def closing_ok_def by auto
  then have shut: "m_threads (base p) \<noteq> [] \<longrightarrow> m_shutdown (base p)" "\<forall>w \<in> set (m_threads (base p)). w = Exited"
    by (auto simp: in_set_conv_nth)
  have none: "in_flight (base p) = []"
    using exited by (auto simp: in_flight_def in_set_conv_nth)
  have "k \<in> set (finished (base p)) \<longleftrightarrow> k \<notin> set (q_elements (m_queue (base p)))"
    using tasks_apart [OF ok] assms(2) unfolding none by auto
  then show ?thesis
    using False assms(2) shut by (auto simp: delete_pool_def future_get_def nth_enumerate_eq)
qed (simp add: delete_pool_def)

text \<open>The first task is called, the second one is still queued when the pool is shut down.\<close>

definition demo_close :: "(string, nat) future_action list" where
  "demo_close = take 7 demo_tasks @ [Other Shutdown, Step 0 (Inr 5), Other Shutdown, Step 0 (Inr 5), Other Shutdown, Other Shutdown]"

theorem pool_destroyed_witness:
  "\<exists>p p'. run_actions future_fire demo_close (new_pool 1) = Some p \<and> delete_pool p = Inr p' \<and>
    future_get ''broken'' 0 p' = Some (Inr 5) \<and> future_get ''broken'' 1 p' = Some (Inl ''broken'')"
proof -
  have "map_option (\<lambda>p. (length (futures p), joined (base p), length (m_threads (base p)), finished (base p), future_get ''broken'' 0 p))
      (run_actions future_fire demo_close (new_pool 1)) = Some (2, 1, 1, [0], Some (Inr 5))"
    by code_simp
  then obtain p where p: "run_actions future_fire demo_close (new_pool 1) = Some p" "reach future_fire (new_pool 1) p"
      "(length (futures p), joined (base p), length (m_threads (base p)), finished (base p), future_get ''broken'' 0 p) =
        (2, 1, 1, [0], Some (Inr 5))"
    by (rule run_part)
  then obtain p' where p': "delete_pool p = Inr p'"
    by (simp add: delete_pool_def)
  have "0 < length (futures p)" "1 < length (futures p)"
    using p(3) by simp_all
  from this [THEN pool_destroyed [OF p(2), of _ "''broken''"]] show ?thesis
    using p p' by simp
qed

end
