(* ===== verification/GaiaThread.thy ===== *)
theory GaiaThread imports Machine Prog begin

text \<open>
  \<^verbatim>\<open>src/src/gaiathread.cpp\<close>: the wrappers of a thread, a mutex and an event. The body of a thread is
  the pure virtual \<^verbatim>\<open>ThreadMain\<close> of a class outside the repository; all that matters here
  is whether it returns.
\<close>

section \<open>CThread\<close>

text \<open>\<open>joinable\<close> is the state of \<^verbatim>\<open>thread_\<close>: it stands for a thread that has not been joined.\<close>

record cthread =
  m_bRunning :: bool
  joinable_thread :: bool

definition CThread :: cthread where
  "CThread = \<lparr>m_bRunning = False, joinable_thread = False\<rparr>"

text \<open>Assigning to a \<^verbatim>\<open>std::thread\<close> that is joinable calls \<^verbatim>\<open>std::terminate\<close>.\<close>

definition Start :: "(cthread, bool) prog" where
  "Start =
     bind (gets joinable_thread) (\<lambda>old.
     if old then raise Terminated
     else bind (modify (\<lambda>t. t\<lparr>joinable_thread := True\<rparr>)) (\<lambda>_.
          bind (modify (\<lambda>t. t\<lparr>m_bRunning := True\<rparr>)) (\<lambda>_. ret True)))"

definition join_thread :: "bool \<Rightarrow> (cthread, unit) prog" where
  "join_thread main_returns =
     bind (gets joinable_thread) (\<lambda>j.
     if \<not> j then raise (Thrown ''std::system_error'')
     else if main_returns then modify (\<lambda>t. t\<lparr>joinable_thread := False\<rparr>) else stuck)"

definition Wait :: "bool \<Rightarrow> (cthread, bool) prog" where
  "Wait main_returns =
     bind (gets m_bRunning) (\<lambda>running.
     if \<not> running then ret True
     else bind (modify (\<lambda>t. t\<lparr>m_bRunning := False\<rparr>)) (\<lambda>_.
          bind (join_thread main_returns) (\<lambda>_. ret True)))"

definition IsRunning :: "cthread \<Rightarrow> bool" where
  "IsRunning t \<longleftrightarrow> m_bRunning t"

text \<open>The assertion is compiled in when \<^verbatim>\<open>NDEBUG\<close> is not defined.\<close>

definition delete_CThread :: "bool \<Rightarrow> (cthread, unit) prog" where
  "delete_CThread ndebug =
     bind (gets id) (\<lambda>t.
     if \<not> ndebug \<and> m_bRunning t then raise AssertFailed
     else if joinable_thread t then raise Terminated
     else ret ())"

datatype thread_call = CallStart | CallWait

fun cthread_calls :: "bool \<Rightarrow> thread_call list \<Rightarrow> (cthread, unit) prog" where
  "cthread_calls main_returns [] = ret ()"
| "cthread_calls main_returns (CallStart # cs) = bind Start (\<lambda>_. cthread_calls main_returns cs)"
| "cthread_calls main_returns (CallWait # cs) = bind (Wait main_returns) (\<lambda>_. cthread_calls main_returns cs)"

text \<open>
  The reference: a flag that says whether a thread has been started and not been waited for. Starting one
  twice is fatal, waiting is always allowed.
\<close>

fun started_after :: "bool \<Rightarrow> thread_call list \<Rightarrow> bool option" where
  "started_after r [] = Some r"
| "started_after r (CallStart # cs) = (if r then None else started_after True cs)"
| "started_after r (CallWait # cs) = started_after False cs"

definition thread_of :: "bool \<Rightarrow> cthread" where
  "thread_of r = \<lparr>m_bRunning = r, joinable_thread = r\<rparr>"

lemma thread_of_fields [simp]: "m_bRunning (thread_of r) = r" "joinable_thread (thread_of r) = r"
  by (simp_all add: thread_of_def)

lemma Start_run: "Start (thread_of r) = (if r then Some (Inl Terminated, thread_of r) else Some (Inr True, thread_of True))"
  by (simp add: Start_def prog thread_of_def)

lemma Wait_run: "Wait True (thread_of r) = Some (Inr True, thread_of False)"
  by (simp add: Wait_def join_thread_def prog thread_of_def)

lemma cthread_calls_run:
  "cthread_calls True cs (thread_of r) =
     (case started_after r cs of
        None \<Rightarrow> Some (Inl Terminated, thread_of True)
      | Some r' \<Rightarrow> Some (Inr (), thread_of r'))"
proof (induction cs arbitrary: r)
  case (Cons c cs)
  then show ?case
    by (cases c) (simp_all add: bind_def Start_run Wait_run)
qed (simp add: ret_def)

text \<open>
  C35: Any sequence of \<^verbatim>\<open>Start\<close> and \<^verbatim>\<open>Wait\<close> on a fresh \<^verbatim>\<open>CThread\<close> whose body returns behaves as one flag:
  the flag \<^verbatim>\<open>m_bRunning\<close> and the thread handle always agree, a second \<^verbatim>\<open>Start\<close> without a \<^verbatim>\<open>Wait\<close> between
  terminates the process, and nothing else fails. The object can be destroyed exactly when the
  last thread has been waited for.
\<close>
theorem cthread_is_one_flag:
  "(case started_after False cs of
      None \<Rightarrow> cthread_calls True cs CThread = Some (Inl Terminated, thread_of True)
    | Some r \<Rightarrow> cthread_calls True cs CThread = Some (Inr (), thread_of r) \<and> IsRunning (thread_of r) = r \<and>
        delete_CThread ndebug (thread_of r) =
          (if r then Some (Inl (if ndebug then Terminated else AssertFailed), thread_of r) else Some (Inr (), thread_of r)))"
proof -
  have fresh: "CThread = thread_of False"
    by (simp add: CThread_def thread_of_def)
  have del: "delete_CThread ndebug (thread_of r) =
      (if r then Some (Inl (if ndebug then Terminated else AssertFailed), thread_of r) else Some (Inr (), thread_of r))" for r
    by (simp add: delete_CThread_def prog)
  show ?thesis
    unfolding fresh cthread_calls_run del IsRunning_def by (simp split: option.split)
qed

section \<open>CLock\<close>

record clock =
  lock_mutex :: mutex

definition Lock :: "nat \<Rightarrow> clock \<Rightarrow> clock option" where
  "Lock t c = (case mutex_lock t (lock_mutex c) of None \<Rightarrow> None | Some m \<Rightarrow> Some (c\<lparr>lock_mutex := m\<rparr>))"

definition Unlock :: "nat \<Rightarrow> clock \<Rightarrow> fault + clock" where
  "Unlock t c = (case mutex_unlock t (lock_mutex c) of Inl e \<Rightarrow> Inl e | Inr m \<Rightarrow> Inr (c\<lparr>lock_mutex := m\<rparr>))"

definition lock :: "nat \<Rightarrow> clock \<Rightarrow> clock option" where
  "lock t c = Lock t c"

definition unlock :: "nat \<Rightarrow> clock \<Rightarrow> fault + clock" where
  "unlock t c = Unlock t c"

text \<open>A lock that was taken can be given back by its thread alone, and is then as it was.\<close>

lemma Lock_Unlock: "Lock t c = Some c' \<Longrightarrow> Unlock u c' = (if u = t then Inr c else Inl NotOwner)"
  by (auto simp: Lock_def Unlock_def mutex_lock_def mutex_unlock_def split: if_splits)

section \<open>CEvent\<close>

text \<open>
  The threads that use one event. \<open>Blocked\<close> ones sleep in the condition variable, \<open>Roused\<close> ones have been
  woken and are about to look at the flag again. \<open>setting\<close> counts the calls of \<^verbatim>\<open>Set\<close> between setting
  the flag and notifying. \<open>sets\<close> and \<open>passes\<close> count how often the flag was set and how often a \<^verbatim>\<open>Wait\<close>
  returned. A pass of \<^verbatim>\<open>Set\<close>, \<^verbatim>\<open>Wait\<close>, \<^verbatim>\<open>IsSet\<close> or \<^verbatim>\<open>Reset\<close> under the mutex is one step.
\<close>

datatype event_user = Outside | Blocked | Roused

record cevent =
  m_bManual :: bool
  m_bSet :: bool
  users :: "event_user list"
  setting :: nat
  sets :: nat
  passes :: nat

definition CEvent :: "bool \<Rightarrow> bool \<Rightarrow> nat \<Rightarrow> cevent" where
  "CEvent bManualReset bInitialSet n =
     \<lparr>m_bManual = bManualReset, m_bSet = bInitialSet, users = replicate n Outside, setting = 0, sets = 0, passes = 0\<rparr>"

definition Set :: "cevent \<Rightarrow> cevent" where
  "Set e = (if m_bSet e then e else e\<lparr>m_bSet := True, setting := Suc (setting e), sets := Suc (sets e)\<rparr>)"

definition Set_notify :: "nat \<Rightarrow> cevent \<Rightarrow> cevent option" where
  "Set_notify i e =
     (if setting e = 0 then None
      else if Blocked \<notin> set (users e) then Some (e\<lparr>setting := setting e - 1\<rparr>)
      else if i < length (users e) \<and> users e ! i = Blocked
           then Some (e\<lparr>setting := setting e - 1, users := (users e)[i := Roused]\<rparr>)
           else None)"

text \<open>
  One look of \<^verbatim>\<open>Wait\<close> at the flag: on entry from \<open>Outside\<close>, after a wake-up from \<open>Roused\<close>.
\<close>

definition Wait_pass :: "nat \<Rightarrow> cevent \<Rightarrow> cevent option" where
  "Wait_pass i e =
     (if length (users e) \<le> i \<or> users e ! i = Blocked then None
      else if m_bSet e
           then Some (e\<lparr>m_bSet := m_bManual e, users := (users e)[i := Outside], passes := Suc (passes e)\<rparr>)
           else Some (e\<lparr>users := (users e)[i := Blocked]\<rparr>))"

definition Wait_spurious :: "nat \<Rightarrow> cevent \<Rightarrow> cevent option" where
  "Wait_spurious i e =
     (if i < length (users e) \<and> users e ! i = Blocked then Some (e\<lparr>users := (users e)[i := Roused]\<rparr>) else None)"

definition IsSet :: "cevent \<Rightarrow> bool" where
  "IsSet e \<longleftrightarrow> m_bSet e"

definition Reset :: "cevent \<Rightarrow> cevent" where
  "Reset e = e\<lparr>m_bSet := False\<rparr>"

datatype event_action = CallSet | Notify nat | Look nat | Stray nat | CallReset

fun event_fire :: "event_action \<Rightarrow> cevent \<Rightarrow> cevent option" where
  "event_fire CallSet e = Some (Set e)"
| "event_fire (Notify i) e = Set_notify i e"
| "event_fire (Look i) e = Wait_pass i e"
| "event_fire (Stray i) e = Wait_spurious i e"
| "event_fire CallReset e = Some (Reset e)"

lemmas event_defs = Set_def Set_notify_def Wait_pass_def Wait_spurious_def Reset_def

definition auto_ok :: "nat \<Rightarrow> cevent \<Rightarrow> bool" where
  "auto_ok k e \<longleftrightarrow> \<not> m_bManual e \<and> passes e + (if m_bSet e then 1 else 0) \<le> sets e + k \<and>
     (m_bSet e \<and> Blocked \<in> set (users e) \<longrightarrow> 0 < setting e \<or> Roused \<in> set (users e))"

lemma auto_ok_kept:
  assumes "auto_ok k e" "event_fire l e = Some e'"
  shows "auto_ok k e'"
proof (cases l)
  case (Notify i)
  then show ?thesis
    using assms by (auto simp: auto_ok_def event_defs set_update_memI split: if_splits)
next
  case (Look i)
  then show ?thesis
    using assms by (auto simp: auto_ok_def event_defs split: if_splits)
next
  case (Stray i)
  then show ?thesis
    using assms by (auto simp: auto_ok_def event_defs set_update_memI split: if_splits)
qed (use assms in \<open>auto simp: auto_ok_def event_defs split: if_splits\<close>)

interpretation event_inv: machine_invariant event_fire "auto_ok k" for k
  by unfold_locales (rule auto_ok_kept)

text \<open>
  C34: An event that resets itself loses no wake-up and invents none: a \<^verbatim>\<open>Wait\<close> returns at most once for
  each time the flag was set (the initial setting included), and whenever the flag is set while
  a thread sleeps, a notification is under way or a woken thread is about to look at the flag.
\<close>
theorem auto_event_sound:
  assumes "reach event_fire (CEvent False bInitialSet n) e"
  shows "passes e \<le> sets e + (if bInitialSet then 1 else 0) \<and>
    (m_bSet e \<and> Blocked \<in> set (users e) \<longrightarrow> 0 < setting e \<or> Roused \<in> set (users e))"
proof -
  have "auto_ok (if bInitialSet then 1 else 0) (CEvent False bInitialSet n)"
    by (auto simp: auto_ok_def CEvent_def)
  from event_inv.always [OF assms this] show ?thesis
    by (auto simp: auto_ok_def split: if_splits)
qed

theorem auto_event_sound_witness:
  "\<exists>e. run_actions event_fire [Look 0, Look 1, CallSet] (CEvent False False 2) = Some e \<and> 0 < setting e"
proof -
  obtain e where e: "run_actions event_fire [Look 0, Look 1, CallSet] (CEvent False False 2) = Some e"
    "m_bSet e \<and> Blocked \<in> set (users e) \<and> Roused \<notin> set (users e)"
    by (simp add: event_defs CEvent_def numeral_2_eq_2)
  then show ?thesis
    using auto_event_sound [OF run_reach [OF e(1)]] by blast
qed

text \<open>
  An event with manual reset does not release all its waiters: \<^verbatim>\<open>Set\<close> notifies one thread, and while
  the flag stays set a second \<^verbatim>\<open>Set\<close> returns early without notifying anybody. The other thread
  sleeps although the event is set; only a spurious wake-up or a \<^verbatim>\<open>Reset\<close> and a new \<^verbatim>\<open>Set\<close> can help.
\<close>
lemma manual_event_strands_waiter:
  "\<exists>e. reach event_fire (CEvent True False 2) e \<and> IsSet e \<and> users e = [Outside, Blocked] \<and> passes e = 1 \<and>
    Set e = e \<and> Wait_pass 1 e = None \<and> (\<forall>i. Set_notify i e = None)"
proof -
  obtain e where e: "run_actions event_fire [Look 0, Look 1, CallSet, Notify 0, Look 0] (CEvent True False 2) = Some e"
    "m_bSet e" "users e = [Outside, Blocked]" "passes e = 1" "setting e = 0"
    by (simp add: event_defs CEvent_def numeral_2_eq_2)
  then show ?thesis
    using run_reach [OF e(1)] by (intro exI [of _ e]) (simp add: IsSet_def event_defs)
qed

end
