(* ===== verification/KeyLock.thy ===== *)
theory KeyLock imports Machine begin

text \<open>
  The lock of a name among the threads of one process (\<^verbatim>\<open>get_key_lock\<close> and \<^verbatim>\<open>free_key_lock\<close> of
  \<^verbatim>\<open>src/src/memchannel.cpp\<close>): a map from names to a counter and a mutex, itself behind a global
  mutex. A thread keeps a reference to the map's node while it waits for the mutex in it, so a node that
  is erased too early would be used after its end; the nodes are therefore values with addresses.
\<close>

section \<open>State\<close>

text \<open>
  \<open>Counted\<close>: between the two functions' halves of \<^verbatim>\<open>get_key_lock\<close>, the counter is raised and the thread
  holds a reference to the node; \<open>Holding\<close>: \<^verbatim>\<open>get_key_lock\<close> has returned; \<open>Unlocked\<close>: in
  \<^verbatim>\<open>free_key_lock\<close> with the global mutex, the node's mutex is free again and the counter not yet lowered.
\<close>

datatype key_user = Away | Counted string nat | Holding string nat | Unlocked string nat

record key_node =
  refs :: int
  node_mutex :: mutex

record key_locks =
  s_key_lock_global_mtx :: mutex
  s_key_lock_global_map :: "string \<Rightarrow> nat option"
  nodes :: "nat \<Rightarrow> key_node option"
  fresh :: nat
  users :: "key_user list"
  key_fault :: "fault option"

definition key_locks_start :: "nat \<Rightarrow> key_locks" where
  "key_locks_start n =
     \<lparr>s_key_lock_global_mtx = None, s_key_lock_global_map = (\<lambda>_. None), nodes = (\<lambda>_. None), fresh = 0,
      users = replicate n Away, key_fault = None\<rparr>"

section \<open>Operations\<close>

definition becomes :: "nat \<Rightarrow> key_user \<Rightarrow> key_locks \<Rightarrow> key_locks" where
  "becomes t u s = s\<lparr>users := (users s)[t := u]\<rparr>"

text \<open>
  The first half of \<^verbatim>\<open>get_key_lock\<close>, up to \<^verbatim>\<open>lg.unlock()\<close>: the subscript makes a node with counter 0 when
  the name has none.
\<close>

definition count_key :: "nat \<Rightarrow> string \<Rightarrow> key_locks \<Rightarrow> key_locks option" where
  "count_key t key s =
     (if s_key_lock_global_mtx s \<noteq> None then None
      else
        (let s1 = (case s_key_lock_global_map s key of
               Some a \<Rightarrow> s
             | None \<Rightarrow> s\<lparr>s_key_lock_global_map := (s_key_lock_global_map s)(key \<mapsto> fresh s),
                 nodes := (nodes s)(fresh s \<mapsto> \<lparr>refs = 0, node_mutex = None\<rparr>), fresh := Suc (fresh s)\<rparr>);
             a = the (s_key_lock_global_map s1 key)
         in case nodes s1 a of
              None \<Rightarrow> Some (s1\<lparr>key_fault := Some UseAfterFree\<rparr>)
            | Some nd \<Rightarrow> Some (becomes t (Counted key a) (s1\<lparr>nodes := (nodes s1)(a \<mapsto> nd\<lparr>refs := refs nd + 1\<rparr>)\<rparr>))))"

text \<open>The second half: \<^verbatim>\<open>pair.second.lock()\<close> through the reference.\<close>

definition lock_node :: "nat \<Rightarrow> string \<Rightarrow> nat \<Rightarrow> key_locks \<Rightarrow> key_locks option" where
  "lock_node t key a s =
     (case nodes s a of
        None \<Rightarrow> Some (s\<lparr>key_fault := Some UseAfterFree\<rparr>)
      | Some nd \<Rightarrow>
          (case mutex_lock t (node_mutex nd) of
             None \<Rightarrow> None
           | Some m \<Rightarrow> Some (becomes t (Holding key a) (s\<lparr>nodes := (nodes s)(a \<mapsto> nd\<lparr>node_mutex := m\<rparr>)\<rparr>))))"

text \<open>\<^verbatim>\<open>free_key_lock\<close> up to the unlocking of the node's mutex.\<close>

definition unlock_node :: "nat \<Rightarrow> string \<Rightarrow> key_locks \<Rightarrow> key_locks option" where
  "unlock_node t key s =
     (case mutex_lock t (s_key_lock_global_mtx s) of
        None \<Rightarrow> None
      | Some g \<Rightarrow>
          (case s_key_lock_global_map s key of
             None \<Rightarrow> Some (s\<lparr>key_fault := Some AssertFailed\<rparr>)
           | Some a \<Rightarrow>
               (case nodes s a of
                  None \<Rightarrow> Some (s\<lparr>key_fault := Some UseAfterFree\<rparr>)
                | Some nd \<Rightarrow>
                    (case mutex_unlock t (node_mutex nd) of
                       Inl e \<Rightarrow> Some (s\<lparr>key_fault := Some e\<rparr>)
                     | Inr m \<Rightarrow> Some (becomes t (Unlocked key a)
                         (s\<lparr>s_key_lock_global_mtx := g, nodes := (nodes s)(a \<mapsto> nd\<lparr>node_mutex := m\<rparr>)\<rparr>))))))"

text \<open>The rest: lower the counter, erase the node at 0, release the global mutex.\<close>

definition drop_node :: "nat \<Rightarrow> string \<Rightarrow> nat \<Rightarrow> key_locks \<Rightarrow> key_locks option" where
  "drop_node t key a s =
     (case nodes s a of
        None \<Rightarrow> Some (s\<lparr>key_fault := Some UseAfterFree\<rparr>)
      | Some nd \<Rightarrow>
          (let n = refs nd - 1;
               s1 = (if n = 0
                     then s\<lparr>s_key_lock_global_map := (s_key_lock_global_map s)(key := None), nodes := (nodes s)(a := None)\<rparr>
                     else s\<lparr>nodes := (nodes s)(a \<mapsto> nd\<lparr>refs := n\<rparr>)\<rparr>)
           in Some (becomes t Away (s1\<lparr>s_key_lock_global_mtx := None\<rparr>))))"

text \<open>
  A thread away from the locks may ask for any name, and one that holds a name goes on to release it.
\<close>

definition key_fire :: "nat \<times> string \<Rightarrow> key_locks \<Rightarrow> key_locks option" where
  "key_fire l s =
     (let t = fst l
      in if key_fault s \<noteq> None \<or> length (users s) \<le> t then None
         else case users s ! t of
             Away \<Rightarrow> count_key t (snd l) s
           | Counted key a \<Rightarrow> lock_node t key a s
           | Holding key a \<Rightarrow> unlock_node t key s
           | Unlocked key a \<Rightarrow> drop_node t key a s)"

section \<open>Invariant\<close>

fun at_node :: "key_user \<Rightarrow> (string \<times> nat) option" where
  "at_node Away = None"
| "at_node (Counted k a) = Some (k, a)"
| "at_node (Holding k a) = Some (k, a)"
| "at_node (Unlocked k a) = Some (k, a)"

definition referrers :: "string \<times> nat \<Rightarrow> key_user list \<Rightarrow> nat" where
  "referrers x us = length (filter (\<lambda>u. at_node u = Some x) us)"

lemma length_filter_update:
  "i < length xs \<Longrightarrow> length (filter P (xs[i := x])) + (if P (xs ! i) then 1 else 0) =
     length (filter P xs) + (if P x then 1 else 0)"
proof (induction xs arbitrary: i)
  case (Cons y xs)
  then show ?case
    by (cases i) auto
qed simp

lemma referrers_update:
  "t < length us \<Longrightarrow> referrers x (us[t := u]) + (if at_node (us ! t) = Some x then 1 else 0) =
     referrers x us + (if at_node u = Some x then 1 else 0)"
  unfolding referrers_def by (rule length_filter_update)

lemma referrers_pos: "t < length us \<Longrightarrow> at_node (us ! t) = Some x \<Longrightarrow> 0 < referrers x us"
  by (auto simp: referrers_def filter_empty_conv dest: nth_mem)

text \<open>The global mutex is held between the halves of \<^verbatim>\<open>free_key_lock\<close>.\<close>

definition global_ok :: "key_locks \<Rightarrow> bool" where
  "global_ok s \<longleftrightarrow> (\<forall>t k a. t < length (users s) \<and> users s ! t = Unlocked k a \<longrightarrow> s_key_lock_global_mtx s = Some t) \<and>
     (\<forall>t. s_key_lock_global_mtx s = Some t \<longrightarrow> t < length (users s) \<and> (\<exists>k a. users s ! t = Unlocked k a))"

text \<open>A node is in the map under one name; its counter is the number of the threads that refer to it.\<close>

definition node_ok :: "key_locks \<Rightarrow> string \<Rightarrow> nat \<Rightarrow> bool" where
  "node_ok s k a \<longleftrightarrow> a < fresh s \<and> (\<forall>k'. s_key_lock_global_map s k' = Some a \<longrightarrow> k' = k) \<and>
     (\<exists>nd. nodes s a = Some nd \<and> refs nd = int (referrers (k, a) (users s)) \<and> 0 < refs nd \<and>
        (\<forall>t. node_mutex nd = Some t \<longleftrightarrow> t < length (users s) \<and> users s ! t = Holding k a))"

definition key_ok :: "key_locks \<Rightarrow> bool" where
  "key_ok s \<longleftrightarrow> key_fault s = None \<and> global_ok s \<and>
     (\<forall>k a. s_key_lock_global_map s k = Some a \<longrightarrow> node_ok s k a) \<and>
     (\<forall>t k a. t < length (users s) \<and> at_node (users s ! t) = Some (k, a) \<longrightarrow> s_key_lock_global_map s k = Some a)"

lemma becomes_simps [simp]:
  "s_key_lock_global_mtx (becomes t u s) = s_key_lock_global_mtx s"
  "s_key_lock_global_map (becomes t u s) = s_key_lock_global_map s" "nodes (becomes t u s) = nodes s"
  "fresh (becomes t u s) = fresh s" "key_fault (becomes t u s) = key_fault s" "users (becomes t u s) = (users s)[t := u]"
  by (simp_all add: becomes_def)

lemma key_okD:
  assumes "key_ok s" "t < length (users s)" "at_node (users s ! t) = Some (k, a)"
  shows "s_key_lock_global_map s k = Some a" "node_ok s k a"
  using assms unfolding key_ok_def by blast+

lemma node_okE:
  assumes "node_ok s k a"
  obtains nd where "nodes s a = Some nd" "refs nd = int (referrers (k, a) (users s))" "0 < refs nd"
    "\<forall>u. node_mutex nd = Some u \<longleftrightarrow> u < length (users s) \<and> users s ! u = Holding k a"
  using assms unfolding node_ok_def by blast

text \<open>Nodes other than the one an operation is about do not notice it.\<close>

lemma node_ok_other:
  assumes "node_ok s k a" "t < length (users s)" "at_node (users s ! t) \<noteq> Some (k, a)" "at_node u \<noteq> Some (k, a)"
    and "nodes s' a = nodes s a" "users s' = (users s)[t := u]" "fresh s \<le> fresh s'"
    and "\<forall>k'. s_key_lock_global_map s' k' = Some a \<longrightarrow> s_key_lock_global_map s k' = Some a"
  shows "node_ok s' k a"
proof -
  have "referrers (k, a) (users s') = referrers (k, a) (users s)"
    using referrers_update [OF assms(2), of "(k, a)" u] assms(3,4,6) by simp
  moreover have "users s' ! v = Holding k a \<longleftrightarrow> users s ! v = Holding k a" for v
    using assms(2-4,6) by (cases "v = t") auto
  moreover have "length (users s') = length (users s)"
    using assms(6) by simp
  moreover have "a < fresh s'"
    using assms(1,7) by (simp add: node_ok_def)
  moreover have "\<forall>k'. s_key_lock_global_map s' k' = Some a \<longrightarrow> k' = k"
    using assms(1,8) by (simp add: node_ok_def)
  ultimately show ?thesis
    using assms(1,5) by (simp only: node_ok_def)
qed

text \<open>What an operation of thread \<open>t\<close> on the name \<open>key\<close> with node \<open>a\<close> has to show.\<close>

lemma key_ok_change:
  assumes ok: "key_ok s" and t: "t < length (users s)" and us: "users s' = (users s)[t := u]"
    and fault: "key_fault s' = None" and global: "global_ok s'" and fr: "fresh s \<le> fresh s'"
    and at: "at_node (users s ! t) \<in> {None, Some (key, a)}" "at_node u \<in> {None, Some (key, a)}"
    and maps: "\<forall>k. k \<noteq> key \<longrightarrow> s_key_lock_global_map s' k = s_key_lock_global_map s k"
      "s_key_lock_global_map s key \<in> {None, Some a}" "s_key_lock_global_map s' key \<in> {None, Some a}"
    and own: "\<forall>k. s_key_lock_global_map s k = Some a \<longrightarrow> k = key"
    and nds: "\<forall>b. b \<noteq> a \<longrightarrow> nodes s' b = nodes s b"
    and here: "s_key_lock_global_map s' key = Some a \<Longrightarrow> node_ok s' key a"
    and gone: "s_key_lock_global_map s' key = None \<Longrightarrow> \<forall>v < length (users s'). \<forall>b. at_node (users s' ! v) \<noteq> Some (key, b)"
  shows "key_ok s'"
proof -
  have node: "node_ok s' k b" if m: "s_key_lock_global_map s' k = Some b" for k b
  proof (cases "k = key")
    case True
    then show ?thesis
      using m maps(3) here by auto
  next
    case False
    then have "s_key_lock_global_map s k = Some b"
      using m maps(1) by simp
    moreover from this have "b \<noteq> a"
      using own False by blast
    moreover have "s_key_lock_global_map s k' = Some b" if "s_key_lock_global_map s' k' = Some b" for k'
      using that maps(1,3) \<open>b \<noteq> a\<close> by (cases "k' = key") auto
    moreover have "node_ok s k b"
      using ok \<open>s_key_lock_global_map s k = Some b\<close> by (simp add: key_ok_def)
    ultimately show ?thesis
      using False at nds fr by (intro node_ok_other [OF _ t _ _ _ us]) auto
  qed
  have user: "s_key_lock_global_map s' k = Some b" if v: "v < length (users s')" "at_node (users s' ! v) = Some (k, b)" for v k b
  proof (cases "k = key")
    case True
    then have m: "s_key_lock_global_map s' key = Some a"
      using gone maps(3) v by auto
    show ?thesis
    proof (cases "v = t")
      case True
      then show ?thesis
        using m \<open>k = key\<close> v at(2) us t by simp
    next
      case False
      then have "s_key_lock_global_map s k = Some b"
        using key_okD(1) [OF ok, of v k b] v us by simp
      then show ?thesis
        using m \<open>k = key\<close> maps(2) by simp
    qed
  next
    case False
    then have "v \<noteq> t"
      using v us t at(2) by auto
    then have "s_key_lock_global_map s k = Some b"
      using key_okD(1) [OF ok, of v k b] v us by simp
    then show ?thesis
      using maps(1) False by simp
  qed
  show ?thesis
    using fault global node user unfolding key_ok_def by blast
qed

lemma global_ok_same:
  assumes "global_ok s" "t < length (users s)" "users s' = (users s)[t := u]" "s_key_lock_global_mtx s' = s_key_lock_global_mtx s"
    and "\<forall>k a. users s ! t \<noteq> Unlocked k a" "\<forall>k a. u \<noteq> Unlocked k a"
  shows "global_ok s'"
  unfolding global_ok_def
proof (intro conjI allI impI)
  fix v k a
  assume v: "v < length (users s') \<and> users s' ! v = Unlocked k a"
  then have "v \<noteq> t"
    using assms(2,3,6) by auto
  then have "v < length (users s)" "users s ! v = Unlocked k a"
    using v assms(3) by simp_all
  then have "s_key_lock_global_mtx s = Some v"
    using assms(1) unfolding global_ok_def by blast
  then show "s_key_lock_global_mtx s' = Some v"
    using assms(4) by simp
next
  fix v
  assume v: "s_key_lock_global_mtx s' = Some v"
  then obtain k a where "v < length (users s)" "users s ! v = Unlocked k a"
    using assms(1,4) unfolding global_ok_def by metis
  moreover from this have "v \<noteq> t"
    using assms(5) by blast
  ultimately show "v < length (users s')" "\<exists>k a. users s' ! v = Unlocked k a"
    using assms(3) by simp_all
qed

lemma count_key_kept:
  assumes "key_ok s" "t < length (users s)" "users s ! t = Away" "count_key t key s = Some s'"
  shows "key_ok s'"
proof -
  have g: "s_key_lock_global_mtx s = None"
    using assms(4) by (auto simp: count_key_def split: if_splits)
  have glob: "global_ok s" and f: "key_fault s = None"
    using assms(1) by (simp_all add: key_ok_def)
  have Holding: "users s ! v = Holding k b \<longleftrightarrow> (users s)[t := Counted key a] ! v = Holding k b" if "v < length (users s)" for v k b a
    using that assms(3) by (cases "v = t") simp_all
  show ?thesis
  proof (cases "s_key_lock_global_map s key")
    case (Some a)
    then have "node_ok s key a"
      using assms(1) by (simp add: key_ok_def)
    then obtain nd where nd: "nodes s a = Some nd" "refs nd = int (referrers (key, a) (users s))" "0 < refs nd"
      "\<forall>u. node_mutex nd = Some u \<longleftrightarrow> u < length (users s) \<and> users s ! u = Holding key a" and "a < fresh s"
      and own: "\<forall>k. s_key_lock_global_map s k = Some a \<longrightarrow> k = key"
      by (auto elim: node_okE simp: node_ok_def)
    have s': "s' = becomes t (Counted key a) (s\<lparr>nodes := (nodes s)(a \<mapsto> nd\<lparr>refs := refs nd + 1\<rparr>)\<rparr>)"
      using assms(4) g Some nd(1) by (simp add: count_key_def)
    have "node_ok s' key a"
      using nd own \<open>a < fresh s\<close> assms(2,3) Holding referrers_update [OF assms(2), of "(key, a)" "Counted key a"]
      by (auto simp: node_ok_def s')
    moreover have "global_ok s'"
      by (rule global_ok_same [OF glob assms(2), where u = "Counted key a"]) (simp_all add: s' assms(3))
    ultimately show ?thesis
      using own by (intro key_ok_change [OF assms(1,2), where u = "Counted key a" and key = key and a = a])
        (simp_all add: s' Some assms(3) f)
  next
    case None
    define a where "a = fresh s"
    have s': "s' = becomes t (Counted key a) (s\<lparr>s_key_lock_global_map := (s_key_lock_global_map s)(key \<mapsto> a),
        nodes := (nodes s)(a \<mapsto> \<lparr>refs = 1, node_mutex = None\<rparr>), fresh := Suc a\<rparr>)"
      using assms(4) g None by (auto simp: count_key_def a_def Let_def)
    have new: "s_key_lock_global_map s k \<noteq> Some a" for k
      using assms(1) by (auto simp: key_ok_def node_ok_def a_def)
    have unref: "at_node (users s ! v) \<noteq> Some (key, b)" if "v < length (users s)" for v b
      using key_okD(1) [OF assms(1) that, of key b] None by auto
    have "referrers (key, a) (users s) = 0"
      using unref by (auto simp: referrers_def filter_empty_conv in_set_conv_nth)
    moreover have "users s ! v \<noteq> Holding key a" if "v < length (users s)" for v
      using unref [OF that, of a] by auto
    ultimately have "node_ok s' key a"
      using new assms(2,3) Holding referrers_update [OF assms(2), of "(key, a)" "Counted key a"]
      by (auto simp: node_ok_def s')
    moreover have "global_ok s'"
      by (rule global_ok_same [OF glob assms(2), where u = "Counted key a"]) (simp_all add: s' assms(3))
    ultimately show ?thesis
      using new by (intro key_ok_change [OF assms(1,2), where u = "Counted key a" and key = key and a = a])
        (simp_all add: s' None assms(3) f a_def)
  qed
qed

text \<open>The other operations work on the node the thread refers to.\<close>

lemma referred:
  assumes "key_ok s" "t < length (users s)" "at_node (users s ! t) = Some (key, a)"
  obtains nd where "s_key_lock_global_map s key = Some a" "nodes s a = Some nd" "a < fresh s"
    "refs nd = int (referrers (key, a) (users s))" "0 < refs nd"
    "\<forall>u. node_mutex nd = Some u \<longleftrightarrow> u < length (users s) \<and> users s ! u = Holding key a"
    "\<forall>k. s_key_lock_global_map s k = Some a \<longrightarrow> k = key" "key_fault s = None" "global_ok s"
proof -
  have m: "s_key_lock_global_map s key = Some a" and n: "node_ok s key a"
    by (rule key_okD [OF assms])+
  have f: "key_fault s = None" "global_ok s"
    using assms(1) by (simp_all add: key_ok_def)
  have a: "a < fresh s" "\<forall>k. s_key_lock_global_map s k = Some a \<longrightarrow> k = key"
    using n by (simp_all add: node_ok_def)
  show ?thesis
    by (rule node_okE [OF n], rule that [OF m _ a(1) _ _ _ a(2) f])
qed

lemma lock_node_kept:
  assumes "key_ok s" "t < length (users s)" "users s ! t = Counted key a" "lock_node t key a s = Some s'"
  shows "key_ok s'"
proof -
  have at: "at_node (users s ! t) = Some (key, a)"
    by (simp add: assms(3))
  obtain nd where nd: "s_key_lock_global_map s key = Some a" "nodes s a = Some nd" "a < fresh s"
    "refs nd = int (referrers (key, a) (users s))" "0 < refs nd"
    "\<forall>u. node_mutex nd = Some u \<longleftrightarrow> u < length (users s) \<and> users s ! u = Holding key a"
    "\<forall>k. s_key_lock_global_map s k = Some a \<longrightarrow> k = key" "key_fault s = None" "global_ok s"
    by (rule referred [OF assms(1,2) at])
  have free: "node_mutex nd = None"
    and s': "s' = becomes t (Holding key a) (s\<lparr>nodes := (nodes s)(a \<mapsto> nd\<lparr>node_mutex := Some t\<rparr>)\<rparr>)"
    using assms(4) nd(2) by (auto simp: lock_node_def mutex_lock_def split: if_splits)
  have "t = u \<longleftrightarrow> u < length (users s) \<and> (users s)[t := Holding key a] ! u = Holding key a" for u
    using spec [OF nd(6), of u] free assms(2) by (cases "u = t") simp_all
  moreover have "referrers (key, a) ((users s)[t := Holding key a]) = referrers (key, a) (users s)"
    using referrers_update [OF assms(2), of "(key, a)" "Holding key a"] assms(3) by simp
  ultimately have "node_ok s' key a"
    using nd(3-5,7) unfolding node_ok_def s' by simp
  moreover have "global_ok s'"
    by (rule global_ok_same [OF nd(9) assms(2), where u = "Holding key a"]) (simp_all add: s' assms(3))
  ultimately show ?thesis
    using nd(7) by (intro key_ok_change [OF assms(1,2), where u = "Holding key a" and key = key and a = a])
      (simp_all add: s' assms(3) nd(1,8))
qed

lemma unlock_node_kept:
  assumes "key_ok s" "t < length (users s)" "users s ! t = Holding key a" "unlock_node t key s = Some s'"
  shows "key_ok s'"
proof -
  have at: "at_node (users s ! t) = Some (key, a)"
    by (simp add: assms(3))
  obtain nd where nd: "s_key_lock_global_map s key = Some a" "nodes s a = Some nd" "a < fresh s"
    "refs nd = int (referrers (key, a) (users s))" "0 < refs nd"
    "\<forall>u. node_mutex nd = Some u \<longleftrightarrow> u < length (users s) \<and> users s ! u = Holding key a"
    "\<forall>k. s_key_lock_global_map s k = Some a \<longrightarrow> k = key" "key_fault s = None" "global_ok s"
    by (rule referred [OF assms(1,2) at])
  have own: "node_mutex nd = Some t"
    using nd(6) assms(2,3) by blast
  have g: "s_key_lock_global_mtx s = None"
    using assms(4) by (auto simp: unlock_node_def mutex_lock_def split: if_splits)
  have s': "s' = becomes t (Unlocked key a)
      (s\<lparr>s_key_lock_global_mtx := Some t, nodes := (nodes s)(a \<mapsto> nd\<lparr>node_mutex := None\<rparr>)\<rparr>)"
    using assms(4) nd(1,2) own g by (simp add: unlock_node_def mutex_lock_def mutex_unlock_def)
  have "\<not> (u < length (users s) \<and> (users s)[t := Unlocked key a] ! u = Holding key a)" for u
    using spec [OF nd(6), of u] own assms(2) by (cases "u = t") simp_all
  moreover have "referrers (key, a) ((users s)[t := Unlocked key a]) = referrers (key, a) (users s)"
    using referrers_update [OF assms(2), of "(key, a)" "Unlocked key a"] assms(3) by simp
  ultimately have "node_ok s' key a"
    using nd(3-5,7) unfolding node_ok_def s' by simp
  moreover have "global_ok s'"
    unfolding global_ok_def
  proof (intro conjI allI impI)
    fix v k b
    assume v: "v < length (users s') \<and> users s' ! v = Unlocked k b"
    have "\<not> (v < length (users s) \<and> users s ! v = Unlocked k b)"
      using nd(9) g unfolding global_ok_def by auto
    then show "s_key_lock_global_mtx s' = Some v"
      using v by (cases "v = t") (simp_all add: s')
  next
    fix v
    assume "s_key_lock_global_mtx s' = Some v"
    then show "v < length (users s')" "\<exists>k b. users s' ! v = Unlocked k b"
      using assms(2) by (simp_all add: s')
  qed
  ultimately show ?thesis
    using nd(7) by (intro key_ok_change [OF assms(1,2), where u = "Unlocked key a" and key = key and a = a])
      (simp_all add: s' assms(3) nd(1,8))
qed

lemma drop_node_kept:
  assumes "key_ok s" "t < length (users s)" "users s ! t = Unlocked key a" "drop_node t key a s = Some s'"
  shows "key_ok s'"
proof -
  have at: "at_node (users s ! t) = Some (key, a)"
    by (simp add: assms(3))
  obtain nd where nd: "s_key_lock_global_map s key = Some a" "nodes s a = Some nd" "a < fresh s"
    "refs nd = int (referrers (key, a) (users s))" "0 < refs nd"
    "\<forall>u. node_mutex nd = Some u \<longleftrightarrow> u < length (users s) \<and> users s ! u = Holding key a"
    "\<forall>k. s_key_lock_global_map s k = Some a \<longrightarrow> k = key" "key_fault s = None" "global_ok s"
    by (rule referred [OF assms(1,2) at])
  have g: "s_key_lock_global_mtx s = Some t"
    using nd(9) assms(2,3) unfolding global_ok_def by blast
  have less: "referrers (key, a) ((users s)[t := Away]) + 1 = referrers (key, a) (users s)"
    using referrers_update [OF assms(2), of "(key, a)" Away] assms(3) by simp
  define s1 where "s1 = (if refs nd = 1
      then s\<lparr>s_key_lock_global_map := (s_key_lock_global_map s)(key := None), nodes := (nodes s)(a := None)\<rparr>
      else s\<lparr>nodes := (nodes s)(a \<mapsto> nd\<lparr>refs := refs nd - 1\<rparr>)\<rparr>)"
  have s': "s' = becomes t Away (s1\<lparr>s_key_lock_global_mtx := None\<rparr>)"
    using assms(4) nd(2) by (simp add: drop_node_def Let_def s1_def)
  have s1: "users s1 = users s" "fresh s1 = fresh s" "key_fault s1 = None"
    by (simp_all add: s1_def nd(8))
  have glob: "global_ok s'"
    unfolding global_ok_def
  proof (intro conjI allI impI)
    fix v k b
    assume v: "v < length (users s') \<and> users s' ! v = Unlocked k b"
    then have "v \<noteq> t" "v < length (users s)"
      using assms(2) by (auto simp: s' s1)
    then have "users s ! v = Unlocked k b"
      using v by (simp add: s' s1)
    then have "s_key_lock_global_mtx s = Some v"
      using nd(9) \<open>v < length (users s)\<close> unfolding global_ok_def by blast
    then show "s_key_lock_global_mtx s' = Some v"
      using g \<open>v \<noteq> t\<close> by simp
  next
    fix v
    assume "s_key_lock_global_mtx s' = Some v"
    then show "v < length (users s')" "\<exists>k b. users s' ! v = Unlocked k b"
      by (simp_all add: s')
  qed
  show ?thesis
  proof (cases "refs nd = 1")
    case True
    then have none: "referrers (key, a) ((users s)[t := Away]) = 0"
      using less nd(4) by simp
    have "at_node ((users s)[t := Away] ! v) \<noteq> Some (key, b)" if v: "v < length (users s)" for v b
    proof
      assume r: "at_node ((users s)[t := Away] ! v) = Some (key, b)"
      then have "v \<noteq> t"
        using assms(2) by auto
      then have "b = a"
        using key_okD(1) [OF assms(1) v, of key b] r nd(1) by simp
      then show False
        using referrers_pos [of v "(users s)[t := Away]" "(key, a)"] r v none by simp
    qed
    then show ?thesis
      using nd(7) True by (intro key_ok_change [OF assms(1,2) _ _ glob, where u = Away and key = key and a = a])
        (simp_all add: s' s1 s1_def assms(3) nd(1,8))
  next
    case False
    have "(users s)[t := Away] ! u = Holding key a \<longleftrightarrow> users s ! u = Holding key a" for u
      using assms(2,3) by (cases "u = t") simp_all
    then have "node_ok s' key a"
      using nd(3,5-7) less nd(4) False unfolding node_ok_def s' by (simp add: s1_def)
    then show ?thesis
      using nd(7) False by (intro key_ok_change [OF assms(1,2) _ _ glob, where u = Away and key = key and a = a])
        (simp_all add: s' s1 s1_def assms(3) nd(1,8))
  qed
qed

lemma key_ok_kept:
  assumes "key_ok s" "key_fire l s = Some s'"
  shows "key_ok s'"
proof -
  obtain t key where l: "l = (t, key)"
    by (cases l)
  have t: "t < length (users s)"
    using assms(2) by (auto simp: key_fire_def l split: if_splits)
  show ?thesis
  proof (cases "users s ! t")
    case Away
    then show ?thesis
      using assms t count_key_kept [OF assms(1) t Away] by (simp add: key_fire_def l split: if_splits)
  next
    case (Counted k a)
    then show ?thesis
      using assms t lock_node_kept [OF assms(1) t Counted] by (simp add: key_fire_def l split: if_splits)
  next
    case (Holding k a)
    then show ?thesis
      using assms t unlock_node_kept [OF assms(1) t Holding] by (simp add: key_fire_def l split: if_splits)
  next
    case (Unlocked k a)
    then show ?thesis
      using assms t drop_node_kept [OF assms(1) t Unlocked] by (simp add: key_fire_def l split: if_splits)
  qed
qed

interpretation key_inv: machine_invariant key_fire key_ok
  by unfold_locales (rule key_ok_kept)

lemma key_locks_start_ok: "key_ok (key_locks_start n)"
  by (auto simp: key_ok_def global_ok_def key_locks_start_def)

section \<open>Properties\<close>

text \<open>
  C15: However the threads of a process interleave, at most one holds the lock of a name; no thread
  ever touches an erased node, unlocks a mutex it does not own or misses its entry in the map; the counter
  of a node is the number of threads that refer to it, and a name is in the map exactly as long as
  some thread refers to it.
\<close>
theorem key_lock_exclusive:
  assumes "reach key_fire (key_locks_start n) s"
  shows "key_fault s = None \<and>
    (\<forall>t u. t < length (users s) \<and> u < length (users s) \<and> users s ! t = Holding key a \<and> users s ! u = Holding key b \<longrightarrow> t = u) \<and>
    (\<forall>a nd. s_key_lock_global_map s key = Some a \<and> nodes s a = Some nd \<longrightarrow> refs nd = int (referrers (key, a) (users s))) \<and>
    (s_key_lock_global_map s key = None \<longleftrightarrow> (\<forall>t < length (users s). \<forall>a. at_node (users s ! t) \<noteq> Some (key, a)))"
proof -
  have ok: "key_ok s"
    using key_inv.always [OF assms key_locks_start_ok] .
  have node: "node_ok s k a" if "s_key_lock_global_map s k = Some a" for k a
    using ok that by (simp add: key_ok_def)
  have excl: "t = u" if "t < length (users s)" "u < length (users s)" "users s ! t = Holding key a" "users s ! u = Holding key b" for t u a b
  proof -
    have a: "s_key_lock_global_map s key = Some a" and b: "s_key_lock_global_map s key = Some b"
      using key_okD(1) [OF ok that(1)] key_okD(1) [OF ok that(2)] that(3,4) by simp_all
    obtain nd where "nodes s a = Some nd" "refs nd = int (referrers (key, a) (users s))" "0 < refs nd"
      "\<forall>v. node_mutex nd = Some v \<longleftrightarrow> v < length (users s) \<and> users s ! v = Holding key a"
      by (rule node_okE [OF node [OF a]])
    then show ?thesis
      using that a b by (metis option.inject)
  qed
  have used: "\<exists>t < length (users s). at_node (users s ! t) = Some (key, a)" if a: "s_key_lock_global_map s key = Some a" for a
  proof -
    have "0 < referrers (key, a) (users s)"
      by (rule node_okE [OF node [OF a]]) simp
    then show ?thesis
      by (auto simp: referrers_def filter_empty_conv in_set_conv_nth)
  qed
  have "key_fault s = None"
    using ok by (simp add: key_ok_def)
  moreover have "refs nd = int (referrers (key, a) (users s))" if "s_key_lock_global_map s key = Some a" "nodes s a = Some nd" for a nd
    using node_okE [OF node [OF that(1)]] that(2) by (metis option.inject)
  moreover have "s_key_lock_global_map s key = None \<longleftrightarrow> (\<forall>t < length (users s). \<forall>a. at_node (users s ! t) \<noteq> Some (key, a))"
    using used key_okD(1) [OF ok] by (metis not_None_eq option.discI)
  ultimately show ?thesis
    using excl by blast
qed

theorem key_lock_exclusive_witness:
  "\<exists>s. run_actions key_fire [(0, ''k''), (1, ''k''), (0, ''k''), (0, ''k''), (0, ''k'')] (key_locks_start 2) = Some s \<and>
    users s = [Away, Counted ''k'' 0] \<and> key_fault s = None"
proof -
  obtain s where s: "run_actions key_fire [(0, ''k''), (1, ''k''), (0, ''k''), (0, ''k''), (0, ''k'')] (key_locks_start 2) = Some s"
    "users s = [Away, Counted ''k'' 0]"
    by (simp add: key_fire_def key_locks_start_def count_key_def lock_node_def unlock_node_def drop_node_def
        mutex_lock_def mutex_unlock_def becomes_def Let_def numeral_2_eq_2)
  then show ?thesis
    using key_lock_exclusive [OF run_reach [OF s(1)]] by blast
qed

end
