(* ===== verification/BytePipe.thy ===== *)
theory BytePipe imports Prelude begin

text \<open>
  The contract between the shared-memory ring and the channel that runs over it: a byte FIFO
  of bounded capacity whose \<^verbatim>\<open>write\<close> takes a whole request or makes its caller wait, and whose
  \<^verbatim>\<open>read\<close> delivers a whole request or makes its caller wait. Theory \<^verbatim>\<open>SharedMemoryView\<close>
  interprets it on the ring buffer, theory \<^verbatim>\<open>MemChannel\<close> proves the channel over it.
\<close>

locale byte_pipe =
  fixes wr :: "'v \<Rightarrow> bytes \<Rightarrow> nat \<Rightarrow> u32 \<Rightarrow> fault + 'v option"
    and rd :: "'v \<Rightarrow> bytes \<Rightarrow> nat \<Rightarrow> u32 \<Rightarrow> fault + (bytes \<times> 'v) option"
    and cont :: "'v \<Rightarrow> bytes"
    and cap :: "'v \<Rightarrow> nat"
    and ok :: "'v \<Rightarrow> bool"
  assumes wr_wait: "ok v \<Longrightarrow> unat len \<le> cap v \<Longrightarrow> cap v < length (cont v) + unat len \<Longrightarrow>
      wr v src pos len = Inr None"
    and wr_room: "ok v \<Longrightarrow> length (cont v) + unat len \<le> cap v \<Longrightarrow> pos + unat len \<le> length src \<Longrightarrow>
      \<exists>v'. wr v src pos len = Inr (Some v') \<and> ok v' \<and> cap v' = cap v
        \<and> cont v' = cont v @ take (unat len) (drop pos src)"
    and rd_wait: "ok v \<Longrightarrow> length (cont v) < unat len \<Longrightarrow> rd v dst pos len = Inr None"
    and rd_ready: "ok v \<Longrightarrow> unat len \<le> length (cont v) \<Longrightarrow> pos + unat len \<le> length dst \<Longrightarrow>
      \<exists>v'. rd v dst pos len
          = Inr (Some (take pos dst @ take (unat len) (cont v) @ drop (pos + unat len) dst, v'))
        \<and> ok v' \<and> cap v' = cap v \<and> cont v' = drop (unat len) (cont v)"
begin

lemma wr_cases:
  assumes "ok v" "unat len \<le> cap v" "pos + unat len \<le> length src"
  obtains "cap v < length (cont v) + unat len" "wr v src pos len = Inr None"
  | v' where "length (cont v) + unat len \<le> cap v" "wr v src pos len = Inr (Some v')" "ok v'"
      "cap v' = cap v" "cont v' = cont v @ take (unat len) (drop pos src)"
  using assms wr_wait wr_room by (metis not_le)

lemma rd_cases:
  assumes "ok v" "pos + unat len \<le> length dst"
  obtains "length (cont v) < unat len" "rd v dst pos len = Inr None"
  | v' where "unat len \<le> length (cont v)"
      "rd v dst pos len = Inr (Some (take pos dst @ take (unat len) (cont v) @ drop (pos + unat len) dst, v'))"
      "ok v'" "cap v' = cap v" "cont v' = drop (unat len) (cont v)"
  using assms rd_wait rd_ready by (metis not_le)

text \<open>
  An empty pipe always takes a request, and a pipe that holds a request always delivers it:
  the two facts that keep a writer and a reader of equal requests from blocking each other.
\<close>

lemma wr_empty:
  assumes "ok v" "unat len \<le> cap v" "pos + unat len \<le> length src" "cont v = []"
  obtains v' where "wr v src pos len = Inr (Some v')"
  using assms wr_room by fastforce

end

text \<open>A pipe never holds more than its capacity: what makes a writer wait for the reader.\<close>

locale bounded_pipe = byte_pipe +
  assumes cont_le: "ok v \<Longrightarrow> length (cont v) \<le> cap v"

end
