(* ===== verification/SharedMemoryView.thy ===== *)
theory SharedMemoryView imports BytePipe begin

text \<open>
  The ring buffer of \<^verbatim>\<open>src/src/memchannel.cpp\<close> (struct \<^verbatim>\<open>detail::SharedMemoryView\<close>): a
  power-of-two byte array with two free-running 32-bit counters. \<^verbatim>\<open>put\<close> and \<^verbatim>\<open>get\<close> are the
  two-part copies of the code, \<^verbatim>\<open>write_view\<close> and \<^verbatim>\<open>read_view\<close> one pass through the guarded
  section of \<^verbatim>\<open>write\<close> and \<^verbatim>\<open>read\<close>. The lemmas show that the ring refines a bounded FIFO of
  bytes (\<^verbatim>\<open>contents\<close>), counters wrapping around included, and never copies out of bounds.
\<close>

unbundle bit_operations_syntax

section \<open>State\<close>

text \<open>
  \<^verbatim>\<open>in\<close> and \<^verbatim>\<open>out\<close> are \<^verbatim>\<open>ring_in\<close> and \<^verbatim>\<open>ring_out\<close>; the flexible array \<^verbatim>\<open>buffer[0]\<close> at the end
  of the struct is the list \<^verbatim>\<open>buffer\<close>. The pthread mutex and condition variable are modelled
  where threads are (theories \<^verbatim>\<open>RingCv\<close> and \<^verbatim>\<open>RingSpin\<close>).
\<close>

record shm_view =
  buf_size :: u32
  enable_cv :: bool
  client_attached :: i32
  ring_in :: u32
  ring_out :: u32
  buffer :: bytes

section \<open>Operations\<close>

text \<open>
  \<^verbatim>\<open>init\<close>: with \<^verbatim>\<open>arg_enable_cv\<close> eight pthread calls are made, and each return code is
  asserted to be 0 (\<^verbatim>\<open>pthread_rc i\<close> is the code of the i-th call).
\<close>

definition init_view :: "(nat \<Rightarrow> int) \<Rightarrow> shm_view \<Rightarrow> u32 \<Rightarrow> bool \<Rightarrow> fault + shm_view" where
  "init_view pthread_rc v arg_buf_size arg_enable_cv =
     (let v1 = v\<lparr>buf_size := arg_buf_size, enable_cv := arg_enable_cv, client_attached := 0\<rparr>
      in if arg_enable_cv \<and> \<not> list_all (\<lambda>i. pthread_rc i = 0) [0, 1, 2, 3, 4, 5, 6, 7]
         then Inl AssertFailed
         else Inr (v1\<lparr>ring_in := 0, ring_out := 0\<rparr>))"

text \<open>
  \<^verbatim>\<open>attach_init\<close>: the increment stands inside the \<^verbatim>\<open>assert\<close>, so a build with \<^verbatim>\<open>NDEBUG\<close> does
  not make it.
\<close>

definition attach_init :: "bool \<Rightarrow> shm_view \<Rightarrow> bool \<Rightarrow> fault + shm_view" where
  "attach_init ndebug v arg_enable_cv =
     (if ndebug then Inr v
      else let v1 = v\<lparr>client_attached := client_attached v + 1\<rparr>
           in if client_attached v1 = 1 \<and> enable_cv v1 = arg_enable_cv then Inr v1
              else Inl AssertFailed)"

definition put :: "shm_view \<Rightarrow> bytes \<Rightarrow> nat \<Rightarrow> u32 \<Rightarrow> fault + shm_view" where
  "put v buf pos len0 =
     (let len = min len0 (buf_size v - ring_in v + ring_out v);
          off = ring_in v AND (buf_size v - 1);
          l = min len (buf_size v - off)
      in case memcpy (buffer v) (unat off) buf pos (unat l) of
           Inl e \<Rightarrow> Inl e
         | Inr b1 \<Rightarrow>
             (case memcpy b1 0 buf (pos + unat l) (unat (len - l)) of
                Inl e \<Rightarrow> Inl e
              | Inr b2 \<Rightarrow> Inr (v\<lparr>buffer := b2, ring_in := ring_in v + len\<rparr>)))"

definition get :: "shm_view \<Rightarrow> bytes \<Rightarrow> nat \<Rightarrow> u32 \<Rightarrow> fault + bytes \<times> shm_view" where
  "get v buf pos len0 =
     (let len = min len0 (ring_in v - ring_out v);
          off = ring_out v AND (buf_size v - 1);
          l = min len (buf_size v - off)
      in case memcpy buf pos (buffer v) (unat off) (unat l) of
           Inl e \<Rightarrow> Inl e
         | Inr d1 \<Rightarrow>
             (case memcpy d1 (pos + unat l) (buffer v) 0 (unat (len - l)) of
                Inl e \<Rightarrow> Inl e
              | Inr d2 \<Rightarrow> Inr (d2, v\<lparr>ring_out := ring_out v + len\<rparr>)))"

definition can_put :: "shm_view \<Rightarrow> u32 \<Rightarrow> bool" where
  "can_put v sz = ((ring_in v - ring_out v) + sz \<le> buf_size v)"

definition can_get :: "shm_view \<Rightarrow> u32 \<Rightarrow> bool" where
  "can_get v sz = (ring_in v - ring_out v \<ge> sz)"

text \<open>
  One evaluation of the guard of \<^verbatim>\<open>read\<close> and \<^verbatim>\<open>write\<close> and, when it holds, the copy. \<^verbatim>\<open>None\<close>
  stands for a caller that keeps waiting.
\<close>

definition read_view :: "shm_view \<Rightarrow> bytes \<Rightarrow> nat \<Rightarrow> u32 \<Rightarrow> fault + (bytes \<times> shm_view) option" where
  "read_view v buf pos len =
     (if can_get v len then (case get v buf pos len of Inl e \<Rightarrow> Inl e | Inr r \<Rightarrow> Inr (Some r))
      else Inr None)"

definition write_view :: "shm_view \<Rightarrow> bytes \<Rightarrow> nat \<Rightarrow> u32 \<Rightarrow> fault + shm_view option" where
  "write_view v buf pos len =
     (if can_put v len then (case put v buf pos len of Inl e \<Rightarrow> Inl e | Inr v' \<Rightarrow> Inr (Some v'))
      else Inr None)"

section \<open>Abstraction: the bytes in transit\<close>

definition used :: "shm_view \<Rightarrow> nat" where
  "used v = unat (ring_in v - ring_out v)"

definition contents :: "shm_view \<Rightarrow> bytes" where
  "contents v = map (\<lambda>i. buffer v ! ((unat (ring_out v) + i) mod unat (buf_size v))) [0..<used v]"

definition pow2 :: "u32 \<Rightarrow> bool" where
  "pow2 b \<longleftrightarrow> (\<exists>k<31. b = 2 ^ k)"

definition ring_ok :: "shm_view \<Rightarrow> bool" where
  "ring_ok v \<longleftrightarrow> pow2 (buf_size v) \<and> length (buffer v) = unat (buf_size v)
     \<and> used v \<le> unat (buf_size v)"

lemma length_contents [simp]: "length (contents v) = used v"
  by (simp add: contents_def)

lemma pow2_dvd: "pow2 b \<Longrightarrow> unat b dvd 2 ^ 32"
  by (auto simp: pow2_def unat_exp le_imp_power_dvd simp del: power_numeral)

lemma pow2_pos: "pow2 b \<Longrightarrow> 0 < unat b"
  by (auto simp: pow2_def unat_exp)

lemma pow2_le:
  assumes "pow2 b"
  shows "unat b \<le> 1073741824"
proof -
  from assms obtain k where k: "k < 31" "b = 2 ^ k" by (auto simp: pow2_def)
  then have "(2::nat) ^ k \<le> 2 ^ 30" by (intro power_increasing) auto
  with k show ?thesis by (simp add: unat_exp)
qed

lemma pow2_mask: "pow2 b \<Longrightarrow> unat (x AND (b - 1)) = unat x mod unat b"
  by (auto simp: pow2_def unat_exp unat_and_mask)

section \<open>The two-part copies\<close>

text \<open>
  Position \<^verbatim>\<open>(p + i) mod N\<close> written out as the code's copies see it: at \<^verbatim>\<open>p + i\<close> up to the end
  of the array, then from index 0.
\<close>

lemma ring_index:
  fixes p i N :: nat
  assumes "p < N" "i < N"
  shows "(p + i) mod N = (if i < N - p then p + i else p + i - N)"
  using assms by (auto simp: mod_if)

lemma copy_in_wraps:
  fixes b src :: bytes and p n pos l N :: nat
  assumes "length b = N" "p < N" "n \<le> N" "pos + n \<le> length src" "l = min n (N - p)"
  obtains b1 b2 where "memcpy b p src pos l = Inr b1" "memcpy b1 0 src (pos + l) (n - l) = Inr b2"
    "length b2 = N"
    "\<And>i. i < N \<Longrightarrow> b2 ! ((p + i) mod N) = (if i < n then src ! (pos + i) else b ! ((p + i) mod N))"
proof -
  define b1 where "b1 = take p b @ take l (drop pos src) @ drop (p + l) b"
  define b2 where "b2 = take 0 b1 @ take (n - l) (drop (pos + l) src) @ drop (0 + (n - l)) b1"
  have l: "l \<le> n" "p + l \<le> N" using assms by auto
  have len1: "length b1 = N" using assms l by (simp add: b1_def)
  have m1: "memcpy b p src pos l = Inr b1"
    using assms l by (simp add: memcpy_Inr b1_def)
  have m2: "memcpy b1 0 src (pos + l) (n - l) = Inr b2"
    using assms l len1 by (simp add: memcpy_Inr b2_def)
  have n1: "b1 ! j = (if p \<le> j \<and> j < p + l then src ! (pos + (j - p)) else b ! j)" if "j < N" for j
    unfolding b1_def using that assms(1-4) l
    by (subst nth_splice) (auto simp del: add_diff_assoc)
  have n2: "b2 ! j = (if j < n - l then src ! (pos + l + j) else b1 ! j)" if "j < N" for j
    unfolding b2_def using that assms(1-4) l len1 by (subst nth_splice) auto
  have "b2 ! ((p + i) mod N) = (if i < n then src ! (pos + i) else b ! ((p + i) mod N))"
    if "i < N" for i
  proof (cases "i < N - p")
    case True
    then show ?thesis
      using that assms l by (auto simp: ring_index n1 n2)
  next
    case False
    then have "p + i - N < N" "l = min n (N - p)" using that assms by auto
    with False show ?thesis
      using that assms l by (auto simp: ring_index n1 n2 min_def split: if_splits)
  qed
  moreover have "length b2 = N"
    using memcpy_length [OF m2] len1 by simp
  ultimately show thesis using that m1 m2 by blast
qed

lemma copy_out_wraps:
  fixes b dst :: bytes and p n pos l N :: nat
  assumes "length b = N" "p < N" "n \<le> N" "pos + n \<le> length dst" "l = min n (N - p)"
  obtains d1 where "memcpy dst pos b p l = Inr d1"
    "memcpy d1 (pos + l) b 0 (n - l) =
      Inr (take pos dst @ map (\<lambda>i. b ! ((p + i) mod N)) [0..<n] @ drop (pos + n) dst)"
proof -
  define d1 where "d1 = take pos dst @ take l (drop p b) @ drop (pos + l) dst"
  have l: "l \<le> n" "p + l \<le> N" using assms by auto
  have len1: "length d1 = length dst" using assms l by (simp add: d1_def)
  have m1: "memcpy dst pos b p l = Inr d1"
    using assms l by (simp add: memcpy_Inr d1_def)
  have t1: "take (pos + l) d1 = take pos dst @ take l (drop p b)"
    using assms l by (simp add: d1_def)
  have d2: "drop (pos + l + (n - l)) d1 = drop (pos + n) dst"
    using assms l by (simp add: d1_def add.commute)
  have "map (\<lambda>i. b ! ((p + i) mod N)) [0..<n] = take l (drop p b) @ take (n - l) b"
  proof (rule nth_equalityI)
    show "length (map (\<lambda>i. b ! ((p + i) mod N)) [0..<n]) = length (take l (drop p b) @ take (n - l) b)"
      using assms(1-4) l by simp
  next
    fix i assume "i < length (map (\<lambda>i. b ! ((p + i) mod N)) [0..<n])"
    then have i: "i < n" "i < N" using assms(3) by auto
    show "map (\<lambda>i. b ! ((p + i) mod N)) [0..<n] ! i = (take l (drop p b) @ take (n - l) b) ! i"
    proof (cases "i < l")
      case True
      then show ?thesis using i assms(1-4) l by (simp add: nth_append ring_index)
    next
      case False
      with i assms(5) have "l = N - p" by (simp add: min_def split: if_splits)
      with False i assms(1-4) l have "i - l = p + i - N" "i - l < n - l" by auto
      with False i assms(1-4) l \<open>l = N - p\<close> show ?thesis
        by (simp add: nth_append ring_index)
    qed
  qed
  moreover have "memcpy d1 (pos + l) b 0 (n - l)
      = Inr (take (pos + l) d1 @ take (n - l) (drop 0 b) @ drop (pos + l + (n - l)) d1)"
    using assms l len1 by (intro memcpy_Inr) auto
  ultimately have "memcpy d1 (pos + l) b 0 (n - l) =
      Inr (take pos dst @ map (\<lambda>i. b ! ((p + i) mod N)) [0..<n] @ drop (pos + n) dst)"
    using t1 d2 by simp
  with m1 show thesis using that by blast
qed

section \<open>Refinement: the ring is a bounded FIFO\<close>

lemma used_le: "ring_ok v \<Longrightarrow> used v \<le> unat (buf_size v)"
  by (simp add: ring_ok_def)

lemma free_space:
  assumes "ring_ok v"
  shows "unat (buf_size v - ring_in v + ring_out v) = unat (buf_size v) - used v"
proof -
  have "buf_size v - ring_in v + ring_out v = buf_size v - (ring_in v - ring_out v)" by simp
  moreover have "unat (buf_size v - (ring_in v - ring_out v)) = unat (buf_size v) - used v"
    unfolding used_def using assms by (intro unat_sub_le) (simp add: ring_ok_def used_def)
  ultimately show ?thesis by (simp only:)
qed

lemma in_position:
  assumes "pow2 (buf_size v)"
  shows "unat (ring_in v AND (buf_size v - 1)) = (unat (ring_out v) mod unat (buf_size v) + used v) mod unat (buf_size v)"
proof -
  have "ring_in v = ring_out v + (ring_in v - ring_out v)" by simp
  then have "unat (ring_in v) mod unat (buf_size v) = (unat (ring_out v) + used v) mod unat (buf_size v)"
    unfolding used_def using assms by (metis unat_add_mod_dvd pow2_dvd)
  then show ?thesis using assms by (simp add: pow2_mask mod_add_left_eq)
qed

lemma can_get_iff [simp]: "can_get v sz \<longleftrightarrow> unat sz \<le> used v"
  by (simp add: can_get_def used_def word_le_nat_alt)

lemma can_put_iff:
  assumes "ring_ok v" "unat sz \<le> unat (buf_size v)"
  shows "can_put v sz \<longleftrightarrow> used v + unat sz \<le> unat (buf_size v)"
proof -
  have "used v \<le> 1073741824" "unat sz \<le> 1073741824"
    using assms by (auto simp: ring_ok_def dest!: pow2_le)
  then have "unat (ring_in v - ring_out v + sz) = used v + unat sz"
    unfolding used_def by (intro unat_add_small) simp
  then show ?thesis by (simp add: can_put_def word_le_nat_alt)
qed

lemma put_refines:
  assumes ok: "ring_ok v" and n: "n = min (unat len) (unat (buf_size v) - used v)"
    and src: "pos + n \<le> length src"
  obtains v' where "put v src pos len = Inr v'" "ring_ok v'"
    "contents v' = contents v @ take n (drop pos src)"
    "v' = v\<lparr>buffer := buffer v', ring_in := ring_in v + of_nat n\<rparr>"
proof -
  let ?N = "unat (buf_size v)"
  let ?len = "min len (buf_size v - ring_in v + ring_out v)"
  let ?off = "ring_in v AND (buf_size v - 1)"
  let ?l = "min ?len (buf_size v - ?off)"
  define p where "p = unat ?off"
  have N: "0 < ?N" "length (buffer v) = ?N" "used v \<le> ?N" "?N \<le> 1073741824" "pow2 (buf_size v)"
    using ok pow2_le by (auto simp: ring_ok_def pow2_pos)
  have p: "p < ?N" "p = (unat (ring_out v) mod ?N + used v) mod ?N"
    using N by (auto simp: p_def in_position)
  have len: "unat ?len = n" using n by (simp add: free_space [OF ok])
  have l: "unat ?l = min n (?N - p)"
    using len p(1) by (simp add: p_def unat_sub_le)
  have rest: "unat (?len - ?l) = n - unat ?l"
    using len l by (subst unat_sub_le) auto
  have nN: "n + used v \<le> ?N" using n N by auto
  obtain b1 b2 where b: "memcpy (buffer v) p src pos (unat ?l) = Inr b1"
      "memcpy b1 0 src (pos + unat ?l) (n - unat ?l) = Inr b2" "length b2 = ?N"
    and nth: "\<And>i. i < ?N \<Longrightarrow> b2 ! ((p + i) mod ?N) = (if i < n then src ! (pos + i) else buffer v ! ((p + i) mod ?N))"
    using copy_in_wraps [OF N(2) p(1) _ src l] nN by auto
  define v' where "v' = v\<lparr>buffer := b2, ring_in := ring_in v + ?len\<rparr>"
  have put: "put v src pos len = Inr v'"
    unfolding put_def Let_def p_def [symmetric] rest using b by (simp add: v'_def)
  have used': "used v' = used v + n"
    using nN N len by (simp add: used_def v'_def unat_add_diff del: unat_min)
  have ok': "ring_ok v'" using used' N b nN by (simp add: ring_ok_def v'_def)
  have at: "(unat (ring_out v) + j) mod ?N = (p + (j + ?N - used v) mod ?N) mod ?N" if "j < ?N" for j
  proof -
    have "(p + (j + ?N - used v) mod ?N) mod ?N = (unat (ring_out v) + used v + (j + ?N - used v)) mod ?N"
      by (simp add: p(2) mod_simps add.assoc)
    also have "\<dots> = (unat (ring_out v) + j + ?N) mod ?N" using N by (simp add: add.assoc)
    also have "\<dots> = (unat (ring_out v) + j) mod ?N" by (rule mod_add_self2)
    finally show ?thesis by simp
  qed
  have "contents v' = contents v @ take n (drop pos src)"
  proof (rule nth_equalityI)
    show "length (contents v') = length (contents v @ take n (drop pos src))"
      using used' src by simp
  next
    fix j assume "j < length (contents v')"
    then have j: "j < used v + n" "j < ?N" using used' nN by auto
    define q where "q = (j + ?N - used v) mod ?N"
    have "contents v' ! j = b2 ! ((unat (ring_out v) + j) mod ?N)"
      using j used' by (simp add: contents_def v'_def)
    also have "\<dots> = (if q < n then src ! (pos + q) else buffer v ! ((unat (ring_out v) + j) mod ?N))"
      using nth [of q] N(1) unfolding at [OF j(2)] q_def by simp
    also have "\<dots> = (contents v @ take n (drop pos src)) ! j"
    proof (cases "j < used v")
      case True
      then have "q = j + ?N - used v" using N by (simp add: q_def)
      then have "\<not> q < n" using True nN by simp
      with True show ?thesis by (simp add: nth_append contents_def)
    next
      case False
      then have "q = j - used v"
        using j by (simp add: q_def mod_if)
      moreover have "j - used v < n" using False j by simp
      ultimately show ?thesis using False j src by (simp add: nth_append)
    qed
    finally show "contents v' ! j = (contents v @ take n (drop pos src)) ! j" .
  qed
  moreover have "v' = v\<lparr>buffer := buffer v', ring_in := ring_in v + of_nat n\<rparr>"
    unfolding len [symmetric] by (simp add: v'_def del: unat_min)
  ultimately show thesis using that put ok' by blast
qed

lemma get_refines:
  assumes ok: "ring_ok v" and n: "n = min (unat len) (used v)"
    and dst: "pos + n \<le> length dst"
  obtains v' where
    "get v dst pos len = Inr (take pos dst @ take n (contents v) @ drop (pos + n) dst, v')"
    "ring_ok v'" "contents v' = drop n (contents v)"
    "v' = v\<lparr>ring_out := ring_out v + of_nat n\<rparr>"
proof -
  let ?N = "unat (buf_size v)"
  let ?len = "min len (ring_in v - ring_out v)"
  let ?off = "ring_out v AND (buf_size v - 1)"
  let ?l = "min ?len (buf_size v - ?off)"
  define p where "p = unat ?off"
  have N: "0 < ?N" "length (buffer v) = ?N" "used v \<le> ?N" "?N \<le> 1073741824" "pow2 (buf_size v)"
    using ok pow2_le by (auto simp: ring_ok_def pow2_pos)
  have p: "p < ?N" "p = unat (ring_out v) mod ?N"
    using N by (auto simp: p_def pow2_mask)
  have len: "unat ?len = n" using n by (simp add: used_def)
  have l: "unat ?l = min n (?N - p)"
    using len p(1) by (simp add: p_def unat_sub_le)
  have rest: "unat (?len - ?l) = n - unat ?l"
    using len l by (subst unat_sub_le) auto
  have nN: "n \<le> used v" "n \<le> ?N" using n N by auto
  have slice: "map (\<lambda>i. buffer v ! ((p + i) mod ?N)) [0..<n] = take n (contents v)"
    using nN by (simp add: contents_def take_map p(2) mod_add_left_eq)
  obtain d1 where d: "memcpy dst pos (buffer v) p (unat ?l) = Inr d1"
    "memcpy d1 (pos + unat ?l) (buffer v) 0 (n - unat ?l) =
      Inr (take pos dst @ take n (contents v) @ drop (pos + n) dst)"
    using copy_out_wraps [OF N(2) p(1) nN(2) dst l] unfolding slice by blast
  define v' where "v' = v\<lparr>ring_out := ring_out v + ?len\<rparr>"
  have get: "get v dst pos len = Inr (take pos dst @ take n (contents v) @ drop (pos + n) dst, v')"
    unfolding get_def Let_def p_def [symmetric] rest using d by (simp add: v'_def)
  have used': "used v' = used v - n"
    using nN len by (simp add: used_def v'_def unat_diff_shift del: unat_min)
  then have ok': "ring_ok v'" using N by (simp add: ring_ok_def v'_def)
  have at: "unat (ring_out v + ?len) mod ?N = (unat (ring_out v) + n) mod ?N"
    using unat_add_mod_dvd [OF pow2_dvd [OF N(5)]] len by metis
  have "contents v' = drop n (contents v)"
  proof (rule nth_equalityI)
    show "length (contents v') = length (drop n (contents v))" using used' by simp
  next
    fix j assume "j < length (contents v')"
    then have j: "j < used v - n" using used' by simp
    have "(unat (ring_out v + ?len) + j) mod ?N = (unat (ring_out v) + (n + j)) mod ?N"
      using at by (metis mod_add_left_eq add.assoc)
    moreover have "[0..<used v] ! (n + j) = n + j" using j by simp
    ultimately show "contents v' ! j = drop n (contents v) ! j"
      using j used' by (simp add: contents_def v'_def)
  qed
  moreover have "v' = v\<lparr>ring_out := ring_out v + of_nat n\<rparr>"
    unfolding len [symmetric] by (simp add: v'_def del: unat_min)
  ultimately show thesis using that get ok' by blast
qed

section \<open>The guarded operations\<close>

lemma write_view_wait:
  "ring_ok v \<Longrightarrow> unat len \<le> unat (buf_size v) \<Longrightarrow> unat (buf_size v) < used v + unat len \<Longrightarrow>
   write_view v src pos len = Inr None"
  by (simp add: write_view_def can_put_iff)

lemma write_view_room:
  assumes "ring_ok v" "used v + unat len \<le> unat (buf_size v)" "pos + unat len \<le> length src"
  obtains v' where "write_view v src pos len = Inr (Some v')" "ring_ok v'"
    "contents v' = contents v @ take (unat len) (drop pos src)"
    "v' = v\<lparr>buffer := buffer v', ring_in := ring_in v + len\<rparr>" "buf_size v' = buf_size v"
proof -
  have "unat len = min (unat len) (unat (buf_size v) - used v)" using assms(2) by simp
  from put_refines [OF assms(1) this assms(3)]
  obtain v' where v': "put v src pos len = Inr v'" "ring_ok v'"
    "contents v' = contents v @ take (unat len) (drop pos src)"
    "v' = v\<lparr>buffer := buffer v', ring_in := ring_in v + len\<rparr>" by auto
  moreover from this(4) have "buf_size v' = buf_size v"
    by (metis shm_view.select_convs(1) shm_view.surjective shm_view.update_convs(4,6))
  moreover have "can_put v len" using assms(1,2) by (simp add: can_put_iff)
  ultimately show thesis using that by (simp add: write_view_def)
qed

lemma read_view_wait: "used v < unat len \<Longrightarrow> read_view v dst pos len = Inr None"
  by (simp add: read_view_def)

lemma read_view_ready:
  assumes "ring_ok v" "unat len \<le> used v" "pos + unat len \<le> length dst"
  obtains v' where
    "read_view v dst pos len =
      Inr (Some (take pos dst @ take (unat len) (contents v) @ drop (pos + unat len) dst, v'))"
    "ring_ok v'" "contents v' = drop (unat len) (contents v)"
    "v' = v\<lparr>ring_out := ring_out v + len\<rparr>"
proof -
  have "unat len = min (unat len) (used v)" using assms(2) by simp
  from get_refines [OF assms(1) this assms(3)]
  obtain v' where "get v dst pos len =
      Inr (take pos dst @ take (unat len) (contents v) @ drop (pos + unat len) dst, v')"
    "ring_ok v'" "contents v' = drop (unat len) (contents v)"
    "v' = v\<lparr>ring_out := ring_out v + len\<rparr>" by auto
  then show thesis using that assms(2) by (simp add: read_view_def)
qed

interpretation ring: byte_pipe write_view read_view contents "\<lambda>v. unat (buf_size v)" ring_ok
proof unfold_locales
  fix v :: shm_view and len :: u32 and src :: bytes and pos :: nat
  assume "ring_ok v" "length (contents v) + unat len \<le> unat (buf_size v)" "pos + unat len \<le> length src"
  then obtain v' where "write_view v src pos len = Inr (Some v')" "ring_ok v'"
    "contents v' = contents v @ take (unat len) (drop pos src)" "buf_size v' = buf_size v"
    by (auto elim: write_view_room)
  then show "\<exists>v'. write_view v src pos len = Inr (Some v') \<and> ring_ok v' \<and> unat (buf_size v') = unat (buf_size v)
      \<and> contents v' = contents v @ take (unat len) (drop pos src)"
    by auto
next
  fix v :: shm_view and len :: u32 and dst :: bytes and pos :: nat
  assume "ring_ok v" "unat len \<le> length (contents v)" "pos + unat len \<le> length dst"
  then obtain v' where "read_view v dst pos len =
      Inr (Some (take pos dst @ take (unat len) (contents v) @ drop (pos + unat len) dst, v'))"
    "ring_ok v'" "contents v' = drop (unat len) (contents v)" "v' = v\<lparr>ring_out := ring_out v + len\<rparr>"
    by (auto elim: read_view_ready)
  then show "\<exists>v'. read_view v dst pos len =
      Inr (Some (take pos dst @ take (unat len) (contents v) @ drop (pos + unat len) dst, v'))
      \<and> ring_ok v' \<and> unat (buf_size v') = unat (buf_size v) \<and> contents v' = drop (unat len) (contents v)"
    by auto
qed (simp_all add: write_view_wait read_view_wait)

interpretation ring_bounded: bounded_pipe write_view read_view contents "\<lambda>v. unat (buf_size v)" ring_ok
  by unfold_locales (simp add: used_le)

lemma init_view_empty:
  assumes "pow2 n" "length (buffer v) = unat n" "list_all (\<lambda>i. pthread_rc i = 0) [0, 1, 2, 3, 4, 5, 6, 7]"
  obtains v' where "init_view pthread_rc v n cv = Inr v'" "ring_ok v'" "contents v' = []" "buf_size v' = n"
    "enable_cv v' = cv" "client_attached v' = 0" "ring_in v' = 0" "ring_out v' = 0"
  using assms by (simp add: init_view_def Let_def ring_ok_def used_def contents_def)

section \<open>Properties\<close>

text \<open>
  C20: \<^verbatim>\<open>put\<close> takes as many bytes as there is room for, appends them to the bytes in transit, never
  copies out of bounds, and leaves the reader's counter alone, wherever the 32-bit counters stand.
\<close>

theorem put_appends:
  assumes "ring_ok v" and "n = min (unat len) (unat (buf_size v) - used v)" and "pos + n \<le> length src"
  shows "\<exists>v'. put v src pos len = Inr v' \<and> ring_ok v' \<and> contents v' = contents v @ take n (drop pos src)
    \<and> ring_out v' = ring_out v \<and> ring_in v' = ring_in v + of_nat n \<and> buf_size v' = buf_size v"
proof -
  obtain v' where "put v src pos len = Inr v'" "ring_ok v'" "contents v' = contents v @ take n (drop pos src)"
    "v' = v\<lparr>buffer := buffer v', ring_in := ring_in v + of_nat n\<rparr>"
    using put_refines [OF assms] by blast
  moreover from this(4) have "ring_out v' = ring_out v" "ring_in v' = ring_in v + of_nat n" "buf_size v' = buf_size v"
    by (metis shm_view.select_convs shm_view.surjective shm_view.update_convs(4,6))+
  ultimately show ?thesis by blast
qed

text \<open>A ring whose counters are about to wrap: four bytes in transit, five more asked for, four fit.\<close>

definition wrap_ring :: shm_view where
  "wrap_ring = \<lparr>buf_size = 8, enable_cv = False, client_attached = 0, ring_in = 2, ring_out = - 2,
     buffer = [1, 2, 3, 4, 5, 6, 7, 8]\<rparr>"

lemma wrap_ring_ok: "ring_ok wrap_ring" and wrap_ring_contents: "contents wrap_ring = [7, 8, 1, 2]"
proof -
  have "pow2 8" by (auto simp: pow2_def intro!: exI [of _ 3])
  then show "ring_ok wrap_ring" by (simp add: ring_ok_def wrap_ring_def used_def)
  show "contents wrap_ring = [7, 8, 1, 2]"
    by (simp add: contents_def wrap_ring_def used_def upt_rec)
qed

theorem put_appends_witness:
  "\<exists>v'. put wrap_ring [10, 11, 12, 13, 14] 0 5 = Inr v' \<and> ring_ok v'
    \<and> contents v' = [7, 8, 1, 2, 10, 11, 12, 13] \<and> ring_in v' = 6"
  using put_appends [OF wrap_ring_ok, of 4 5 0 "[10, 11, 12, 13, 14]"] wrap_ring_contents
  by (auto simp: wrap_ring_def used_def)

text \<open>
  C21: \<^verbatim>\<open>get\<close> delivers the oldest bytes in transit, in order, to the given place of the destination
  and nowhere else, never copies out of bounds, and leaves the writer's counter alone.
\<close>

theorem get_takes_oldest:
  assumes "ring_ok v" and "n = min (unat len) (used v)" and "pos + n \<le> length dst"
  shows "\<exists>v'. get v dst pos len = Inr (take pos dst @ take n (contents v) @ drop (pos + n) dst, v')
    \<and> ring_ok v' \<and> contents v' = drop n (contents v)
    \<and> ring_in v' = ring_in v \<and> buffer v' = buffer v \<and> buf_size v' = buf_size v"
  using get_refines [OF assms] by (metis shm_view.select_convs shm_view.surjective shm_view.update_convs(5))

theorem get_takes_oldest_witness:
  "\<exists>v'. get wrap_ring [0, 0, 0, 0] 1 3 = Inr ([0, 7, 8, 1], v') \<and> ring_ok v' \<and> contents v' = [2]"
  using get_takes_oldest [OF wrap_ring_ok, of 3 3 1 "[0, 0, 0, 0]"] wrap_ring_contents
  by (auto simp: wrap_ring_def used_def)

end
