(* ===== verification/MemChannel.thy ===== *)
theory MemChannel imports SharedMemoryView IChannel FastResize begin

text \<open>
  \<^verbatim>\<open>MemChannel\<close> of \<^verbatim>\<open>src/src/memchannel.cpp\<close>: the framing of a message (a 32-bit length, then the
  body in chunks of at most the buffer size) and a conversation of one sending and one receiving
  thread over one shared ring, as two step functions that any scheduler may interleave. The
  lemmas are proved over the \<^verbatim>\<open>byte_pipe\<close> contract and instantiated with the ring.
\<close>

unbundle bit_operations_syntax

section \<open>State\<close>

text \<open>
  Pointers to mapped views are numbers of shared-memory objects (\<^verbatim>\<open>None\<close> is \<^verbatim>\<open>nullptr\<close>).
\<close>

record mem_channel = ichannel +
  m_buf_size :: i32
  m_enable_cv :: bool
  need_attach :: bool
  m_send_buf :: "nat option"
  m_recv_buf :: "nat option"
  m_send_fd :: int
  m_recv_fd :: int

definition get_shm_key :: "u32 \<Rightarrow> u32 \<Rightarrow> string \<Rightarrow> string" where
  "get_shm_key from_party to_party taskid =
     ''MC'' @ taskid @ ''_'' @ to_string (unat from_party) @ ''_'' @ to_string (unat to_party)"

text \<open>The assertion at the end of the constructor: a buffer size is a power of two, at least 8.\<close>

definition valid_buf_size :: "i32 \<Rightarrow> bool" where
  "valid_buf_size bs \<longleftrightarrow> bs \<noteq> 0 \<and> 8 \<le> sint bs \<and> bs AND (bs - 1) = 0"

section \<open>Framing\<close>

text \<open>
  The loop shared by \<^verbatim>\<open>send\<close> and \<^verbatim>\<open>recv_body\<close>: \<^verbatim>\<open>chunk_cnt\<close> is computed in 32-bit unsigned
  arithmetic and read as an \<^verbatim>\<open>int\<close>, \<^verbatim>\<open>pos\<close> is an \<^verbatim>\<open>int\<close>. The result lists the offset and length
  that each iteration passes to the view; the first argument counts the iterations left.
\<close>

definition chunk_cnt :: "u32 \<Rightarrow> u32 \<Rightarrow> i32" where
  "chunk_cnt body_len chunk_size = (body_len + chunk_size - 1) div chunk_size"

fun chunk_loop :: "nat \<Rightarrow> i32 \<Rightarrow> u32 \<Rightarrow> u32 \<Rightarrow> (i32 \<times> u32) list" where
  "chunk_loop 0 pos body_len chunk_size = []"
| "chunk_loop (Suc n) pos body_len chunk_size =
     (let len = min body_len chunk_size
      in (pos, len) # chunk_loop n (pos + len) (body_len - len) chunk_size)"

definition chunk_requests :: "i32 \<Rightarrow> u32 \<Rightarrow> (i32 \<times> u32) list" where
  "chunk_requests buf_sz body_len =
     chunk_loop (nat (sint (chunk_cnt body_len buf_sz))) 0 body_len buf_sz"

type_synonym write_req = "bytes \<times> i32 \<times> u32"

text \<open>The calls of \<^verbatim>\<open>view->write\<close> that \<^verbatim>\<open>send(buf, nbytes)\<close> makes, in order.\<close>

definition send_requests :: "i32 \<Rightarrow> bytes \<Rightarrow> u64 \<Rightarrow> write_req list" where
  "send_requests buf_sz buf nbytes =
     (let body_len = ucast nbytes
      in (le32 body_len, 0, 4) # map (\<lambda>(pos, len). (buf, pos, len)) (chunk_requests buf_sz body_len))"

section \<open>A conversation: one sender, one receiver, one view\<close>

text \<open>
  \<^verbatim>\<open>TxSend reqs n\<close>: inside \<^verbatim>\<open>send(buf, n)\<close> with the calls \<^verbatim>\<open>reqs\<close> still to make.
  \<^verbatim>\<open>RxHeader a\<close>: inside \<^verbatim>\<open>recv\<close>, waiting for the length; \<^verbatim>\<open>RxBody cs a n\<close>: inside \<^verbatim>\<open>recv_body\<close> of
  length \<^verbatim>\<open>n\<close> with the reads \<^verbatim>\<open>cs\<close> still to make. \<^verbatim>\<open>IntoString\<close> is \<^verbatim>\<open>recv(std::string&)\<close>,
  \<^verbatim>\<open>IntoBuffer b n\<close> is \<^verbatim>\<open>recv(void*, n)\<close> on the memory \<^verbatim>\<open>b\<close>.
\<close>

datatype tx_run = TxIdle | TxSend "write_req list" u64

datatype rx_arg = IntoString stdstring | IntoBuffer bytes u64

datatype rx_run = RxIdle | RxHeader rx_arg | RxBody "(i32 \<times> u32) list" rx_arg u64

record 'v conv =
  pipe :: 'v
  tx_chan :: mem_channel
  rx_chan :: mem_channel
  tx_msgs :: "bytes list"
  tx_run :: tx_run
  rx_args :: "rx_arg list"
  rx_run :: rx_run
  rx_out :: "bytes list"

fun arg_bytes :: "rx_arg \<Rightarrow> bytes" where
  "arg_bytes (IntoString s) = chars s"
| "arg_bytes (IntoBuffer b n) = b"

fun arg_put :: "rx_arg \<Rightarrow> bytes \<Rightarrow> rx_arg" where
  "arg_put (IntoString s) d = IntoString (set_chars s d)"
| "arg_put (IntoBuffer b n) d = IntoBuffer d n"

text \<open>What the caller of \<^verbatim>\<open>recv\<close> holds when it returns.\<close>

fun arg_result :: "rx_arg \<Rightarrow> bytes" where
  "arg_result (IntoString s) = chars s"
| "arg_result (IntoBuffer b n) = take (unat n) b"

text \<open>
  One step of the sending thread: enter \<^verbatim>\<open>send\<close>, one \<^verbatim>\<open>view->write\<close> (\<^verbatim>\<open>None\<close>: it keeps
  waiting), or the final \<^verbatim>\<open>statistics_send\<close>. A negative \<^verbatim>\<open>pos\<close> points outside the message.
\<close>

definition tx_step :: "('v \<Rightarrow> bytes \<Rightarrow> nat \<Rightarrow> u32 \<Rightarrow> fault + 'v option) \<Rightarrow> 'v conv \<Rightarrow> fault + 'v conv option" where
  "tx_step wr c =
     (case tx_run c of
        TxIdle \<Rightarrow>
          (case tx_msgs c of
             [] \<Rightarrow> Inr None
           | m # ms \<Rightarrow>
               Inr (Some (c\<lparr>tx_msgs := ms,
                 tx_run := TxSend (send_requests (m_buf_size (tx_chan c)) m (of_nat (length m))) (of_nat (length m))\<rparr>)))
      | TxSend [] n \<Rightarrow> Inr (Some (c\<lparr>tx_chan := statistics_send n (tx_chan c), tx_run := TxIdle\<rparr>))
      | TxSend ((src, pos, len) # reqs) n \<Rightarrow>
          (if sint pos < 0 then Inl OutOfBounds
           else (case wr (pipe c) src (nat (sint pos)) len of
                   Inl e \<Rightarrow> Inl e
                 | Inr None \<Rightarrow> Inr None
                 | Inr (Some v) \<Rightarrow> Inr (Some (c\<lparr>pipe := v, tx_run := TxSend reqs n\<rparr>)))))"

text \<open>
  What \<^verbatim>\<open>recv\<close> does with the length it has read: \<^verbatim>\<open>fast_resize\<close> of the string, or the assertion
  that the caller's length is the message's.
\<close>

fun recv_prepare :: "(nat \<Rightarrow> nat \<Rightarrow> nat) \<Rightarrow> (nat \<Rightarrow> u8) \<Rightarrow> u32 \<Rightarrow> rx_arg \<Rightarrow> fault + rx_arg \<times> u64" where
  "recv_prepare grow junk body_len (IntoString s) =
     Inr (IntoString (fast_resize grow junk s (unat body_len)), ucast body_len)"
| "recv_prepare grow junk body_len (IntoBuffer b n) =
     (if ucast body_len = n then Inr (IntoBuffer b n, n) else Inl AssertFailed)"

definition rx_step :: "('v \<Rightarrow> bytes \<Rightarrow> nat \<Rightarrow> u32 \<Rightarrow> fault + (bytes \<times> 'v) option) \<Rightarrow>
    (nat \<Rightarrow> nat \<Rightarrow> nat) \<Rightarrow> (nat \<Rightarrow> u8) \<Rightarrow> 'v conv \<Rightarrow> fault + 'v conv option" where
  "rx_step rd grow junk c =
     (case rx_run c of
        RxIdle \<Rightarrow>
          (case rx_args c of
             [] \<Rightarrow> Inr None
           | a # as \<Rightarrow> Inr (Some (c\<lparr>rx_args := as, rx_run := RxHeader a\<rparr>)))
      | RxHeader a \<Rightarrow>
          (case rd (pipe c) (map junk [0..<4]) 0 4 of
             Inl e \<Rightarrow> Inl e
           | Inr None \<Rightarrow> Inr None
           | Inr (Some (hdr, v)) \<Rightarrow>
               (case recv_prepare grow junk (un_le32 hdr) a of
                  Inl e \<Rightarrow> Inl e
                | Inr (a', n) \<Rightarrow>
                    Inr (Some (c\<lparr>pipe := v,
                      rx_run := RxBody (chunk_requests (m_buf_size (rx_chan c)) (ucast n)) a' n\<rparr>))))
      | RxBody [] a n \<Rightarrow>
          Inr (Some (c\<lparr>rx_chan := statistics_recv n (rx_chan c), rx_run := RxIdle,
            rx_out := rx_out c @ [arg_result a]\<rparr>))
      | RxBody ((pos, len) # cs) a n \<Rightarrow>
          (if sint pos < 0 then Inl OutOfBounds
           else (case rd (pipe c) (arg_bytes a) (nat (sint pos)) len of
                   Inl e \<Rightarrow> Inl e
                 | Inr None \<Rightarrow> Inr None
                 | Inr (Some (d, v)) \<Rightarrow> Inr (Some (c\<lparr>pipe := v, rx_run := RxBody cs (arg_put a d) n\<rparr>)))))"

text \<open>The interleavings of the two threads, and a run that ends in a fault.\<close>

inductive conv_step for wr rd grow junk where
  tx: "tx_step wr c = Inr (Some c') \<Longrightarrow> conv_step wr rd grow junk c c'"
| rx: "rx_step rd grow junk c = Inr (Some c') \<Longrightarrow> conv_step wr rd grow junk c c'"

definition conv_fault where
  "conv_fault wr rd grow junk c \<longleftrightarrow> (\<exists>e. tx_step wr c = Inl e) \<or> (\<exists>e. rx_step rd grow junk c = Inl e)"

section \<open>Buffer sizes\<close>

lemma nat_and_pred_pow2: "0 < n \<Longrightarrow> n AND (n - 1) = 0 \<Longrightarrow> \<exists>k. n = (2::nat) ^ k"
proof (induction n rule: less_induct)
  case (less n)
  show ?case
  proof (cases "even n")
    case True
    then obtain m where m: "n = 2 * m" by blast
    with less.prems have "0 < m" by simp
    have "n - 1 = 2 * (m - 1) + 1" using m \<open>0 < m\<close> by simp
    with m have "n AND (n - 1) = 2 * (m AND (m - 1))"
      by (subst and_nat_rec) simp
    with less.prems have "m AND (m - 1) = 0" by simp
    from less.IH [OF _ \<open>0 < m\<close> this] m \<open>0 < m\<close> obtain k where "m = 2 ^ k" by auto
    with m have "n = 2 ^ Suc k" by simp
    then show ?thesis by blast
  next
    case False
    then obtain m where m: "n = 2 * m + 1" by (metis oddE)
    then have "n AND (n - 1) = 2 * m"
      by (subst and_nat_rec) simp
    with less.prems m have "n = 2 ^ 0" by simp
    then show ?thesis by blast
  qed
qed

lemma valid_buf_size_pow2:
  assumes "valid_buf_size bs"
  shows "pow2 bs" and "8 \<le> unat bs"
proof -
  have s: "8 \<le> sint bs" and a: "bs AND (bs - 1) = 0" using assms by (auto simp: valid_buf_size_def)
  have u: "sint bs = int (unat bs)" and lt: "unat bs < 2147483648"
    using s sint_nonneg [of bs] by auto
  show "8 \<le> unat bs" using s u by linarith
  have "unat (bs AND (bs - 1)) = unat bs AND unat (bs - 1)" by (simp add: unsigned_and_eq)
  moreover have "unat (bs - 1) = unat bs - 1"
    using \<open>8 \<le> unat bs\<close> by (subst unat_sub_le) auto
  ultimately have "unat bs AND (unat bs - 1) = 0" using a by simp
  then obtain k where k: "unat bs = 2 ^ k"
    using nat_and_pred_pow2 [of "unat bs"] \<open>8 \<le> unat bs\<close> by auto
  have "(2::nat) ^ k < 2 ^ 31" using lt k by simp
  then have "k < 31" by (rule power_less_imp_less_exp [rotated]) simp
  moreover from this have "bs = 2 ^ k" using k unat_eq_exp_iff [of k bs] by simp
  ultimately show "pow2 bs" by (auto simp: pow2_def)
qed

section \<open>Chunks\<close>

text \<open>\<^verbatim>\<open>wf_chunks N p q cs\<close>: the requests \<^verbatim>\<open>cs\<close> cover the bytes \<^verbatim>\<open>p\<close> to \<^verbatim>\<open>q\<close> in order, each of 1 to \<^verbatim>\<open>N\<close> bytes.\<close>

fun wf_chunks :: "nat \<Rightarrow> nat \<Rightarrow> nat \<Rightarrow> (i32 \<times> u32) list \<Rightarrow> bool" where
  "wf_chunks N p q [] \<longleftrightarrow> p = q"
| "wf_chunks N p q ((pos, len) # cs) \<longleftrightarrow>
     sint pos = int p \<and> 0 < unat len \<and> unat len \<le> N \<and> p + unat len \<le> q \<and> wf_chunks N (p + unat len) q cs"

fun piece :: "bytes \<Rightarrow> i32 \<times> u32 \<Rightarrow> bytes" where
  "piece m (pos, len) = take (unat len) (drop (nat (sint pos)) m)"

lemma ceil_step:
  fixes b N k :: nat
  assumes "Suc k = (b + N - 1) div N" "0 < N"
  shows "0 < b" and "k = (b - min b N + N - 1) div N"
proof -
  show "0 < b" using assms by (cases b) auto
  show "k = (b - min b N + N - 1) div N"
  proof (cases "N \<le> b")
    case True
    then have "b + N - 1 = (b - N + N - 1) + N" using assms(2) by simp
    then have "(b + N - 1) div N = Suc ((b - N + N - 1) div N)"
      using assms(2) by (metis Suc_eq_plus1 div_add_self2 less_not_refl2)
    with True assms(1) show ?thesis by (simp add: min_def)
  next
    case False
    then have "(b + N - 1) div N = 1" using \<open>0 < b\<close>
      by (intro div_nat_eqI) auto
    with False assms show ?thesis by (simp add: min_def)
  qed
qed

lemma chunk_loop_wf:
  assumes "k = (b + unat c - 1) div unat c" "0 < unat c" "unat pos = p" "unat body = b"
    "p + b \<le> 2147483648"
  shows "wf_chunks (unat c) p (p + b) (chunk_loop k pos body c)"
  using assms
proof (induction k arbitrary: p b pos body)
  case 0
  then have "b = 0" by (cases b) (auto simp: div_eq_0_iff)
  then show ?case by simp
next
  case (Suc k)
  note step = ceil_step [OF Suc.prems(1,2)]
  let ?len = "min body c"
  have len: "unat ?len = min b (unat c)" using Suc.prems by simp
  have pos: "sint pos = int p" using Suc.prems step(1) by (simp add: sint_small)
  have next_pos: "unat (pos + ?len) = p + unat ?len"
    using Suc.prems len by (subst unat_add_small) auto
  have next_body: "unat (body - ?len) = b - unat ?len"
    using Suc.prems len by (subst unat_sub_le) auto
  have "wf_chunks (unat c) (p + unat ?len) (p + unat ?len + (b - unat ?len))
      (chunk_loop k (pos + ?len) (body - ?len) c)"
    using Suc.IH [OF _ Suc.prems(2) next_pos next_body] step(2) Suc.prems(5) len by simp
  moreover have "p + unat ?len + (b - unat ?len) = p + b" using len by simp
  ultimately show ?case
    using pos len step(1) Suc.prems(2) by (simp add: Let_def del: unat_min)
qed

lemma chunk_requests_wf:
  assumes "valid_buf_size c" "n \<le> 2147483648"
  shows "wf_chunks (unat c) 0 n (chunk_requests c (of_nat n))"
proof -
  have c: "8 \<le> unat c" "unat c \<le> 1073741824"
    using valid_buf_size_pow2 [OF assms(1)] pow2_le by auto
  have n: "unat (of_nat n :: u32) = n" using assms(2) by (simp add: unat_of_nat)
  have "unat (of_nat n + c) = n + unat c"
    using n c assms(2) by (subst unat_add_small) auto
  then have "unat (of_nat n + c - 1) = n + unat c - 1"
    using c by (subst unat_sub_le) auto
  then have cnt: "unat (chunk_cnt (of_nat n) c) = (n + unat c - 1) div unat c"
    by (simp add: chunk_cnt_def unat_div_distrib)
  also have "\<dots> \<le> (n + unat c - 1) div 8" using c(1) by (intro div_le_mono2) auto
  also have "\<dots> < 2147483648" using assms(2) c(2) by simp
  finally have "nat (sint (chunk_cnt (of_nat n) c)) = (n + unat c - 1) div unat c"
    using cnt by (simp add: sint_small)
  then show ?thesis
    unfolding chunk_requests_def using chunk_loop_wf [of _ n c 0 0 "of_nat n"] n c assms(2) by simp
qed

lemma wf_chunks_le: "wf_chunks N p q cs \<Longrightarrow> p \<le> q"
  by (induction N p q cs rule: wf_chunks.induct) auto

lemma concat_pieces:
  "wf_chunks N p q cs \<Longrightarrow> q \<le> length m \<Longrightarrow> concat (map (piece m) cs) = take (q - p) (drop p m)"
proof (induction N p q cs rule: wf_chunks.induct)
  case (2 N p q pos len cs)
  then have "q - p = unat len + (q - (p + unat len))" by simp
  then have "take (q - p) (drop p m) = take (unat len) (drop p m) @ take (q - (p + unat len)) (drop (p + unat len) m)"
    by (metis add.commute drop_drop take_add)
  with 2 show ?case by simp
qed simp

lemma pieces_nonempty:
  "wf_chunks N p q cs \<Longrightarrow> q \<le> length m \<Longrightarrow> [] \<notin> set (map (piece m) cs)"
  by (induction N p q cs rule: wf_chunks.induct) auto

section \<open>The invariant of a conversation\<close>

text \<open>The chunks a message puts on the wire, and the chunk a request stands for.\<close>

definition wire :: "i32 \<Rightarrow> bytes \<Rightarrow> bytes list" where
  "wire bs m = le32 (of_nat (length m)) # map (piece m) (chunk_requests bs (of_nat (length m)))"

fun req_piece :: "write_req \<Rightarrow> bytes" where
  "req_piece (src, pos, len) = piece src (pos, len)"

fun req_ok :: "nat \<Rightarrow> write_req \<Rightarrow> bool" where
  "req_ok N (src, pos, len) \<longleftrightarrow>
     0 \<le> sint pos \<and> nat (sint pos) + unat len \<le> length src \<and> 0 < unat len \<and> unat len \<le> N"

lemma send_requests_pieces:
  "map req_piece (send_requests bs m (of_nat (length m))) = wire bs m"
  by (auto simp: send_requests_def wire_def Let_def)

lemma send_requests_ok:
  assumes "valid_buf_size bs" "length m \<le> 2147483648"
  shows "\<forall>r \<in> set (send_requests bs m (of_nat (length m))). req_ok (unat bs) r"
proof -
  have "\<forall>(pos, len) \<in> set cs. req_ok N (m, pos, len)" if "wf_chunks N p q cs" "q \<le> length m" for N p q cs
    using that by (induction N p q cs rule: wf_chunks.induct) auto
  from this [OF chunk_requests_wf [OF assms]] valid_buf_size_pow2(2) [OF assms(1)]
  show ?thesis by (auto simp: send_requests_def Let_def)
qed

text \<open>
  \<^verbatim>\<open>arg_fits a m\<close>: the message \<^verbatim>\<open>m\<close> may be received into \<^verbatim>\<open>a\<close>; \<^verbatim>\<open>arg_ready a m\<close>: the memory is there.
\<close>

fun arg_fits :: "rx_arg \<Rightarrow> bytes \<Rightarrow> bool" where
  "arg_fits (IntoString s) m \<longleftrightarrow> string_ok s"
| "arg_fits (IntoBuffer b n) m \<longleftrightarrow> unat n = length m \<and> length m \<le> length b"

fun arg_ready :: "rx_arg \<Rightarrow> bytes \<Rightarrow> bool" where
  "arg_ready (IntoString s) m \<longleftrightarrow> string_ok s \<and> str_size s = length m"
| "arg_ready (IntoBuffer b n) m \<longleftrightarrow> unat n = length m \<and> length m \<le> length b"

lemma arg_ready_length: "arg_ready a m \<Longrightarrow> length m \<le> length (arg_bytes a)"
  by (cases a) auto

lemma arg_ready_put:
  "arg_ready a m \<Longrightarrow> length d = length (arg_bytes a) \<Longrightarrow> arg_ready (arg_put a d) m \<and> arg_bytes (arg_put a d) = d"
  by (cases a) auto

lemma arg_ready_result: "arg_ready a m \<Longrightarrow> arg_result a = take (length m) (arg_bytes a)"
  by (cases a) auto

lemma recv_prepare_fits:
  assumes "arg_fits a m" "length m \<le> 2147483648"
  obtains a' where "recv_prepare grow junk (of_nat (length m)) a = Inr (a', of_nat (length m))" "arg_ready a' m"
proof -
  have l: "unat (of_nat (length m) :: u32) = length m" "unat (of_nat (length m) :: u64) = length m"
    using assms(2) by (simp_all add: unat_of_nat)
  then have u: "(ucast (of_nat (length m) :: u32) :: u64) = of_nat (length m)"
    by (metis of_nat_unat)
  show thesis
  proof (cases a)
    case (IntoString s)
    with assms l u that show ?thesis by simp
  next
    case (IntoBuffer b n)
    with assms have "n = of_nat (length m)" by (metis arg_fits.simps(2) of_nat_unat ucast_id)
    with IntoBuffer assms u l that show ?thesis by simp
  qed
qed

definition tx_inv :: "i32 \<Rightarrow> bytes list \<Rightarrow> 'v conv \<Rightarrow> bytes list \<Rightarrow> bool" where
  "tx_inv bs ms c T \<longleftrightarrow>
     (case tx_run c of
        TxIdle \<Rightarrow>
          (\<exists>sent. ms = sent @ tx_msgs c
             \<and> counted sent (m_bytes_send (tx_chan c)) (m_packet_send (tx_chan c)))
          \<and> T = concat (map (wire bs) (tx_msgs c))
      | TxSend reqs n \<Rightarrow>
          (\<exists>sent m. ms = sent @ m # tx_msgs c \<and> n = of_nat (length m)
             \<and> counted sent (m_bytes_send (tx_chan c)) (m_packet_send (tx_chan c)))
          \<and> (\<forall>r \<in> set reqs. req_ok (unat bs) r)
          \<and> T = map req_piece reqs @ concat (map (wire bs) (tx_msgs c)))"

definition rx_inv :: "i32 \<Rightarrow> bytes list \<Rightarrow> 'v conv \<Rightarrow> bytes list \<Rightarrow> bool" where
  "rx_inv bs ms c E \<longleftrightarrow>
     counted (rx_out c) (m_bytes_recv (rx_chan c)) (m_packet_recv (rx_chan c)) \<and>
     (case rx_run c of
        RxIdle \<Rightarrow>
          (\<exists>rest. ms = rx_out c @ rest \<and> list_all2 arg_fits (rx_args c) rest
             \<and> E = concat (map (wire bs) rest))
      | RxHeader a \<Rightarrow>
          (\<exists>m rest. ms = rx_out c @ m # rest \<and> arg_fits a m \<and> list_all2 arg_fits (rx_args c) rest
             \<and> E = concat (map (wire bs) (m # rest)))
      | RxBody cs a n \<Rightarrow>
          (\<exists>m rest p. ms = rx_out c @ m # rest \<and> arg_ready a m \<and> n = of_nat (length m)
             \<and> wf_chunks (unat bs) p (length m) cs \<and> take p (arg_bytes a) = take p m
             \<and> list_all2 arg_fits (rx_args c) rest
             \<and> E = map (piece m) cs @ concat (map (wire bs) rest)))"

definition conv_inv :: "('v \<Rightarrow> bytes) \<Rightarrow> ('v \<Rightarrow> nat) \<Rightarrow> ('v \<Rightarrow> bool) \<Rightarrow> i32 \<Rightarrow> bytes list \<Rightarrow> 'v conv \<Rightarrow> bool" where
  "conv_inv cont cap ok bs ms c \<longleftrightarrow>
     ok (pipe c) \<and> cap (pipe c) = unat bs \<and> valid_buf_size bs
     \<and> m_buf_size (tx_chan c) = bs \<and> m_buf_size (rx_chan c) = bs
     \<and> (\<forall>m \<in> set ms. length m \<le> 2147483648)
     \<and> (\<exists>ps T. cont (pipe c) = concat ps \<and> [] \<notin> set ps \<and> tx_inv bs ms c T \<and> rx_inv bs ms c (ps @ T))"

lemma conv_invI:
  assumes "ok (pipe c)" "cap (pipe c) = unat bs" "valid_buf_size bs"
    "m_buf_size (tx_chan c) = bs" "m_buf_size (rx_chan c) = bs" "\<forall>m \<in> set ms. length m \<le> 2147483648"
    "cont (pipe c) = concat ps" "[] \<notin> set ps" "tx_inv bs ms c T" "rx_inv bs ms c (ps @ T)"
  shows "conv_inv cont cap ok bs ms c"
  using assms unfolding conv_inv_def by blast

text \<open>A measure of the work left, which every step of either thread reduces.\<close>

definition conv_work :: "('v \<Rightarrow> bytes) \<Rightarrow> i32 \<Rightarrow> 'v conv \<Rightarrow> nat" where
  "conv_work cont bs c =
     (unat bs + 1) *
       (sum_list (map (\<lambda>m. length (wire bs m) + 2) (tx_msgs c))
         + (case tx_run c of TxIdle \<Rightarrow> 0 | TxSend reqs n \<Rightarrow> length reqs + 1))
     + length (cont (pipe c))
     + 3 * length (rx_args c)
     + (case rx_run c of RxIdle \<Rightarrow> 0 | RxHeader a \<Rightarrow> 2 | RxBody cs a n \<Rightarrow> 1)"

section \<open>Every step keeps the invariant\<close>

context byte_pipe
begin

text \<open>
  A step of the sender: it never faults, keeps the invariant and reduces the work left; when it
  has to wait, it has either nothing to send or bytes of it are still in the pipe.
\<close>

lemma tx_step_ok:
  assumes c: "conv_inv cont cap ok bs ms c"
  shows "case tx_step wr c of
      Inl e \<Rightarrow> False
    | Inr None \<Rightarrow> (tx_run c = TxIdle \<and> tx_msgs c = []) \<or> cont (pipe c) \<noteq> []
    | Inr (Some c') \<Rightarrow> conv_inv cont cap ok bs ms c' \<and> conv_work cont bs c' < conv_work cont bs c"
proof -
  obtain ps T where base: "ok (pipe c)" "cap (pipe c) = unat bs" "valid_buf_size bs"
      "m_buf_size (tx_chan c) = bs" "m_buf_size (rx_chan c) = bs" "\<forall>m \<in> set ms. length m \<le> 2147483648"
    and ps: "cont (pipe c) = concat ps" "[] \<notin> set ps"
    and tx: "tx_inv bs ms c T" and rx: "rx_inv bs ms c (ps @ T)"
    using c unfolding conv_inv_def by blast
  have rx_frame: "rx_inv bs ms c' E \<longleftrightarrow> rx_inv bs ms c E"
    if "rx_out c' = rx_out c" "rx_run c' = rx_run c" "rx_args c' = rx_args c" "rx_chan c' = rx_chan c" for c' E
    using that by (cases "rx_run c") (simp_all add: rx_inv_def)
  show ?thesis
  proof (cases "tx_run c")
    case TxIdle
    show ?thesis
    proof (cases "tx_msgs c")
      case Nil
      with TxIdle show ?thesis by (simp add: tx_step_def)
    next
      case (Cons m rest)
      define c' where "c' = c\<lparr>tx_msgs := rest, tx_run := TxSend (send_requests bs m (of_nat (length m))) (of_nat (length m))\<rparr>"
      have st: "tx_step wr c = Inr (Some c')"
        using TxIdle Cons base(4) by (simp add: tx_step_def c'_def)
      from tx TxIdle Cons have sent: "\<exists>sent. ms = sent @ m # rest
          \<and> counted sent (m_bytes_send (tx_chan c)) (m_packet_send (tx_chan c))"
        and T: "T = wire bs m @ concat (map (wire bs) rest)"
        by (auto simp: tx_inv_def)
      then have "length m \<le> 2147483648" using base(6) by auto
      from send_requests_ok [OF base(3) this] sent T
      have tx': "tx_inv bs ms c' T"
        by (auto simp: tx_inv_def c'_def send_requests_pieces)
      have rx': "rx_inv bs ms c' (ps @ T)"
        using rx by (subst rx_frame) (simp_all add: c'_def)
      have "conv_inv cont cap ok bs ms c'"
        by (rule conv_invI [OF _ _ base(3) _ _ base(6) _ ps(2) tx' rx']) (simp_all add: c'_def base ps(1))
      moreover have "length (send_requests bs m (of_nat (length m))) = length (wire bs m)"
        by (metis length_map send_requests_pieces)
      then have "conv_work cont bs c' < conv_work cont bs c"
        using TxIdle Cons by (simp add: conv_work_def c'_def algebra_simps)
      ultimately show ?thesis using st by simp
    qed
  next
    case (TxSend reqs n)
    show ?thesis
    proof (cases reqs)
      case Nil
      define c' where "c' = c\<lparr>tx_chan := statistics_send n (tx_chan c), tx_run := TxIdle\<rparr>"
      have st: "tx_step wr c = Inr (Some c')"
        using TxSend Nil by (simp add: tx_step_def c'_def)
      from tx TxSend Nil obtain sent m where "ms = sent @ m # tx_msgs c" "n = of_nat (length m)"
          "counted sent (m_bytes_send (tx_chan c)) (m_packet_send (tx_chan c))"
        and T: "T = concat (map (wire bs) (tx_msgs c))"
        by (auto simp: tx_inv_def)
      then have "ms = (sent @ [m]) @ tx_msgs c'"
          "counted (sent @ [m]) (m_bytes_send (tx_chan c')) (m_packet_send (tx_chan c'))"
        by (simp_all add: c'_def)
      then have tx': "tx_inv bs ms c' T" using T unfolding tx_inv_def by (auto simp: c'_def)
      have rx': "rx_inv bs ms c' (ps @ T)"
        using rx by (subst rx_frame) (simp_all add: c'_def)
      have "conv_inv cont cap ok bs ms c'"
        by (rule conv_invI [OF _ _ base(3) _ _ base(6) _ ps(2) tx' rx'])
          (simp_all add: c'_def base ps(1) statistics_send_def)
      moreover have "conv_work cont bs c' < conv_work cont bs c"
        using TxSend Nil by (simp add: conv_work_def c'_def)
      ultimately show ?thesis using st by simp
    next
      case (Cons r rest)
      obtain src pos len where r: "r = (src, pos, len)" by (cases r) auto
      from tx TxSend Cons r have ok: "0 \<le> sint pos" "nat (sint pos) + unat len \<le> length src"
          "0 < unat len" "unat len \<le> unat bs"
        and tail: "\<forall>r \<in> set rest. req_ok (unat bs) r"
        and T: "T = piece src (pos, len) # map req_piece rest @ concat (map (wire bs) (tx_msgs c))"
        by (auto simp: tx_inv_def)
      from base(1,2) ok(2,4) consider
          (full) "cap (pipe c) < length (cont (pipe c)) + unat len" "wr (pipe c) src (nat (sint pos)) len = Inr None"
        | (room) v where "wr (pipe c) src (nat (sint pos)) len = Inr (Some v)" "ok v" "cap v = cap (pipe c)"
            "cont v = cont (pipe c) @ take (unat len) (drop (nat (sint pos)) src)"
        by (rule_tac wr_cases [of "pipe c" len "nat (sint pos)" src]) auto
      then show ?thesis
      proof cases
        case full
        then have "cont (pipe c) \<noteq> []" using base(2) ok(4) by auto
        with full TxSend Cons r ok show ?thesis by (simp add: tx_step_def)
      next
        case room
        define c' where "c' = c\<lparr>pipe := v, tx_run := TxSend rest n\<rparr>"
        have st: "tx_step wr c = Inr (Some c')"
          using room TxSend Cons r ok by (simp add: tx_step_def c'_def)
        let ?p = "piece src (pos, len)"
        have len: "length ?p = unat len" using ok by simp
        have tx': "tx_inv bs ms c' (map req_piece rest @ concat (map (wire bs) (tx_msgs c)))"
          using tx TxSend tail unfolding tx_inv_def by (auto simp: c'_def)
        have ps': "cont v = concat (ps @ [?p])" "[] \<notin> set (ps @ [?p])"
          using room ps ok len by auto
        have rx': "rx_inv bs ms c' ((ps @ [?p]) @ map req_piece rest @ concat (map (wire bs) (tx_msgs c)))"
          using rx T by (subst rx_frame) (simp_all add: c'_def)
        have "conv_inv cont cap ok bs ms c'"
          by (rule conv_invI [OF _ _ base(3) _ _ base(6) _ ps'(2) tx' rx']) (simp_all add: c'_def base room ps)
        moreover have "conv_work cont bs c' < conv_work cont bs c"
          using TxSend Cons room ok(4) len by (simp add: conv_work_def c'_def)
        ultimately show ?thesis using st by simp
      qed
    qed
  qed
qed

text \<open>
  A step of the receiver: it never faults, keeps the invariant and reduces the work left; when it
  has to wait, it has received everything it was asked for, or the pipe is empty while bytes it
  expects are still to be written.
\<close>

lemma rd_chunk:
  assumes v: "ok v" "cont v = concat ps" and E: "ps @ T = x # E" and x: "length x = unat len"
    and dst: "pos + unat len \<le> length dst"
  obtains (empty) "ps = []" | (read) ps' v' where "ps = x # ps'" "E = ps' @ T"
      "rd v dst pos len = Inr (Some (take pos dst @ x @ drop (pos + unat len) dst, v'))"
      "ok v'" "cap v' = cap v" "cont v' = concat ps'"
proof (cases ps)
  case Nil
  then show thesis by (rule that(1))
next
  case (Cons y ps')
  with E have ps: "ps = x # ps'" "E = ps' @ T" by auto
  with v x have "unat len \<le> length (cont v)" by simp
  from rd_ready [OF v(1) this dst] obtain v' where "rd v dst pos len
      = Inr (Some (take pos dst @ take (unat len) (cont v) @ drop (pos + unat len) dst, v'))"
    "ok v'" "cap v' = cap v" "cont v' = drop (unat len) (cont v)" by blast
  with that(2) ps v x show thesis by simp
qed

lemma rx_step_ok:
  assumes c: "conv_inv cont cap ok bs ms c"
  shows "case rx_step rd grow junk c of
      Inl e \<Rightarrow> False
    | Inr None \<Rightarrow> (rx_run c = RxIdle \<and> rx_args c = [] \<and> rx_out c = ms)
        \<or> (cont (pipe c) = [] \<and> (tx_run c = TxIdle \<and> tx_msgs c = [] \<longrightarrow> False))
    | Inr (Some c') \<Rightarrow> conv_inv cont cap ok bs ms c' \<and> conv_work cont bs c' < conv_work cont bs c"
proof -
  obtain ps T where base: "ok (pipe c)" "cap (pipe c) = unat bs" "valid_buf_size bs"
      "m_buf_size (tx_chan c) = bs" "m_buf_size (rx_chan c) = bs" "\<forall>m \<in> set ms. length m \<le> 2147483648"
    and ps: "cont (pipe c) = concat ps" "[] \<notin> set ps"
    and tx: "tx_inv bs ms c T" and rx: "rx_inv bs ms c (ps @ T)"
    using c unfolding conv_inv_def by blast
  have tx_frame: "tx_inv bs ms c' T \<longleftrightarrow> tx_inv bs ms c T"
    if "tx_msgs c' = tx_msgs c" "tx_run c' = tx_run c" "tx_chan c' = tx_chan c" for c'
    using that by (cases "tx_run c") (simp_all add: tx_inv_def)
  have waiting: "tx_run c = TxIdle \<and> tx_msgs c = [] \<longrightarrow> False" if "T \<noteq> []"
    using tx that by (auto simp: tx_inv_def)
  show ?thesis
  proof (cases "rx_run c")
    case RxIdle
    with rx obtain rest where rest: "ms = rx_out c @ rest" "list_all2 arg_fits (rx_args c) rest"
        "ps @ T = concat (map (wire bs) rest)"
      and cnt: "counted (rx_out c) (m_bytes_recv (rx_chan c)) (m_packet_recv (rx_chan c))"
      by (auto simp: rx_inv_def)
    show ?thesis
    proof (cases "rx_args c")
      case Nil
      with RxIdle rest show ?thesis by (simp add: rx_step_def)
    next
      case (Cons a as)
      with rest(2) obtain m rest' where m: "rest = m # rest'" "arg_fits a m" "list_all2 arg_fits as rest'"
        by (auto simp: list_all2_Cons1)
      define c' where "c' = c\<lparr>rx_args := as, rx_run := RxHeader a\<rparr>"
      have st: "rx_step rd grow junk c = Inr (Some c')"
        using RxIdle Cons by (simp add: rx_step_def c'_def)
      have rx': "rx_inv bs ms c' (ps @ T)"
        using rest m cnt unfolding rx_inv_def by (auto simp: c'_def)
      have tx': "tx_inv bs ms c' T" using tx by (subst tx_frame) (simp_all add: c'_def)
      have "conv_inv cont cap ok bs ms c'"
        by (rule conv_invI [OF _ _ base(3) _ _ base(6) _ ps(2) tx' rx']) (simp_all add: c'_def base ps(1))
      moreover have "conv_work cont bs c' < conv_work cont bs c"
        using RxIdle Cons by (simp add: conv_work_def c'_def)
      ultimately show ?thesis using st by simp
    qed
  next
    case (RxHeader a)
    with rx obtain m rest where m: "ms = rx_out c @ m # rest" "arg_fits a m" "list_all2 arg_fits (rx_args c) rest"
        and E: "ps @ T = le32 (of_nat (length m)) # map (piece m) (chunk_requests bs (of_nat (length m)))
          @ concat (map (wire bs) rest)"
        and cnt: "counted (rx_out c) (m_bytes_recv (rx_chan c)) (m_packet_recv (rx_chan c))"
      by (auto simp: rx_inv_def wire_def)
    have lm: "length m \<le> 2147483648" using base(6) m(1) by simp
    have "0 + unat (4 :: u32) \<le> length (map junk [0..<4])" by simp
    from base(1) ps(1) E _ this show ?thesis
    proof (rule rd_chunk)
      assume "ps = []"
      with ps(1) E waiting have "cont (pipe c) = []" "T \<noteq> []" by auto
      moreover have "rx_step rd grow junk c = Inr None"
        using RxHeader rd_wait [OF base(1), of 4 "map junk [0..<4]" 0] \<open>cont (pipe c) = []\<close>
        by (simp add: rx_step_def)
      ultimately show ?thesis using waiting by simp
    next
      fix ps' v'
      assume ps': "ps = le32 (of_nat (length m)) # ps'"
        "map (piece m) (chunk_requests bs (of_nat (length m))) @ concat (map (wire bs) rest) = ps' @ T"
        and rd: "rd (pipe c) (map junk [0..<4]) 0 4 = Inr (Some (take 0 (map junk [0..<4]) @ le32 (of_nat (length m))
          @ drop (0 + unat (4 :: u32)) (map junk [0..<4]), v'))"
        and v': "ok v'" "cap v' = cap (pipe c)" "cont v' = concat ps'"
      obtain a' where prep: "recv_prepare grow junk (of_nat (length m)) a = Inr (a', of_nat (length m))"
        "arg_ready a' m" using recv_prepare_fits [OF m(2) lm] by blast
      define c' where "c' = c\<lparr>pipe := v',
        rx_run := RxBody (chunk_requests bs (of_nat (length m))) a' (of_nat (length m))\<rparr>"
      have st: "rx_step rd grow junk c = Inr (Some c')"
        using RxHeader rd prep base(5) by (simp add: rx_step_def c'_def)
      have rx': "rx_inv bs ms c' (ps' @ T)"
        using m cnt prep chunk_requests_wf [OF base(3) lm] ps'(2) [symmetric]
        unfolding rx_inv_def by (auto simp: c'_def intro!: exI [of _ m] exI [of _ rest] exI [of _ 0])
      have tx': "tx_inv bs ms c' T" using tx by (subst tx_frame) (simp_all add: c'_def)
      have "conv_inv cont cap ok bs ms c'"
        using ps(2) ps'(1)
        by (intro conv_invI [OF _ _ base(3) _ _ base(6) _ _ tx' rx']) (simp_all add: c'_def base v')
      moreover have "conv_work cont bs c' < conv_work cont bs c"
        using RxHeader ps(1) ps'(1) v'(3) by (simp add: conv_work_def c'_def)
      ultimately show ?thesis using st by simp
    qed simp
  next
    case (RxBody cs a n)
    with rx obtain m rest p where m: "ms = rx_out c @ m # rest" "arg_ready a m" "n = of_nat (length m)"
        "wf_chunks (unat bs) p (length m) cs" "take p (arg_bytes a) = take p m"
        "list_all2 arg_fits (rx_args c) rest"
        and E: "ps @ T = map (piece m) cs @ concat (map (wire bs) rest)"
        and cnt: "counted (rx_out c) (m_bytes_recv (rx_chan c)) (m_packet_recv (rx_chan c))"
      by (auto simp: rx_inv_def)
    show ?thesis
    proof (cases cs)
      case Nil
      define c' where "c' = c\<lparr>rx_chan := statistics_recv n (rx_chan c), rx_run := RxIdle,
        rx_out := rx_out c @ [arg_result a]\<rparr>"
      have st: "rx_step rd grow junk c = Inr (Some c')"
        using RxBody Nil by (simp add: rx_step_def c'_def)
      have "arg_result a = m" using m(2,4,5) Nil by (simp add: arg_ready_result)
      then have rx': "rx_inv bs ms c' (ps @ T)"
        using m E Nil cnt unfolding rx_inv_def by (auto simp: c'_def)
      have tx': "tx_inv bs ms c' T" using tx by (subst tx_frame) (simp_all add: c'_def)
      have "conv_inv cont cap ok bs ms c'"
        by (rule conv_invI [OF _ _ base(3) _ _ base(6) _ ps(2) tx' rx'])
          (simp_all add: c'_def base ps(1) statistics_recv_def)
      moreover have "conv_work cont bs c' < conv_work cont bs c"
        using RxBody Nil by (simp add: conv_work_def c'_def)
      ultimately show ?thesis using st by simp
    next
      case (Cons ch cs')
      obtain pos len where ch: "ch = (pos, len)" by (cases ch) auto
      from m(4) Cons ch have w: "sint pos = int p" "0 < unat len" "p + unat len \<le> length m"
          "wf_chunks (unat bs) (p + unat len) (length m) cs'" by auto
      from E Cons ch w(1) have E': "ps @ T = take (unat len) (drop p m)
          # map (piece m) cs' @ concat (map (wire bs) rest)" by simp
      have lenx: "length (take (unat len) (drop p m)) = unat len" using w(3) by simp
      have dst: "p + unat len \<le> length (arg_bytes a)" using arg_ready_length [OF m(2)] w(3) by simp
      from base(1) ps(1) E' lenx dst show ?thesis
      proof (rule rd_chunk)
        assume "ps = []"
        with ps(1) E' have "cont (pipe c) = []" "T \<noteq> []" by auto
        moreover have "rx_step rd grow junk c = Inr None"
          using RxBody Cons ch w(1,2) rd_wait [OF base(1), of len "arg_bytes a" p] \<open>cont (pipe c) = []\<close>
          by (simp add: rx_step_def)
        ultimately show ?thesis using waiting by simp
      next
        fix ps' v'
        define d where "d = take p (arg_bytes a) @ take (unat len) (drop p m) @ drop (p + unat len) (arg_bytes a)"
        assume ps': "ps = take (unat len) (drop p m) # ps'"
          "map (piece m) cs' @ concat (map (wire bs) rest) = ps' @ T"
          and rd: "rd (pipe c) (arg_bytes a) p len = Inr (Some (take p (arg_bytes a)
            @ take (unat len) (drop p m) @ drop (p + unat len) (arg_bytes a), v'))"
          and v': "ok v'" "cap v' = cap (pipe c)" "cont v' = concat ps'"
        define c' where "c' = c\<lparr>pipe := v', rx_run := RxBody cs' (arg_put a d) n\<rparr>"
        have st: "rx_step rd grow junk c = Inr (Some c')"
          using RxBody Cons ch w(1) rd by (simp add: rx_step_def c'_def d_def)
        have "length d = length (arg_bytes a)" using dst w(3) by (simp add: d_def)
        from arg_ready_put [OF m(2) this] have put: "arg_ready (arg_put a d) m" "arg_bytes (arg_put a d) = d"
          by auto
        have "take (p + unat len) d = take p m @ take (unat len) (drop p m)"
          using m(5) dst w(3) by (simp add: d_def)
        then have "take (p + unat len) (arg_bytes (arg_put a d)) = take (p + unat len) m"
          using put(2) by (simp add: take_add)
        then have rx': "rx_inv bs ms c' (ps' @ T)"
          using m(1,3,6) put(1) w(4) cnt ps'(2) [symmetric] unfolding rx_inv_def by (auto simp: c'_def)
        have tx': "tx_inv bs ms c' T" using tx by (subst tx_frame) (simp_all add: c'_def)
        have "conv_inv cont cap ok bs ms c'"
          using ps(2) ps'(1)
          by (intro conv_invI [OF _ _ base(3) _ _ base(6) _ _ tx' rx']) (simp_all add: c'_def base v')
        moreover have "length (cont v') < length (cont (pipe c))"
          using ps(1) ps'(1) v'(3) lenx w(2) by simp
        then have "conv_work cont bs c' < conv_work cont bs c"
          using RxBody by (simp add: conv_work_def c'_def)
        ultimately show ?thesis using st by simp
      qed
    qed
  qed
qed

end

section \<open>Runs\<close>

text \<open>A schedule names the thread that moves: \<^verbatim>\<open>True\<close> the sender, \<^verbatim>\<open>False\<close> the receiver.\<close>

fun conv_run :: "('v \<Rightarrow> bytes \<Rightarrow> nat \<Rightarrow> u32 \<Rightarrow> fault + 'v option) \<Rightarrow>
    ('v \<Rightarrow> bytes \<Rightarrow> nat \<Rightarrow> u32 \<Rightarrow> fault + (bytes \<times> 'v) option) \<Rightarrow>
    (nat \<Rightarrow> nat \<Rightarrow> nat) \<Rightarrow> (nat \<Rightarrow> u8) \<Rightarrow> bool list \<Rightarrow> 'v conv \<Rightarrow> 'v conv option" where
  "conv_run wr rd grow junk [] c = Some c"
| "conv_run wr rd grow junk (b # bs) c =
     (case (if b then tx_step wr c else rx_step rd grow junk c) of
        Inr (Some c') \<Rightarrow> conv_run wr rd grow junk bs c'
      | _ \<Rightarrow> None)"

lemma conv_run_steps:
  "conv_run wr rd grow junk bs c = Some c' \<Longrightarrow> (conv_step wr rd grow junk ^^ length bs) c c'"
proof (induction bs arbitrary: c)
  case (Cons b bs)
  then obtain d where "conv_step wr rd grow junk c d" "conv_run wr rd grow junk bs d = Some c'"
    by (auto split: sum.splits option.splits if_splits intro: conv_step.intros)
  with Cons.IH show ?case by (metis length_Cons relpowp_Suc_I2)
qed simp

text \<open>A conversation about to start: nothing sent, nothing received.\<close>

definition conv_start :: "'v \<Rightarrow> mem_channel \<Rightarrow> mem_channel \<Rightarrow> bytes list \<Rightarrow> rx_arg list \<Rightarrow> 'v conv" where
  "conv_start v tc rc ms args =
     \<lparr>pipe = v, tx_chan = tc, rx_chan = rc, tx_msgs = ms, tx_run = TxIdle,
      rx_args = args, rx_run = RxIdle, rx_out = []\<rparr>"

text \<open>
  What the theorems ask of a start: both channels were made with the same valid buffer size and
  have not been used, every message is at most 2 GiB, and message \<^verbatim>\<open>i\<close> fits the \<^verbatim>\<open>i\<close>-th receive.
\<close>

definition conv_start_ok :: "i32 \<Rightarrow> mem_channel \<Rightarrow> mem_channel \<Rightarrow> bytes list \<Rightarrow> rx_arg list \<Rightarrow> bool" where
  "conv_start_ok bs tc rc ms args \<longleftrightarrow>
     valid_buf_size bs \<and> m_buf_size tc = bs \<and> m_buf_size rc = bs
     \<and> m_bytes_send tc = 0 \<and> m_packet_send tc = 0 \<and> m_bytes_recv rc = 0 \<and> m_packet_recv rc = 0
     \<and> (\<forall>m \<in> set ms. length m \<le> 2147483648) \<and> list_all2 arg_fits args ms"

context byte_pipe
begin

lemma conv_start_inv:
  assumes "conv_start_ok bs tc rc ms args" "ok v" "cap v = unat bs" "cont v = []"
  shows "conv_inv cont cap ok bs ms (conv_start v tc rc ms args)"
proof (rule conv_invI [where ps = "[]" and T = "concat (map (wire bs) ms)"])
  show "tx_inv bs ms (conv_start v tc rc ms args) (concat (map (wire bs) ms))"
    using assms by (auto simp: tx_inv_def conv_start_def conv_start_ok_def)
  show "rx_inv bs ms (conv_start v tc rc ms args) ([] @ concat (map (wire bs) ms))"
    using assms by (auto simp: rx_inv_def conv_start_def conv_start_ok_def)
qed (use assms in \<open>auto simp: conv_start_def conv_start_ok_def\<close>)

lemma conv_step_ok:
  assumes "conv_step wr rd grow junk c c'" "conv_inv cont cap ok bs ms c"
  shows "conv_inv cont cap ok bs ms c'" and "conv_work cont bs c' < conv_work cont bs c"
  using assms tx_step_ok [OF assms(2)] rx_step_ok [OF assms(2), of grow junk]
  by (auto elim!: conv_step.cases)

lemma conv_steps_ok:
  "(conv_step wr rd grow junk ^^ n) c c' \<Longrightarrow> conv_inv cont cap ok bs ms c \<Longrightarrow>
   conv_inv cont cap ok bs ms c' \<and> n + conv_work cont bs c' \<le> conv_work cont bs c"
proof (induction n arbitrary: c')
  case (Suc n)
  then obtain d where "(conv_step wr rd grow junk ^^ n) c d" and d: "conv_step wr rd grow junk d c'"
    by (auto elim: relpowp_Suc_E)
  with Suc have "conv_inv cont cap ok bs ms d" "n + conv_work cont bs d \<le> conv_work cont bs c"
    by auto
  with conv_step_ok [OF d] show ?case by fastforce
qed simp

lemma conv_no_fault: "conv_inv cont cap ok bs ms c \<Longrightarrow> \<not> conv_fault wr rd grow junk c"
  using tx_step_ok [of bs ms c] rx_step_ok [of bs ms c grow junk] by (auto simp: conv_fault_def)

lemma conv_inv_prefix: "conv_inv cont cap ok bs ms c \<Longrightarrow> \<exists>rest. ms = rx_out c @ rest"
  by (cases "rx_run c") (auto simp: conv_inv_def rx_inv_def)

lemma conv_inv_counts:
  "conv_inv cont cap ok bs ms c \<Longrightarrow>
   counted (rx_out c) (m_bytes_recv (rx_chan c)) (m_packet_recv (rx_chan c))"
  by (auto simp: conv_inv_def rx_inv_def)

text \<open>The threads never block each other: when neither can move, everything has arrived.\<close>

lemma conv_stuck_done:
  assumes inv: "conv_inv cont cap ok bs ms c" and stuck: "\<nexists>c'. conv_step wr rd grow junk c c'"
  shows "rx_out c = ms" and "tx_run c = TxIdle" and "tx_msgs c = []" and "rx_run c = RxIdle"
    and "counted ms (m_bytes_send (tx_chan c)) (m_packet_send (tx_chan c))"
proof -
  from tx_step_ok [OF inv] stuck have "tx_step wr c = Inr None"
    by (auto split: sum.splits option.splits intro: conv_step.tx)
  with tx_step_ok [OF inv] have tx: "(tx_run c = TxIdle \<and> tx_msgs c = []) \<or> cont (pipe c) \<noteq> []" by simp
  from rx_step_ok [OF inv, of grow junk] stuck have "rx_step rd grow junk c = Inr None"
    by (auto split: sum.splits option.splits intro: conv_step.rx)
  with rx_step_ok [OF inv, of grow junk] have rx: "(rx_run c = RxIdle \<and> rx_args c = [] \<and> rx_out c = ms)
      \<or> (cont (pipe c) = [] \<and> \<not> (tx_run c = TxIdle \<and> tx_msgs c = []))" by simp
  with tx show out: "rx_out c = ms" and "rx_run c = RxIdle" by auto
  obtain ps T where ps: "cont (pipe c) = concat ps" "[] \<notin> set ps"
    and txi: "tx_inv bs ms c T" and "rx_inv bs ms c (ps @ T)"
    using inv unfolding conv_inv_def by blast
  with out \<open>rx_run c = RxIdle\<close> have "ps @ T = []"
    by (auto simp: rx_inv_def)
  with ps tx show "tx_run c = TxIdle" "tx_msgs c = []" by auto
  with txi show "counted ms (m_bytes_send (tx_chan c)) (m_packet_send (tx_chan c))"
    by (auto simp: tx_inv_def)
qed

end

section \<open>Requests at positions\<close>

lemma chunk_loop_offset:
  assumes "i < k" "0 < unat c" "k = (unat body + unat c - 1) div unat c"
  shows "i < length (chunk_loop k pos body c) \<and> fst (chunk_loop k pos body c ! i) = pos + of_nat i * c"
  using assms
proof (induction k arbitrary: i pos body)
  case (Suc k)
  note step = ceil_step(2) [OF Suc.prems(3,2)]
  show ?case
  proof (cases i)
    case (Suc j)
    with Suc.prems(1) have "j < k" by simp
    then have "unat c \<le> unat body - min (unat body) (unat c) + unat c - 1"
      using step Suc.prems(2) by (metis div_less gr_implies_not0 not_le)
    then have m: "min body c = c" and sub: "unat (body - c) = unat body - unat c"
      using Suc.prems(2) by (auto simp: min_def word_le_nat_alt unat_sub_le split: if_splits)
    have "k = (unat (body - c) + unat c - 1) div unat c"
      using step m sub by (metis unat_min)
    with Suc.IH [OF \<open>j < k\<close> Suc.prems(2), of "body - c" "pos + c"] Suc m show ?thesis
      by (simp add: Let_def algebra_simps)
  qed (simp add: Let_def)
qed simp

section \<open>A conversation to evaluate\<close>

text \<open>One byte over a ring of eight whose counters are about to wrap around.\<close>

definition demo_channel :: "u32 \<Rightarrow> u32 \<Rightarrow> mem_channel" where
  "demo_channel a b =
     \<lparr>m_channelid = ''t'', m_from_party = a, m_to_party = b, m_bytes_send = 0, m_bytes_recv = 0,
      m_packet_send = 0, m_packet_recv = 0, m_buf_size = 8, m_enable_cv = False, need_attach = False,
      m_send_buf = Some 0, m_recv_buf = Some 1, m_send_fd = 3, m_recv_fd = 4\<rparr>"

definition demo_ring :: shm_view where
  "demo_ring = \<lparr>buf_size = 8, enable_cv = False, client_attached = 1, ring_in = - 2, ring_out = - 2,
     buffer = [0, 0, 0, 0, 0, 0, 0, 0]\<rparr>"

definition demo_args :: "rx_arg list" where
  "demo_args = [IntoString \<lparr>storage = [], str_size = 0\<rparr>]"

definition demo_start :: "shm_view conv" where
  "demo_start = conv_start demo_ring (demo_channel 0 1) (demo_channel 1 0) [[7]] demo_args"

definition demo_end :: "shm_view conv" where
  "demo_end = demo_start\<lparr>pipe := demo_ring\<lparr>ring_in := 3, ring_out := 3, buffer := [0, 0, 7, 0, 0, 0, 1, 0]\<rparr>,
     tx_chan := statistics_send 1 (demo_channel 0 1), rx_chan := statistics_recv 1 (demo_channel 1 0),
     tx_msgs := [], rx_args := [], rx_out := [[7]]\<rparr>"

lemmas demo_eval = demo_start_def demo_end_def demo_ring_def demo_channel_def demo_args_def conv_start_def
  tx_step_def rx_step_def write_view_def put_def read_view_def get_def can_put_def can_get_def used_def
  memcpy_def Let_def send_requests_def chunk_requests_def chunk_cnt_def le32_def un_le32_def
  statistics_send_def statistics_recv_def fast_resize_def resizeWithoutInitialization_def
  string_reserve_def unsafeStringSetLargerSize_def chars_def set_chars_def capacity_def

lemma demo_run:
  "conv_run write_view read_view (\<lambda>c n. n) (\<lambda>i. 9)
     [True, True, False, False, True, False, True, False] demo_start = Some demo_end"
proof -
  have "[0..<4] = [0, 1, 2, 3::nat]" by (simp add: upt_rec)
  then show ?thesis by (simp add: demo_eval)
qed

lemma demo_reach: "(conv_step write_view read_view (\<lambda>c n. n) (\<lambda>i. 9) ^^ 8) demo_start demo_end"
  using conv_run_steps [OF demo_run] by (simp add: eval_nat_numeral)

lemma demo_reach_star: "(conv_step write_view read_view (\<lambda>c n. n) (\<lambda>i. 9))\<^sup>*\<^sup>* demo_start demo_end"
  using demo_reach by (rule relpowp_imp_rtranclp)

lemma demo_stuck: "\<nexists>c'. conv_step write_view read_view (\<lambda>c n. n) (\<lambda>i. 9) demo_end c'"
proof -
  have "tx_step write_view demo_end = Inr None" "rx_step read_view (\<lambda>c n. n) (\<lambda>i. 9) demo_end = Inr None"
    by (simp_all add: demo_eval)
  then show ?thesis by (auto elim!: conv_step.cases)
qed

lemma demo_start_facts:
  "conv_start_ok 8 (demo_channel 0 1) (demo_channel 1 0) [[7]] demo_args"
  "ring_ok demo_ring" "buf_size demo_ring = 8" "contents demo_ring = []"
proof -
  have "pow2 8" by (auto simp: pow2_def intro!: exI [of _ 3])
  then show "ring_ok demo_ring" by (simp add: ring_ok_def demo_ring_def used_def)
  show "conv_start_ok 8 (demo_channel 0 1) (demo_channel 1 0) [[7]] demo_args"
    by (simp add: conv_start_ok_def demo_channel_def demo_args_def valid_buf_size_def string_ok_def)
qed (simp_all add: demo_ring_def contents_def used_def)

section \<open>Properties\<close>

lemma shm_key_parts: "get_shm_key a b t = get_shm_key a' b' t' \<Longrightarrow> a = a' \<and> b = b' \<and> t = t'"
proof -
  assume e: "get_shm_key a b t = get_shm_key a' b' t'"
  have nd: "CHR ''_'' \<notin> set (to_string n)" for n
    using to_string_digits [of n] by (auto simp: is_digit_def)
  have "(''MC'' @ t @ ''_'' @ to_string (unat a)) = (''MC'' @ t' @ ''_'' @ to_string (unat a')) \<and>
     to_string (unat b) = to_string (unat b')"
    by (rule split_last_separator [OF _ nd nd]) (use e in \<open>simp add: get_shm_key_def\<close>)
  moreover from this have "(''MC'' @ t) = (''MC'' @ t') \<and> to_string (unat a) = to_string (unat a')"
    by (intro split_last_separator [OF _ nd nd]) simp
  ultimately show ?thesis by (simp add: word_unat_eq_iff)
qed

text \<open>
  Two shared-memory objects have the same name only for the same task and the same ordered pair
  of parties, whatever characters the task id holds: channels never share a ring by accident.
\<close>

theorem get_shm_key_inj: "get_shm_key a b t = get_shm_key a' b' t' \<Longrightarrow> a = a' \<and> b = b' \<and> t = t'"
  by (rule shm_key_parts)

theorem get_shm_key_inj_witness:
  "get_shm_key 1 23 ''t_1'' = ''MCt_1_1_23'' \<and> (1 :: u32) = 1 \<and> (23 :: u32) = 23 \<and> ''t_1'' = ''t_1''"
proof -
  have "get_shm_key 1 23 ''t_1'' = ''MCt_1_1_23''" by code_simp
  with get_shm_key_inj [of 1 23 "''t_1''" 1 23 "''t_1''"] show ?thesis by simp
qed

text \<open>
  No interleaving of a sender and a receiver over one ring runs into a fault (a copy out of
  bounds, a failed length assertion), and at every moment the messages the receiver has handed out
  are, byte for byte and in order, the first ones that were sent, with its counters agreeing.
\<close>

theorem mem_conversation_safe:
  assumes "conv_start_ok bs tc rc ms args" and "ring_ok v" and "buf_size v = bs" and "contents v = []"
    and "(conv_step write_view read_view grow junk)\<^sup>*\<^sup>* (conv_start v tc rc ms args) c"
  shows "\<not> conv_fault write_view read_view grow junk c
    \<and> (\<exists>rest. ms = rx_out c @ rest)
    \<and> counted (rx_out c) (m_bytes_recv (rx_chan c)) (m_packet_recv (rx_chan c))"
proof -
  obtain n where "(conv_step write_view read_view grow junk ^^ n) (conv_start v tc rc ms args) c"
    using assms(5) by (auto simp: rtranclp_power)
  moreover have "conv_inv contents (\<lambda>v. unat (buf_size v)) ring_ok bs ms (conv_start v tc rc ms args)"
    using assms by (intro ring.conv_start_inv) auto
  ultimately have "conv_inv contents (\<lambda>v. unat (buf_size v)) ring_ok bs ms c"
    by (blast dest: ring.conv_steps_ok)
  then show ?thesis
    by (simp add: ring.conv_no_fault ring.conv_inv_prefix ring.conv_inv_counts)
qed

theorem mem_conversation_safe_witness:
  "\<not> conv_fault write_view read_view (\<lambda>c n. n) (\<lambda>i. 9) demo_end \<and> rx_out demo_end = [[7]]
    \<and> m_bytes_recv (rx_chan demo_end) = 1"
  using mem_conversation_safe [OF demo_start_facts demo_reach_star [unfolded demo_start_def]]
  by (simp add: demo_end_def counted_def)

text \<open>
  The two threads never block each other for good: when neither can move, every message has
  been handed out, both threads are back from their calls, and both ends count the same traffic.
\<close>

theorem mem_conversation_completes:
  assumes "conv_start_ok bs tc rc ms args" and "ring_ok v" and "buf_size v = bs" and "contents v = []"
    and "(conv_step write_view read_view grow junk)\<^sup>*\<^sup>* (conv_start v tc rc ms args) c"
    and "\<nexists>c'. conv_step write_view read_view grow junk c c'"
  shows "rx_out c = ms \<and> tx_run c = TxIdle \<and> tx_msgs c = [] \<and> rx_run c = RxIdle
    \<and> counted ms (m_bytes_send (tx_chan c)) (m_packet_send (tx_chan c))
    \<and> counted ms (m_bytes_recv (rx_chan c)) (m_packet_recv (rx_chan c))"
proof -
  obtain n where "(conv_step write_view read_view grow junk ^^ n) (conv_start v tc rc ms args) c"
    using assms(5) by (auto simp: rtranclp_power)
  moreover have "conv_inv contents (\<lambda>v. unat (buf_size v)) ring_ok bs ms (conv_start v tc rc ms args)"
    using assms by (intro ring.conv_start_inv) auto
  ultimately have inv: "conv_inv contents (\<lambda>v. unat (buf_size v)) ring_ok bs ms c"
    by (blast dest: ring.conv_steps_ok)
  from ring.conv_stuck_done [OF inv assms(6)] ring.conv_inv_counts [OF inv] show ?thesis
    by simp
qed

theorem mem_conversation_completes_witness:
  "rx_out demo_end = [[7]] \<and> m_bytes_send (tx_chan demo_end) = 1 \<and> m_packet_recv (rx_chan demo_end) = 1"
  using mem_conversation_completes [OF demo_start_facts demo_reach_star [unfolded demo_start_def] demo_stuck]
  by (simp add: counted_def)

text \<open>
  Every schedule of the two threads ends: it has at most as many steps as the work that the
  start holds (requests, bytes and receives still to come).
\<close>

theorem mem_conversation_terminates:
  assumes "conv_start_ok bs tc rc ms args" and "ring_ok v" and "buf_size v = bs" and "contents v = []"
    and "(conv_step write_view read_view grow junk ^^ n) (conv_start v tc rc ms args) c"
  shows "n \<le> conv_work contents bs (conv_start v tc rc ms args)"
proof -
  have "conv_inv contents (\<lambda>v. unat (buf_size v)) ring_ok bs ms (conv_start v tc rc ms args)"
    using assms by (intro ring.conv_start_inv) auto
  from ring.conv_steps_ok [OF assms(5) this] show ?thesis by simp
qed

theorem mem_conversation_terminates_witness: "8 \<le> conv_work contents 8 demo_start"
  using mem_conversation_terminates [OF demo_start_facts demo_reach [unfolded demo_start_def]]
  by (simp add: demo_start_def)

text \<open>A message whose length is within one buffer size of \<^verbatim>\<open>2^32\<close> has no chunks: their count wraps to 0.\<close>

lemma oversized_chunks:
  assumes "valid_buf_size bs" "4294967296 - unat bs < unat body"
  shows "chunk_requests bs body = []"
proof -
  have c: "8 \<le> unat bs" "unat bs \<le> 1073741824"
    using valid_buf_size_pow2 [OF assms(1)] pow2_le by auto
  have "unat body < 4294967296" using unsigned_less [of body] by simp
  with assms(2) c have "(unat body + unat bs) mod 4294967296 = unat body + unat bs - 4294967296"
    by (simp add: mod_if)
  then have "unat (body + bs) = unat body + unat bs - 4294967296" by (simp add: unat_word_ariths)
  then have "unat (body + bs - 1) = unat body + unat bs - 4294967296 - 1"
    using assms(2) c by (subst unat_sub_le) auto
  then have "unat (body + bs - 1) < unat bs" using \<open>unat body < _\<close> c by linarith
  then have "unat (chunk_cnt body bs) = unat (0 :: i32)" by (simp add: chunk_cnt_def unat_div_distrib)
  then have "chunk_cnt body bs = 0" by (simp only: word_unat_eq_iff)
  then show ?thesis by (simp add: chunk_requests_def)
qed

lemma unat_small: "n < 4294967296 \<Longrightarrow> unat (of_nat n :: u32) = n"
  by (simp add: unat_of_nat)

text \<open>
  C22: a message whose length is within one buffer size of \<^verbatim>\<open>2^32\<close> is announced with its length, but the chunk count wraps to 0
  on both sides: \<^verbatim>\<open>send\<close> writes the four bytes of the length and nothing of the body, and returns with the message counted;
  \<^verbatim>\<open>recv\<close> reads the length, makes its string that long, reads nothing into it and returns what the string happened to hold.
\<close>

theorem oversized_body_dropped:
  assumes "valid_buf_size bs" "4294967296 - unat bs < length m" "length m < 4294967296"
    and "ring_ok v" "buf_size v = bs" "contents v = []" "m_buf_size tc = bs" "m_buf_size rc = bs"
  shows "send_requests bs m (of_nat (length m)) = [(le32 (of_nat (length m)), 0, 4)] \<and>
    (\<exists>c. (conv_step write_view read_view grow junk ^^ 6) (conv_start v tc rc [m] [IntoString s]) c \<and>
       tx_run c = TxIdle \<and> tx_msgs c = [] \<and> tx_chan c = statistics_send (of_nat (length m)) tc \<and>
       rx_run c = RxIdle \<and> rx_args c = [] \<and> contents (pipe c) = [] \<and>
       rx_out c = [chars (fast_resize grow junk s (length m))])"
proof
  let ?n = "of_nat (length m) :: u32" and ?s = "fast_resize grow junk s (length m)"
  have n: "unat ?n = length m"
    using assms(3) by (rule unat_small)
  have none: "chunk_requests bs ?n = []"
    using assms(1,2) n by (intro oversized_chunks) simp_all
  have uc: "ucast (of_nat (length m) :: u64) = ?n"
    by simp
  have uc2: "ucast (ucast ?n :: u64) = ?n"
    by transfer simp
  show reqs: "send_requests bs m (of_nat (length m)) = [(le32 ?n, 0, 4)]"
    by (simp add: send_requests_def uc none)
  have bs: "4 \<le> unat (buf_size v)"
    using valid_buf_size_pow2 (2) [OF assms(1)] assms(5) by simp
  obtain v1 where v1: "write_view v (le32 ?n) 0 4 = Inr (Some v1)" "ring_ok v1" "contents v1 = le32 ?n"
    using ring.wr_room [OF assms(4), of 4 0 "le32 ?n"] bs assms(6) by fastforce
  obtain v2 where v2: "read_view v1 (map junk [0..<4]) 0 4 = Inr (Some (le32 ?n, v2))" "contents v2 = []"
    using ring.rd_ready [OF v1(2), of 4 0 "map junk [0..<4]"] v1(3) by fastforce
  define c where "c = (conv_start v tc rc [m] [IntoString s])\<lparr>pipe := v2, tx_msgs := [], tx_chan := statistics_send (of_nat (length m)) tc,
    rx_args := [], rx_chan := statistics_recv (ucast ?n) rc, rx_out := [chars ?s]\<rparr>"
  have "conv_run write_view read_view grow junk [True, True, True, False, False, False] (conv_start v tc rc [m] [IntoString s]) = Some c"
    by (simp add: conv_start_def tx_step_def rx_step_def assms(7,8) reqs v1(1) v2(1) n uc2 none c_def)
  from conv_run_steps [OF this]
  have "(conv_step write_view read_view grow junk ^^ 6) (conv_start v tc rc [m] [IntoString s]) c"
    by (simp add: eval_nat_numeral)
  moreover have "tx_run c = TxIdle" "tx_msgs c = []" "tx_chan c = statistics_send (of_nat (length m)) tc" "rx_run c = RxIdle"
    "rx_args c = []" "contents (pipe c) = []" "rx_out c = [chars ?s]"
    by (simp_all add: c_def conv_start_def v2(2))
  ultimately show "\<exists>c. (conv_step write_view read_view grow junk ^^ 6) (conv_start v tc rc [m] [IntoString s]) c \<and>
       tx_run c = TxIdle \<and> tx_msgs c = [] \<and> tx_chan c = statistics_send (of_nat (length m)) tc \<and>
       rx_run c = RxIdle \<and> rx_args c = [] \<and> contents (pipe c) = [] \<and> rx_out c = [chars ?s]"
    by blast
qed

theorem oversized_body_dropped_witness:
  "send_requests 8 (replicate 4294967295 7) 4294967295 = [(le32 4294967295, 0, 4)] \<and>
   (\<exists>c. (conv_step write_view read_view (\<lambda>c n. n) (\<lambda>i. 9) ^^ 6)
      (conv_start demo_ring (demo_channel 0 1) (demo_channel 1 0) [replicate 4294967295 7] [IntoString \<lparr>storage = [], str_size = 0\<rparr>]) c \<and>
      rx_out c = [chars (fast_resize (\<lambda>c n. n) (\<lambda>i. 9) \<lparr>storage = [], str_size = 0\<rparr> 4294967295)] \<and> contents (pipe c) = [])"
proof -
  have *: "valid_buf_size 8" "4294967296 - unat (8 :: i32) < length (replicate 4294967295 (7 :: u8))"
    "length (replicate 4294967295 (7 :: u8)) < 4294967296" "m_buf_size (demo_channel 0 1) = 8" "m_buf_size (demo_channel 1 0) = 8"
    by (simp_all add: valid_buf_size_def demo_channel_def)
  from oversized_body_dropped [OF *(1-3) demo_start_facts(2-4) *(4,5), of "\<lambda>c n. n" "\<lambda>i. 9" "\<lparr>storage = [], str_size = 0\<rparr>"] show ?thesis
    by auto
qed

text \<open>
  For a message longer than 2 GiB (and not in the range above) the \<^verbatim>\<open>int\<close> offset of some chunk is
  negative, so the copy would start before the message.
\<close>

lemma over_2gib_negative_offset:
  assumes "valid_buf_size bs" "2147483648 < unat body" "unat body \<le> 4294967296 - unat bs"
  shows "\<exists>(pos, len) \<in> set (chunk_requests bs body). sint pos < 0"
proof -
  obtain k where k: "k < 31" "bs = 2 ^ k" and u: "unat bs = 2 ^ k"
    using valid_buf_size_pow2 [OF assms(1)] by (auto simp: pow2_def unat_exp)
  have c: "8 \<le> unat bs" "unat bs \<le> 1073741824"
    using valid_buf_size_pow2 [OF assms(1)] pow2_le by auto
  let ?i = "2 ^ (31 - k) :: nat"
  have iN: "?i * unat bs = 2147483648" using k u by (simp flip: power_add)
  have "unat (bs - 1) = unat bs - 1" using c by (subst unat_sub_le) auto
  then have "unat (body + (bs - 1)) = unat body + unat bs - 1"
    using assms(2,3) c by (subst unat_add_small) auto
  then have cnt: "unat (chunk_cnt body bs) = (unat body + unat bs - 1) div unat bs"
    by (simp add: chunk_cnt_def unat_div_distrib add_diff_eq)
  have "(unat body + unat bs - 1) div unat bs \<le> (unat body + unat bs - 1) div 8"
    using c by (intro div_le_mono2) auto
  then have "unat (chunk_cnt body bs) < 2147483648" using cnt assms(2,3) c by linarith
  then have k': "nat (sint (chunk_cnt body bs)) = (unat body + unat bs - 1) div unat bs"
    using cnt by (simp add: sint_small)
  have "Suc ?i * unat bs \<le> unat body + unat bs - 1" using iN assms(2) c by simp
  then have i: "?i < (unat body + unat bs - 1) div unat bs"
    using c by (simp add: less_eq_div_iff_mult_less_eq Suc_le_eq [symmetric])
  have off: "of_nat ?i * bs = (2147483648 :: i32)"
    using iN by (metis of_nat_mult of_nat_numeral of_nat_unat ucast_id)
  obtain pos len where at: "chunk_requests bs body ! ?i = (pos, len)" by fastforce
  from chunk_loop_offset [OF i _ refl, of 0] c off k' at
  have "?i < length (chunk_requests bs body)" "pos = 2147483648"
    by (simp_all add: chunk_requests_def)
  with at have "(2147483648, len) \<in> set (chunk_requests bs body)" by (metis nth_mem)
  then show ?thesis by (intro bexI [of _ "(2147483648, len)"]) simp_all
qed

lemma over_2gib_negative_offset_witness:
  "\<exists>(pos, len) \<in> set (chunk_requests 16384 2147483649). sint pos < 0"
proof -
  have "valid_buf_size 16384" by (simp add: valid_buf_size_def)
  then show ?thesis by (rule over_2gib_negative_offset) simp_all
qed

end
