(* ===== verification/FileLock.thy ===== *)
theory FileLock imports Machine begin

text \<open>
  The lock of a name between processes (\<^verbatim>\<open>get_file_lock\<close>, \<^verbatim>\<open>free_file_lock\<close> and \<^verbatim>\<open>delete_file_lock\<close> of
  \<^verbatim>\<open>src/src/memchannel.cpp\<close>): a record lock on a file in the temporary directory, then the key lock for the
  threads of one process. The key lock is one mutex for each process and name here, as theory
  \<^verbatim>\<open>KeyLock\<close> shows that it is.
\<close>

section \<open>Files and record locks\<close>

text \<open>
  What POSIX says of the calls: a name leads to an inode until it is unlinked, and \<^verbatim>\<open>open\<close> with \<^verbatim>\<open>O_CREAT\<close>
  makes a new inode when there is none; a record lock belongs to a process, \<^verbatim>\<open>F_SETLKW\<close> waits for
  those of other processes; closing any descriptor of a file drops all locks of the process on it. A
  descriptor of a lock file is the inode it leads to, \<open>None\<close> the value -1.
\<close>

type_synonym lock_fd = "nat option"

record kernel =
  lock_files :: "string \<Rightarrow> nat option"
  inodes :: nat
  record_locks :: "nat \<Rightarrow> nat option"
  key_owner :: "nat \<times> string \<Rightarrow> nat option"

definition boot :: kernel where
  "boot = \<lparr>lock_files = (\<lambda>_. None), inodes = 0, record_locks = (\<lambda>_. None), key_owner = (\<lambda>_. None)\<rparr>"

definition lock_file :: "string \<Rightarrow> string \<Rightarrow> string" where
  "lock_file tmp key = tmp @ ''/'' @ key @ ''.lck''"

definition open_lock_file :: "bool \<Rightarrow> string \<Rightarrow> kernel \<Rightarrow> lock_fd \<times> kernel" where
  "open_lock_file ok path k =
     (if \<not> ok then (None, k)
      else case lock_files k path of
             Some i \<Rightarrow> (Some i, k)
           | None \<Rightarrow> (Some (inodes k), k\<lparr>lock_files := (lock_files k)(path \<mapsto> inodes k), inodes := Suc (inodes k)\<rparr>))"

text \<open>
  The loop around \<^verbatim>\<open>fcntl\<close> tries again after an error, so it is left only with the lock; it is not
  entered at all when \<^verbatim>\<open>open\<close> has failed.
\<close>

definition set_lock_wait :: "nat \<Rightarrow> lock_fd \<Rightarrow> kernel \<Rightarrow> kernel option" where
  "set_lock_wait p fd k =
     (case fd of
        None \<Rightarrow> Some k
      | Some i \<Rightarrow> (if record_locks k i = None \<or> record_locks k i = Some p
                  then Some (k\<lparr>record_locks := (record_locks k)(i \<mapsto> p)\<rparr>) else None))"

definition close_lock_file :: "nat \<Rightarrow> lock_fd \<Rightarrow> kernel \<Rightarrow> kernel" where
  "close_lock_file p fd k =
     (case fd of
        None \<Rightarrow> k
      | Some i \<Rightarrow> (if record_locks k i = Some p then k\<lparr>record_locks := (record_locks k)(i := None)\<rparr> else k))"

definition delete_file_lock :: "string \<Rightarrow> string \<Rightarrow> kernel \<Rightarrow> kernel" where
  "delete_file_lock tmp key k = k\<lparr>lock_files := (lock_files k)(lock_file tmp key := None)\<rparr>"

section \<open>Taking and giving back the lock\<close>

text \<open>
  \<open>Opening\<close>, \<open>Opened\<close>, \<open>Locked\<close>: in \<^verbatim>\<open>get_file_lock\<close>, before the call of \<^verbatim>\<open>open\<close>, of \<^verbatim>\<open>fcntl\<close> and of
  \<^verbatim>\<open>get_key_lock\<close>; \<open>Held\<close>: it has returned; \<open>Freeing\<close>, \<open>Closing\<close>: in \<^verbatim>\<open>free_file_lock\<close>, before the call of
  \<^verbatim>\<open>free_key_lock\<close> and of \<^verbatim>\<open>close\<close>; \<open>Released\<close>: that has returned.
\<close>

datatype lock_pc =
    Opening string
  | Opened string lock_fd
  | Locked string lock_fd
  | Held string lock_fd
  | Freeing string lock_fd
  | Closing string lock_fd
  | Released string

fun get_file_lock :: "string \<Rightarrow> nat \<Rightarrow> nat \<Rightarrow> bool \<Rightarrow> lock_pc \<Rightarrow> kernel \<Rightarrow> (lock_pc \<times> kernel) option" where
  "get_file_lock tmp p t ok (Opening key) k = (case open_lock_file ok (lock_file tmp key) k of (fd, k') \<Rightarrow> Some (Opened key fd, k'))"
| "get_file_lock tmp p t ok (Opened key fd) k = (case set_lock_wait p fd k of None \<Rightarrow> None | Some k' \<Rightarrow> Some (Locked key fd, k'))"
| "get_file_lock tmp p t ok (Locked key fd) k =
     (case mutex_lock t (key_owner k (p, key)) of
        None \<Rightarrow> None
      | Some m \<Rightarrow> Some (Held key fd, k\<lparr>key_owner := (key_owner k)((p, key) := m)\<rparr>))"
| "get_file_lock tmp p t ok _ k = None"

fun free_file_lock :: "nat \<Rightarrow> lock_pc \<Rightarrow> kernel \<Rightarrow> (lock_pc \<times> kernel) option" where
  "free_file_lock p (Freeing key fd) k = Some (Closing key fd, k\<lparr>key_owner := (key_owner k)((p, key) := None)\<rparr>)"
| "free_file_lock p (Closing key fd) k = Some (Released key, close_lock_file p fd k)"
| "free_file_lock p _ k = None"

section \<open>Threads that use the lock\<close>

text \<open>
  Thread \<open>t\<close> of process \<open>proc t\<close> asks for any name, works under the lock, gives it back and may then delete
  the lock file, as \<^verbatim>\<open>attach_shm\<close> does. In a \<open>smooth\<close> run no \<^verbatim>\<open>open\<close> fails and no lock file is deleted.
\<close>

datatype lock_action = Ask string | Go | Fail | Release | Delete | Return

record lock_world =
  lock_kernel :: kernel
  lock_pcs :: "lock_pc option list"

definition lock_start :: "nat \<Rightarrow> lock_world" where
  "lock_start n = \<lparr>lock_kernel = boot, lock_pcs = replicate n None\<rparr>"

definition at_pc :: "nat \<Rightarrow> lock_pc option \<Rightarrow> kernel \<Rightarrow> lock_world \<Rightarrow> lock_world" where
  "at_pc t pc k s = s\<lparr>lock_kernel := k, lock_pcs := (lock_pcs s)[t := pc]\<rparr>"

fun lock_call :: "string \<Rightarrow> (nat \<Rightarrow> nat) \<Rightarrow> bool \<Rightarrow> nat \<Rightarrow> lock_action \<Rightarrow> lock_pc option \<Rightarrow> kernel \<Rightarrow>
    (lock_pc option \<times> kernel) option" where
  "lock_call tmp proc smooth t (Ask key) None k = Some (Some (Opening key), k)"
| "lock_call tmp proc smooth t Go (Some pc) k =
     (case get_file_lock tmp (proc t) t True pc k of
        Some (pc', k') \<Rightarrow> Some (Some pc', k')
      | None \<Rightarrow> (case free_file_lock (proc t) pc k of Some (pc', k') \<Rightarrow> Some (Some pc', k') | None \<Rightarrow> None))"
| "lock_call tmp proc smooth t Fail (Some (Opening key)) k =
     (if smooth then None
      else case get_file_lock tmp (proc t) t False (Opening key) k of Some (pc', k') \<Rightarrow> Some (Some pc', k') | None \<Rightarrow> None)"
| "lock_call tmp proc smooth t Release (Some (Held key fd)) k = Some (Some (Freeing key fd), k)"
| "lock_call tmp proc smooth t Delete (Some (Released key)) k = (if smooth then None else Some (None, delete_file_lock tmp key k))"
| "lock_call tmp proc smooth t Return (Some (Released key)) k = Some (None, k)"
| "lock_call tmp proc smooth t _ _ k = None"

fun lock_fire :: "string \<Rightarrow> (nat \<Rightarrow> nat) \<Rightarrow> bool \<Rightarrow> nat \<times> lock_action \<Rightarrow> lock_world \<Rightarrow> lock_world option" where
  "lock_fire tmp proc smooth (t, c) s =
     (if length (lock_pcs s) \<le> t then None
      else case lock_call tmp proc smooth t c (lock_pcs s ! t) (lock_kernel s) of
             None \<Rightarrow> None
           | Some (pc, k) \<Rightarrow> Some (at_pc t pc k s))"

section \<open>Invariants\<close>

fun pc_key :: "lock_pc \<Rightarrow> string" where
  "pc_key (Opening key) = key"
| "pc_key (Opened key fd) = key"
| "pc_key (Locked key fd) = key"
| "pc_key (Held key fd) = key"
| "pc_key (Freeing key fd) = key"
| "pc_key (Closing key fd) = key"
| "pc_key (Released key) = key"

fun pc_fd :: "lock_pc \<Rightarrow> lock_fd option" where
  "pc_fd (Opened key fd) = Some fd"
| "pc_fd (Locked key fd) = Some fd"
| "pc_fd (Held key fd) = Some fd"
| "pc_fd (Freeing key fd) = Some fd"
| "pc_fd (Closing key fd) = Some fd"
| "pc_fd _ = None"

fun owns_key :: "lock_pc \<Rightarrow> bool" where
  "owns_key (Held key fd) = True"
| "owns_key (Freeing key fd) = True"
| "owns_key _ = False"

fun owns_record :: "lock_pc \<Rightarrow> bool" where
  "owns_record (Locked key fd) = True"
| "owns_record (Held key fd) = True"
| "owns_record (Freeing key fd) = True"
| "owns_record (Closing key fd) = True"
| "owns_record _ = False"

text \<open>
  What a thread at a position relies on: the key lock in any run, and in a smooth run with one thread for
  each process that its descriptor is the file of the name and that the record lock is its own.
\<close>

definition key_relies :: "nat \<Rightarrow> nat \<Rightarrow> kernel \<Rightarrow> lock_pc \<Rightarrow> bool" where
  "key_relies p t k pc \<longleftrightarrow> (owns_key pc \<longrightarrow> key_owner k (p, pc_key pc) = Some t)"

definition file_relies :: "string \<Rightarrow> nat \<Rightarrow> kernel \<Rightarrow> lock_pc \<Rightarrow> bool" where
  "file_relies tmp p k pc \<longleftrightarrow>
     (\<forall>fd. pc_fd pc = Some fd \<longrightarrow>
       (\<exists>i. fd = Some i \<and> lock_files k (lock_file tmp (pc_key pc)) = Some i \<and> (owns_record pc \<longrightarrow> record_locks k i = Some p)))"

lemmas relies = key_relies_def file_relies_def

lemma get_file_lock_key:
  assumes "get_file_lock tmp (proc t) t ok pc k = Some (pc', k')"
  shows "key_relies (proc t) t k' pc'" "u \<noteq> t \<Longrightarrow> key_relies (proc u) u k y \<Longrightarrow> key_relies (proc u) u k' y"
  using assms
  by (cases pc; auto simp: key_relies_def open_lock_file_def set_lock_wait_def mutex_lock_def
      split: option.splits if_splits prod.splits)+

lemma free_file_lock_key:
  assumes "free_file_lock (proc t) pc k = Some (pc', k')" "key_relies (proc t) t k pc"
  shows "key_relies (proc t) t k' pc'" "u \<noteq> t \<Longrightarrow> key_relies (proc u) u k y \<Longrightarrow> key_relies (proc u) u k' y"
  using assms
  by (cases pc; auto simp: key_relies_def close_lock_file_def split: option.splits if_splits)+

lemma get_file_lock_file:
  assumes "get_file_lock tmp (proc t) t True pc k = Some (pc', k')" "file_relies tmp (proc t) k pc"
  shows "file_relies tmp (proc t) k' pc'"
    "proc u \<noteq> proc t \<Longrightarrow> file_relies tmp (proc u) k y \<Longrightarrow> file_relies tmp (proc u) k' y"
  using assms
  by (cases pc; auto simp: file_relies_def open_lock_file_def set_lock_wait_def mutex_lock_def
      split: option.splits if_splits prod.splits)+

lemma free_file_lock_file:
  assumes "free_file_lock (proc t) pc k = Some (pc', k')" "file_relies tmp (proc t) k pc"
  shows "file_relies tmp (proc t) k' pc'"
    "proc u \<noteq> proc t \<Longrightarrow> file_relies tmp (proc u) k y \<Longrightarrow> file_relies tmp (proc u) k' y"
  using assms
  by (cases pc; auto simp: file_relies_def close_lock_file_def split: option.splits if_splits)+

fun_cases lock_callE: "lock_call tmp proc smooth t c pc k = Some r"

lemma lock_call_cases:
  assumes "lock_call tmp proc smooth t c pc k = Some (pc', k')"
  obtains (Ask) key where "pc = None" "pc' = Some (Opening key)" "k' = k"
  | (Get) x x' ok where "pc = Some x" "pc' = Some x'" "get_file_lock tmp (proc t) t ok x k = Some (x', k')" "smooth \<longrightarrow> ok"
  | (Free) x x' where "pc = Some x" "pc' = Some x'" "free_file_lock (proc t) x k = Some (x', k')"
  | (Release) key fd where "pc = Some (Held key fd)" "pc' = Some (Freeing key fd)" "k' = k"
  | (Delete) key where "pc' = None" "k' = delete_file_lock tmp key k" "\<not> smooth"
  | (Return) "pc' = None" "k' = k"
  using assms by (elim lock_callE) (auto simp del: get_file_lock.simps free_file_lock.simps split: option.splits if_splits)

text \<open>One action of a thread, for itself and for the others.\<close>

lemma lock_call_key:
  assumes "lock_call tmp proc smooth t c pc k = Some (pc', k')" "\<forall>x. pc = Some x \<longrightarrow> key_relies (proc t) t k x"
  shows "\<forall>x. pc' = Some x \<longrightarrow> key_relies (proc t) t k' x"
    "u \<noteq> t \<Longrightarrow> key_relies (proc u) u k y \<Longrightarrow> key_relies (proc u) u k' y"
  using assms(1)
  by (cases rule: lock_call_cases;
      use assms(2) get_file_lock_key free_file_lock_key in \<open>simp add: key_relies_def delete_file_lock_def\<close>)+

lemma file_relies_simps [simp]:
  "file_relies tmp p k (Opening key)" "file_relies tmp p k (Freeing key fd) = file_relies tmp p k (Held key fd)"
  by (simp_all add: file_relies_def)

lemma lock_call_file:
  assumes "lock_call tmp proc True t c pc k = Some (pc', k')" "\<forall>x. pc = Some x \<longrightarrow> file_relies tmp (proc t) k x"
  shows "(\<forall>x. pc' = Some x \<longrightarrow> file_relies tmp (proc t) k' x) \<and>
    (\<forall>u y. proc u \<noteq> proc t \<longrightarrow> file_relies tmp (proc u) k y \<longrightarrow> file_relies tmp (proc u) k' y)"
  using assms(1)
proof (cases rule: lock_call_cases)
  case (Get x x' ok)
  then have own: "get_file_lock tmp (proc t) t True x k = Some (x', k')" "file_relies tmp (proc t) k x"
    using assms(2) by simp_all
  then show ?thesis
    using get_file_lock_file [of tmp proc t x k x' k', OF own] Get(2) by blast
next
  case (Free x x')
  then have "file_relies tmp (proc t) k x"
    using assms(2) by simp
  then show ?thesis
    using free_file_lock_file [of proc t x k x' k' tmp, OF Free(3)] Free(2) by blast
qed (use assms(2) in simp_all)

definition lock_ok :: "string \<Rightarrow> (nat \<Rightarrow> nat) \<Rightarrow> bool \<Rightarrow> lock_world \<Rightarrow> bool" where
  "lock_ok tmp proc smooth s \<longleftrightarrow>
     (\<forall>t < length (lock_pcs s). \<forall>x. lock_pcs s ! t = Some x \<longrightarrow>
       key_relies (proc t) t (lock_kernel s) x \<and>
       (smooth \<and> inj_on proc {..<length (lock_pcs s)} \<longrightarrow> file_relies tmp (proc t) (lock_kernel s) x))"

interpretation lock_inv: machine_invariant "lock_fire tmp proc smooth" "lock_ok tmp proc smooth" for tmp proc smooth
proof
  fix s s' l assume inv: "lock_ok tmp proc smooth s" and run: "lock_fire tmp proc smooth l s = Some s'"
  obtain t c where l: "l = (t, c)"
    by (cases l)
  obtain pc k where t: "t < length (lock_pcs s)"
    and call: "lock_call tmp proc smooth t c (lock_pcs s ! t) (lock_kernel s) = Some (pc, k)" and s': "s' = at_pc t pc k s"
    using run l by (auto split: if_splits option.splits)
  have key: "\<forall>x. lock_pcs s ! t = Some x \<longrightarrow> key_relies (proc t) t (lock_kernel s) x"
    using inv t by (simp add: lock_ok_def)
  have "key_relies (proc u) u k x" if "u < length (lock_pcs s)" "(lock_pcs s)[t := pc] ! u = Some x" for u x
    using that lock_call_key(1) [OF call key] lock_call_key(2) [OF call key, of u x] inv
    by (cases "u = t") (auto simp: lock_ok_def)
  moreover have "file_relies tmp (proc u) k x"
    if u: "u < length (lock_pcs s)" "(lock_pcs s)[t := pc] ! u = Some x" and exact: "smooth" "inj_on proc {..<length (lock_pcs s)}" for u x
  proof -
    have rely: "\<forall>y. lock_pcs s ! v = Some y \<longrightarrow> file_relies tmp (proc v) (lock_kernel s) y" if "v < length (lock_pcs s)" for v
      using inv that exact by (simp add: lock_ok_def)
    have "lock_call tmp proc True t c (lock_pcs s ! t) (lock_kernel s) = Some (pc, k)"
      using call exact(1) by simp
    note after = lock_call_file [OF this rely [OF t]]
    show ?thesis
    proof (cases "u = t")
      case False
      then have "proc u \<noteq> proc t"
        using exact(2) u(1) t by (auto dest: inj_onD)
      then show ?thesis
        using after rely [OF u(1)] u False by simp
    qed (use after u in simp)
  qed
  ultimately show "lock_ok tmp proc smooth s'"
    by (simp add: lock_ok_def s' at_pc_def)
qed

lemma lock_start_ok: "lock_ok tmp proc smooth (lock_start n)"
  by (simp add: lock_ok_def lock_start_def)

lemma lock_pcs_length: "reach (lock_fire tmp proc smooth) s0 s \<Longrightarrow> length (lock_pcs s) = length (lock_pcs s0)"
  by (induction rule: reach.induct) (auto simp: at_pc_def split: if_splits option.splits)

definition holds_lock :: "lock_world \<Rightarrow> nat \<Rightarrow> string \<Rightarrow> bool" where
  "holds_lock s t key \<longleftrightarrow> t < length (lock_pcs s) \<and> (\<exists>fd. lock_pcs s ! t = Some (Held key fd))"

text \<open>
  C16: Two threads of one process never hold the lock of a name at the same time, and neither do threads of
  different processes as long as each process has one thread, no lock file is deleted and \<^verbatim>\<open>open\<close> does not fail.
\<close>
theorem file_lock_exclusive:
  assumes "reach (lock_fire tmp proc smooth) (lock_start n) s"
  shows "\<forall>t u key. holds_lock s t key \<and> holds_lock s u key \<and> (proc t = proc u \<or> smooth \<and> inj_on proc {..<n}) \<longrightarrow> t = u"
proof (intro allI impI, elim conjE)
  fix t u key assume held: "holds_lock s t key" "holds_lock s u key" and why: "proc t = proc u \<or> smooth \<and> inj_on proc {..<n}"
  have inv: "lock_ok tmp proc smooth s"
    by (rule lock_inv.always [OF assms lock_start_ok])
  have n: "length (lock_pcs s) = n"
    using lock_pcs_length [OF assms] by (simp add: lock_start_def)
  obtain fd gd where pcs: "t < n" "u < n" "lock_pcs s ! t = Some (Held key fd)" "lock_pcs s ! u = Some (Held key gd)"
    using held n by (auto simp: holds_lock_def)
  have rely: "key_relies (proc v) v (lock_kernel s) x" "smooth \<and> inj_on proc {..<n} \<longrightarrow> file_relies tmp (proc v) (lock_kernel s) x"
    if "v < n" "lock_pcs s ! v = Some x" for v x
    using inv that n by (auto simp: lock_ok_def)
  have "proc t = proc u" if "smooth \<and> inj_on proc {..<n}"
    using rely(2) [OF pcs(1,3)] rely(2) [OF pcs(2,4)] that by (auto simp: file_relies_def)
  then have "proc t = proc u"
    using why by blast
  then show "t = u"
    using rely(1) [OF pcs(1,3)] rely(1) [OF pcs(2,4)] by (simp add: key_relies_def)
qed

text \<open>Two processes: the second waits for the record lock until the first has closed the file.\<close>

definition demo_lock_run :: "(nat \<times> lock_action) list" where
  "demo_lock_run =
     [(0, Ask ''k''), (0, Go), (0, Go), (0, Go), (1, Ask ''k''), (1, Go), (0, Release), (0, Go), (0, Go), (1, Go), (1, Go)]"

theorem file_lock_exclusive_witness:
  "\<exists>s. run_actions (lock_fire ''/tmp'' id True) demo_lock_run (lock_start 2) = Some s \<and>
    holds_lock s 1 ''k'' \<and> (\<forall>t. holds_lock s t ''k'' \<and> inj_on id {..<2 :: nat} \<longrightarrow> t = 1) \<and>
    run_actions (lock_fire ''/tmp'' id True) (take 6 demo_lock_run @ [(1, Go)]) (lock_start 2) = None"
proof -
  have "map_option lock_pcs (run_actions (lock_fire ''/tmp'' id True) demo_lock_run (lock_start 2)) =
      Some [Some (Released ''k''), Some (Held ''k'' (Some 0))]"
    by code_simp
  then obtain s where s: "run_actions (lock_fire ''/tmp'' id True) demo_lock_run (lock_start 2) = Some s"
      "reach (lock_fire ''/tmp'' id True) (lock_start 2) s" "lock_pcs s = [Some (Released ''k''), Some (Held ''k'' (Some 0))]"
    by (rule run_part)
  have held: "holds_lock s 1 ''k''"
    by (simp add: holds_lock_def s(3))
  have "t = 1" if "holds_lock s t ''k''" "inj_on id {..<2 :: nat}" for t
    using file_lock_exclusive [OF s(2)] held that by blast
  moreover have "run_actions (lock_fire ''/tmp'' id True) (take 6 demo_lock_run @ [(1, Go)]) (lock_start 2) = None"
    by code_simp
  ultimately show ?thesis
    using s(1) held by blast
qed

text \<open>
  The conditions are needed. With two threads in one process, \<^verbatim>\<open>close\<close> by the first one drops the record lock
  of the whole process, and a thread of another process gets in beside the second. With one thread in each of
  three processes, a lock file deleted while one of them waits for its lock is made anew for the third.
\<close>
lemma file_lock_lost:
  "(\<exists>s. reach (lock_fire ''/tmp'' (\<lambda>t. if t < 2 then 0 else 1) True) (lock_start 3) s \<and> holds_lock s 1 ''k'' \<and> holds_lock s 2 ''k'') \<and>
   (\<exists>s. reach (lock_fire ''/tmp'' id False) (lock_start 3) s \<and> holds_lock s 1 ''k'' \<and> holds_lock s 2 ''k'')"
proof

  let ?in = "\<lambda>t. [(t, Go), (t, Go), (t, Go)] :: (nat \<times> lock_action) list"
  let ?close = "(0, Ask ''k'') # (1, Ask ''k'') # ?in 0 @ take 2 (?in 1) @ [(0, Release), (0, Go), (0, Go), (1, Go), (2, Ask ''k'')] @ ?in 2"
  have "map_option lock_pcs (run_actions (lock_fire ''/tmp'' (\<lambda>t. if t < 2 then 0 else 1) True) ?close (lock_start 3)) =
      Some [Some (Released ''k''), Some (Held ''k'' (Some 0)), Some (Held ''k'' (Some 0))]"
    by code_simp
  then show "\<exists>s. reach (lock_fire ''/tmp'' (\<lambda>t. if t < 2 then 0 else 1) True) (lock_start 3) s \<and> holds_lock s 1 ''k'' \<and> holds_lock s 2 ''k''"
    by (rule run_part) (auto simp: holds_lock_def)
next
  let ?in = "\<lambda>t. [(t, Go), (t, Go), (t, Go)] :: (nat \<times> lock_action) list"
  let ?unlink = "(0, Ask ''k'') # (1, Ask ''k'') # ?in 0 @ [(1, Go), (0, Release), (0, Go), (0, Go), (1, Go), (1, Go), (0, Delete), (2, Ask ''k'')] @ ?in 2"
  have "map_option lock_pcs (run_actions (lock_fire ''/tmp'' id False) ?unlink (lock_start 3)) =
      Some [None, Some (Held ''k'' (Some 0)), Some (Held ''k'' (Some 1))]"
    by code_simp
  then show "\<exists>s. reach (lock_fire ''/tmp'' id False) (lock_start 3) s \<and> holds_lock s 1 ''k'' \<and> holds_lock s 2 ''k''"
    by (rule run_part) (auto simp: holds_lock_def)
qed

end
