(* ===== verification/ShmLifecycle.thy ===== *)
theory ShmLifecycle imports MemChannel FileLock begin

text \<open>
  The life of the two shared-memory segments of a \<^verbatim>\<open>MemChannel\<close> (\<^verbatim>\<open>src/src/memchannel.cpp\<close>): the party with
  the smaller number creates them in its constructor, the other one attaches to them at its first send or
  receive and unlinks their names. Creating and attaching run under the lock of theory \<^verbatim>\<open>FileLock\<close> and
  interleave at every system call.
\<close>

section \<open>Segments\<close>

text \<open>
  A name leads to an object until it is unlinked, the object lives on. An object is new with
  size 0; growing it fills with zeros. Its bytes are seen as the view they hold, \<open>view_size\<close> of the environment
  is \<^verbatim>\<open>sizeof(SharedMemoryView)\<close>. \<open>grows\<close> and \<open>maps\<close> say of which objects \<^verbatim>\<open>ftruncate\<close> and \<^verbatim>\<open>mmap\<close> succeed; the code goes on
  in either case, and what it touches then is not there.
\<close>

record segment =
  seg_size :: int
  seg_view :: shm_view

record system =
  kern :: kernel
  shm_names :: "string \<Rightarrow> nat option"
  segments :: "segment list"

record shm_env =
  tmp_dir :: string
  view_size :: int
  no_asserts :: bool
  pthread_codes :: "nat \<Rightarrow> int"
  grows :: "nat \<Rightarrow> bool"
  maps :: "nat \<Rightarrow> bool"

definition zero_view :: "nat \<Rightarrow> shm_view" where
  "zero_view n = \<lparr>buf_size = 0, enable_cv = False, client_attached = 0, ring_in = 0, ring_out = 0, buffer = replicate n 0\<rparr>"

definition shm_unlink :: "string \<Rightarrow> system \<Rightarrow> system" where
  "shm_unlink key y = y\<lparr>shm_names := (shm_names y)(key := None)\<rparr>"

text \<open>\<^verbatim>\<open>shm_open\<close> with \<^verbatim>\<open>O_CREAT\<close> and \<^verbatim>\<open>O_EXCL\<close>, and again without when the name exists.\<close>

definition shm_create :: "string \<Rightarrow> system \<Rightarrow> nat \<times> system" where
  "shm_create key y =
     (case shm_names y key of
        Some x \<Rightarrow> (x, y)
      | None \<Rightarrow> (length (segments y), y\<lparr>shm_names := (shm_names y)(key \<mapsto> length (segments y)),
          segments := segments y @ [\<lparr>seg_size = 0, seg_view = zero_view 0\<rparr>]\<rparr>))"

text \<open>\<^verbatim>\<open>ftruncate\<close> refuses a negative size.\<close>

definition ftruncate :: "int \<Rightarrow> int \<Rightarrow> segment \<Rightarrow> segment" where
  "ftruncate vsize sz g =
     (if sz < 0 then g
      else let n = nat (sz - vsize); b = buffer (seg_view g)
           in g\<lparr>seg_size := sz, seg_view := (seg_view g)\<lparr>buffer := take n b @ replicate (n - length b) 0\<rparr>\<rparr>)"

section \<open>Parties\<close>

text \<open>
  A party is a channel, the operations it has still to make and where it is in the first of them. The
  position in the file lock is part of the stage. \<open>unmapped\<close> and \<open>closed\<close>: the views and descriptors the destructor has
  given back; \<open>Unmap True\<close> is the creator's, which does not look whether there are views.
\<close>

datatype way = Outgoing | Incoming

datatype shm_op = Destroy way | Create way | CheckSize | StartAttach | Attach way | Detach way | Unmap bool | CloseFd way

datatype stage =
    Begin
  | CreateLock lock_pc
  | CreateSize lock_pc nat
  | CreateInit lock_pc nat
  | CreateFree lock_pc nat
  | AttachLock lock_pc nat
  | AttachUnlink lock_pc nat
  | AttachFree lock_pc nat
  | DetachUnlink

record party =
  chan :: mem_channel
  todo :: "shm_op list"
  stage :: stage
  unmapped :: "nat list"
  closed :: "int list"

fun shm_name :: "mem_channel \<Rightarrow> way \<Rightarrow> string" where
  "shm_name c Outgoing = get_shm_key (m_from_party c) (m_to_party c) (m_channelid c)"
| "shm_name c Incoming = get_shm_key (m_to_party c) (m_from_party c) (m_channelid c)"

fun view_of :: "way \<Rightarrow> mem_channel \<Rightarrow> nat option" where
  "view_of Outgoing c = m_send_buf c"
| "view_of Incoming c = m_recv_buf c"

fun set_view :: "way \<Rightarrow> nat \<Rightarrow> int \<Rightarrow> mem_channel \<Rightarrow> mem_channel" where
  "set_view Outgoing x fd c = c\<lparr>m_send_buf := Some x, m_send_fd := fd\<rparr>"
| "set_view Incoming x fd c = c\<lparr>m_recv_buf := Some x, m_recv_fd := fd\<rparr>"

text \<open>The operations of the constructor, of \<^verbatim>\<open>attach\<close> and of the destructor.\<close>

definition MemChannel :: "u32 \<Rightarrow> u32 \<Rightarrow> string \<Rightarrow> bool \<Rightarrow> i32 \<Rightarrow> party" where
  "MemChannel from_party to_party taskid ecv bs =
     (let creates = from_party < to_party
      in \<lparr>chan = ichannel.extend (IChannel taskid from_party to_party)
            \<lparr>m_buf_size = bs, m_enable_cv = ecv, need_attach = \<not> creates, m_send_buf = None, m_recv_buf = None,
             m_send_fd = -1, m_recv_fd = -1\<rparr>,
          todo = (if creates then [Destroy Outgoing, Destroy Incoming, Create Outgoing, Create Incoming] else []) @ [CheckSize],
          stage = Begin, unmapped = [], closed = []\<rparr>)"

definition attach :: "party \<Rightarrow> party" where
  "attach p = p\<lparr>todo := todo p @ [StartAttach, Attach Outgoing, Attach Incoming]\<rparr>"

definition delete_MemChannel :: "party \<Rightarrow> party" where
  "delete_MemChannel p =
     p\<lparr>todo := todo p
         @ (if m_from_party (chan p) < m_to_party (chan p) then [Detach Outgoing, Detach Incoming, Unmap True] else [Unmap False])
         @ [CloseFd Outgoing, CloseFd Incoming]\<rparr>"

fun fd_of :: "way \<Rightarrow> mem_channel \<Rightarrow> int" where
  "fd_of Outgoing c = m_send_fd c"
| "fd_of Incoming c = m_recv_fd c"

fun give_back :: "lock_pc \<Rightarrow> lock_pc" where
  "give_back (Held key fd) = Freeing key fd"
| "give_back pc = pc"

definition lock_run :: "shm_env \<Rightarrow> nat \<Rightarrow> nat \<Rightarrow> lock_pc \<Rightarrow> system \<Rightarrow> (lock_pc \<times> system) option" where
  "lock_run E p t pc y =
     (case get_file_lock (tmp_dir E) p t True pc (kern y) of
        Some (pc', k) \<Rightarrow> Some (pc', y\<lparr>kern := k\<rparr>)
      | None \<Rightarrow> (case free_file_lock p pc (kern y) of Some (pc', k) \<Rightarrow> Some (pc', y\<lparr>kern := k\<rparr>) | None \<Rightarrow> None))"

text \<open>The last step of creating or attaching: the pair is stored in the channel.\<close>

definition finish_op :: "way \<Rightarrow> nat \<Rightarrow> int \<Rightarrow> party \<Rightarrow> party" where
  "finish_op w x fd c = c\<lparr>chan := set_view w x fd (chan c), todo := tl (todo c), stage := Begin\<rparr>"

definition map_size :: "shm_env \<Rightarrow> mem_channel \<Rightarrow> int" where
  "map_size E c = sint (m_buf_size c + of_int (view_size E))"

definition create_shm :: "shm_env \<Rightarrow> nat \<Rightarrow> nat \<Rightarrow> int \<Rightarrow> way \<Rightarrow> party \<Rightarrow> system \<Rightarrow> (fault + party \<times> system) option" where
  "create_shm E p t fd w c y =
     (let key = shm_name (chan c) w in
      case stage c of
        Begin \<Rightarrow> Some (Inr (c\<lparr>stage := CreateLock (Opening key)\<rparr>, y))
      | CreateLock pc \<Rightarrow>
          (case pc of
             Held k lfd \<Rightarrow> (case shm_create key y of (x, y') \<Rightarrow> Some (Inr (c\<lparr>stage := CreateSize pc x\<rparr>, y')))
           | _ \<Rightarrow> (case lock_run E p t pc y of None \<Rightarrow> None | Some (pc', y') \<Rightarrow> Some (Inr (c\<lparr>stage := CreateLock pc'\<rparr>, y'))))
      | CreateSize pc x \<Rightarrow>
          Some (Inr (c\<lparr>stage := CreateInit pc x\<rparr>,
            y\<lparr>segments := (if grows E x then (segments y)[x := ftruncate (view_size E) (map_size E (chan c)) (segments y ! x)] else segments y)\<rparr>))
      | CreateInit pc x \<Rightarrow>
          (let g = segments y ! x
           in if \<not> maps E x \<or> map_size E (chan c) < view_size E \<or> seg_size g < view_size E then Some (Inl OutOfBounds)
              else case init_view (pthread_codes E) (seg_view g) (m_buf_size (chan c)) (m_enable_cv (chan c)) of
                     Inl e \<Rightarrow> Some (Inl e)
                   | Inr v \<Rightarrow> Some (Inr (c\<lparr>stage := CreateFree (give_back pc) x\<rparr>,
                       y\<lparr>segments := (segments y)[x := g\<lparr>seg_view := v\<rparr>]\<rparr>)))
      | CreateFree pc x \<Rightarrow>
          (case pc of
             Released k \<Rightarrow> Some (Inr (finish_op w x fd c, y))
           | _ \<Rightarrow> (case lock_run E p t pc y of None \<Rightarrow> None | Some (pc', y') \<Rightarrow> Some (Inr (c\<lparr>stage := CreateFree pc' x\<rparr>, y'))))
      | _ \<Rightarrow> None)"

text \<open>
  \<^verbatim>\<open>attach_shm\<close> polls until the name exists. Without \<^verbatim>\<open>NDEBUG\<close> \<^verbatim>\<open>attach_init\<close> asserts that it is the first
  client; the deletion of the lock file is its last effect.
\<close>

definition attach_shm :: "shm_env \<Rightarrow> nat \<Rightarrow> nat \<Rightarrow> int \<Rightarrow> way \<Rightarrow> party \<Rightarrow> system \<Rightarrow> (fault + party \<times> system) option" where
  "attach_shm E p t fd w c y =
     (let key = shm_name (chan c) w in
      case stage c of
        Begin \<Rightarrow>
          Some (Inr (case shm_names y key of None \<Rightarrow> (c, y) | Some x \<Rightarrow> (c\<lparr>stage := AttachLock (Opening key) x\<rparr>, y)))
      | AttachLock pc x \<Rightarrow>
          (case pc of
             Held k lfd \<Rightarrow>
               (let g = segments y ! x
                in if \<not> maps E x \<or> seg_size g < view_size E then Some (Inl OutOfBounds)
                   else case attach_init (no_asserts E) (seg_view g) (m_enable_cv (chan c)) of
                          Inl e \<Rightarrow> Some (Inl e)
                        | Inr v \<Rightarrow> Some (Inr (c\<lparr>stage := AttachUnlink pc x\<rparr>,
                            y\<lparr>segments := (segments y)[x := g\<lparr>seg_view := v\<rparr>]\<rparr>)))
           | _ \<Rightarrow> (case lock_run E p t pc y of None \<Rightarrow> None | Some (pc', y') \<Rightarrow> Some (Inr (c\<lparr>stage := AttachLock pc' x\<rparr>, y'))))
      | AttachUnlink pc x \<Rightarrow> Some (Inr (c\<lparr>stage := AttachFree (give_back pc) x\<rparr>, shm_unlink key y))
      | AttachFree pc x \<Rightarrow>
          (case pc of
             Released k \<Rightarrow> Some (Inr (finish_op w x fd c, y\<lparr>kern := delete_file_lock (tmp_dir E) key (kern y)\<rparr>))
           | _ \<Rightarrow> (case lock_run E p t pc y of None \<Rightarrow> None | Some (pc', y') \<Rightarrow> Some (Inr (c\<lparr>stage := AttachFree pc' x\<rparr>, y'))))
      | _ \<Rightarrow> None)"

text \<open>The creator's destructor unlinks a name that nobody has attached to.\<close>

definition detach_shm :: "way \<Rightarrow> party \<Rightarrow> system \<Rightarrow> (fault + party \<times> system) option" where
  "detach_shm w c y =
     (case stage c of
        Begin \<Rightarrow>
          (case view_of w (chan c) of
             None \<Rightarrow> Some (Inl NullPointer)
           | Some x \<Rightarrow>
               (let g = segments y ! x; n = client_attached (seg_view g) + 1;
                    y' = y\<lparr>segments := (segments y)[x := g\<lparr>seg_view := (seg_view g)\<lparr>client_attached := n\<rparr>\<rparr>]\<rparr>
                in Some (Inr (if n = 1 then c\<lparr>stage := DetachUnlink\<rparr> else c\<lparr>todo := tl (todo c)\<rparr>, y'))))
      | DetachUnlink \<Rightarrow> Some (Inr (c\<lparr>todo := tl (todo c), stage := Begin\<rparr>, shm_unlink (shm_name (chan c) w) y))
      | _ \<Rightarrow> None)"

definition unmap_views :: "shm_env \<Rightarrow> bool \<Rightarrow> party \<Rightarrow> fault + party" where
  "unmap_views E always c =
     (case (m_send_buf (chan c), m_recv_buf (chan c)) of
        (Some x, Some z) \<Rightarrow> Inr (c\<lparr>unmapped := unmapped c @ [x, z], todo := tl (todo c)\<rparr>)
      | (None, None) \<Rightarrow> (if always then Inl NullPointer else Inr (c\<lparr>todo := tl (todo c)\<rparr>))
      | _ \<Rightarrow> Inl (if always \<or> no_asserts E then NullPointer else AssertFailed))"

definition close_fd :: "way \<Rightarrow> party \<Rightarrow> party" where
  "close_fd w c =
     c\<lparr>closed := closed c @ (if fd_of w (chan c) \<noteq> -1 then [fd_of w (chan c)] else []), todo := tl (todo c)\<rparr>"

definition party_step :: "shm_env \<Rightarrow> nat \<Rightarrow> nat \<Rightarrow> int \<Rightarrow> party \<Rightarrow> system \<Rightarrow> (fault + party \<times> system) option" where
  "party_step E p t fd c y =
     (case todo c of
        [] \<Rightarrow> None
      | Destroy w # ops \<Rightarrow> Some (Inr (c\<lparr>todo := ops\<rparr>, shm_unlink (shm_name (chan c) w) y))
      | Create w # ops \<Rightarrow> create_shm E p t fd w c y
      | CheckSize # ops \<Rightarrow>
          Some (if no_asserts E \<or> valid_buf_size (m_buf_size (chan c)) then Inr (c\<lparr>todo := ops\<rparr>, y) else Inl AssertFailed)
      | StartAttach # ops \<Rightarrow>
          Some (if no_asserts E \<or> need_attach (chan c)
                then Inr (c\<lparr>chan := (chan c)\<lparr>need_attach := False\<rparr>, todo := ops\<rparr>, y) else Inl AssertFailed)
      | Attach w # ops \<Rightarrow> attach_shm E p t fd w c y
      | Detach w # ops \<Rightarrow> detach_shm w c y
      | Unmap always # ops \<Rightarrow> Some (case unmap_views E always c of Inl e \<Rightarrow> Inl e | Inr c' \<Rightarrow> Inr (c', y))
      | CloseFd w # ops \<Rightarrow> Some (Inr (close_fd w c, y)))"

section \<open>Two parties\<close>

record shm_world =
  sys :: system
  creator :: party
  attacher :: party
  shm_fault :: "fault option"

text \<open>
  The action of a party: which one, and the number the kernel gives its descriptor. \<open>proc\<close> says in which process
  each of the two threads runs.
\<close>

fun shm_fire :: "shm_env \<Rightarrow> (nat \<Rightarrow> nat) \<Rightarrow> bool \<times> int \<Rightarrow> shm_world \<Rightarrow> shm_world option" where
  "shm_fire E proc (first, fd) s =
     (if shm_fault s \<noteq> None then None
      else if first
      then (case party_step E (proc 0) 0 fd (creator s) (sys s) of
              None \<Rightarrow> None
            | Some (Inl e) \<Rightarrow> Some (s\<lparr>shm_fault := Some e\<rparr>)
            | Some (Inr (c, y)) \<Rightarrow> Some (s\<lparr>creator := c, sys := y\<rparr>))
      else (case party_step E (proc 1) 1 fd (attacher s) (sys s) of
              None \<Rightarrow> None
            | Some (Inl e) \<Rightarrow> Some (s\<lparr>shm_fault := Some e\<rparr>)
            | Some (Inr (c, y)) \<Rightarrow> Some (s\<lparr>attacher := c, sys := y\<rparr>)))"

definition handshake_start :: "u32 \<Rightarrow> u32 \<Rightarrow> string \<Rightarrow> bool \<Rightarrow> i32 \<Rightarrow> system \<Rightarrow> shm_world" where
  "handshake_start a b taskid ecv bs y =
     \<lparr>sys = y, creator = MemChannel a b taskid ecv bs, attacher = attach (MemChannel b a taskid ecv bs), shm_fault = None\<rparr>"

section \<open>Where the parties are\<close>

text \<open>
  The two names are told apart by the creator's ways; the attacher's are the opposite ones. A way goes through the
  stages of the segment as its creator sees them and, at the same time, as the attacher sees them.
\<close>

fun flip :: "way \<Rightarrow> way" where
  "flip Outgoing = Incoming"
| "flip Incoming = Outgoing"

lemma flip_simps [simp]: "flip (flip w) = w" "flip w = flip w' \<longleftrightarrow> w = w'" "flip w \<noteq> w" "w \<noteq> flip w"
  by (cases w; cases w'; simp)+

datatype made = NotYet | Sizing nat | Initing nat | Made nat

datatype taken = Polling | Waiting nat | Unlinking nat | Taken nat

definition made :: "party \<Rightarrow> way \<Rightarrow> made" where
  "made c w =
     (case view_of w (chan c) of
        Some x \<Rightarrow> Made x
      | None \<Rightarrow>
          (if \<exists>ops. todo c = Create w # ops
           then case stage c of CreateSize pc x \<Rightarrow> Sizing x | CreateInit pc x \<Rightarrow> Initing x | CreateFree pc x \<Rightarrow> Made x | _ \<Rightarrow> NotYet
           else NotYet))"

definition taken :: "party \<Rightarrow> way \<Rightarrow> taken" where
  "taken c w =
     (case view_of w (chan c) of
        Some x \<Rightarrow> Taken x
      | None \<Rightarrow>
          (if \<exists>ops. todo c = Attach w # ops
           then case stage c of AttachLock pc x \<Rightarrow> Waiting x | AttachUnlink pc x \<Rightarrow> Unlinking x | AttachFree pc x \<Rightarrow> Taken x | _ \<Rightarrow> Polling
           else Polling))"

fun stage_lock :: "stage \<Rightarrow> lock_pc option" where
  "stage_lock (CreateLock pc) = Some pc"
| "stage_lock (CreateSize pc x) = Some pc"
| "stage_lock (CreateInit pc x) = Some pc"
| "stage_lock (CreateFree pc x) = Some pc"
| "stage_lock (AttachLock pc x) = Some pc"
| "stage_lock (AttachUnlink pc x) = Some pc"
| "stage_lock (AttachFree pc x) = Some pc"
| "stage_lock _ = None"

fun getting :: "lock_pc \<Rightarrow> bool" where
  "getting (Opening key) = True"
| "getting (Opened key fd) = True"
| "getting (Locked key fd) = True"
| "getting (Held key fd) = True"
| "getting _ = False"

fun is_held :: "lock_pc \<Rightarrow> bool" where
  "is_held (Held key fd) = True"
| "is_held _ = False"

text \<open>The operations a party has left go with the views it has.\<close>

definition creator_todo :: "party \<Rightarrow> bool" where
  "creator_todo c \<longleftrightarrow>
     (todo c, m_send_buf (chan c) = None, m_recv_buf (chan c) = None) \<in>
       {([Destroy Outgoing, Destroy Incoming, Create Outgoing, Create Incoming, CheckSize], True, True),
        ([Destroy Incoming, Create Outgoing, Create Incoming, CheckSize], True, True),
        ([Create Outgoing, Create Incoming, CheckSize], True, True), ([Create Incoming, CheckSize], False, True),
        ([CheckSize], False, False), ([], False, False)}"

definition attacher_todo :: "party \<Rightarrow> bool" where
  "attacher_todo c \<longleftrightarrow>
     (todo c, m_send_buf (chan c) = None, m_recv_buf (chan c) = None) \<in>
       {([CheckSize, StartAttach, Attach Outgoing, Attach Incoming], True, True),
        ([StartAttach, Attach Outgoing, Attach Incoming], True, True), ([Attach Outgoing, Attach Incoming], True, True),
        ([Attach Incoming], False, True), ([], False, False)} \<and>
     (StartAttach \<in> set (todo c) \<longrightarrow> need_attach (chan c))"

definition creator_stage :: "(way \<Rightarrow> string) \<Rightarrow> party \<Rightarrow> bool" where
  "creator_stage K c \<longleftrightarrow>
     (case stage c of
        Begin \<Rightarrow> True
      | CreateLock pc \<Rightarrow> \<exists>w ops. todo c = Create w # ops \<and> pc_key pc = K w \<and> getting pc
      | CreateSize pc x \<Rightarrow> \<exists>w ops. todo c = Create w # ops \<and> pc_key pc = K w \<and> is_held pc
      | CreateInit pc x \<Rightarrow> \<exists>w ops. todo c = Create w # ops \<and> pc_key pc = K w \<and> is_held pc
      | CreateFree pc x \<Rightarrow> \<exists>w ops. todo c = Create w # ops \<and> pc_key pc = K w \<and> \<not> getting pc
      | _ \<Rightarrow> False)"

definition attacher_stage :: "(way \<Rightarrow> string) \<Rightarrow> party \<Rightarrow> bool" where
  "attacher_stage K c \<longleftrightarrow>
     (case stage c of
        Begin \<Rightarrow> True
      | AttachLock pc x \<Rightarrow> \<exists>w ops. todo c = Attach w # ops \<and> pc_key pc = K (flip w) \<and> getting pc
      | AttachUnlink pc x \<Rightarrow> \<exists>w ops. todo c = Attach w # ops \<and> pc_key pc = K (flip w) \<and> is_held pc
      | AttachFree pc x \<Rightarrow> \<exists>w ops. todo c = Attach w # ops \<and> pc_key pc = K (flip w) \<and> \<not> getting pc
      | _ \<Rightarrow> False)"

definition same_channel :: "i32 \<Rightarrow> bool \<Rightarrow> (way \<Rightarrow> string) \<Rightarrow> mem_channel \<Rightarrow> bool" where
  "same_channel bs ecv K c \<longleftrightarrow> m_buf_size c = bs \<and> m_enable_cv c = ecv \<and> shm_name c = K"

definition fresh_segment :: "shm_env \<Rightarrow> i32 \<Rightarrow> bool \<Rightarrow> segment" where
  "fresh_segment E bs ecv =
     \<lparr>seg_size = sint bs + view_size E, seg_view = (zero_view (unat bs))\<lparr>buf_size := bs, enable_cv := ecv\<rparr>\<rparr>"

definition taken_segment :: "shm_env \<Rightarrow> i32 \<Rightarrow> bool \<Rightarrow> segment" where
  "taken_segment E bs ecv =
     (let g = fresh_segment E bs ecv in if no_asserts E then g else g\<lparr>seg_view := (seg_view g)\<lparr>client_attached := 1\<rparr>\<rparr>)"

fun way_ok :: "shm_env \<Rightarrow> i32 \<Rightarrow> bool \<Rightarrow> system \<Rightarrow> string \<Rightarrow> made \<Rightarrow> taken \<Rightarrow> bool" where
  "way_ok E bs ecv y k NotYet a = (shm_names y k = None \<and> a = Polling)"
| "way_ok E bs ecv y k (Sizing x) a =
     (shm_names y k = Some x \<and> x < length (segments y) \<and> segments y ! x = \<lparr>seg_size = 0, seg_view = zero_view 0\<rparr> \<and>
      a \<in> {Polling, Waiting x})"
| "way_ok E bs ecv y k (Initing x) a =
     (shm_names y k = Some x \<and> x < length (segments y) \<and>
      segments y ! x = \<lparr>seg_size = sint bs + view_size E, seg_view = zero_view (unat bs)\<rparr> \<and> a \<in> {Polling, Waiting x})"
| "way_ok E bs ecv y k (Made x) a =
     (x < length (segments y) \<and>
      (a \<in> {Polling, Waiting x} \<and> shm_names y k = Some x \<and> segments y ! x = fresh_segment E bs ecv \<or>
       a = Unlinking x \<and> shm_names y k = Some x \<and> segments y ! x = taken_segment E bs ecv \<or>
       a = Taken x \<and> shm_names y k = None \<and> segments y ! x = taken_segment E bs ecv))"

fun made_object :: "made \<Rightarrow> nat option" where
  "made_object NotYet = None"
| "made_object (Sizing x) = Some x"
| "made_object (Initing x) = Some x"
| "made_object (Made x) = Some x"

definition relies_on :: "shm_env \<Rightarrow> (nat \<Rightarrow> nat) \<Rightarrow> nat \<Rightarrow> kernel \<Rightarrow> stage \<Rightarrow> bool" where
  "relies_on E proc t k g \<longleftrightarrow>
     (\<forall>pc. stage_lock g = Some pc \<longrightarrow>
       key_relies (proc t) t k pc \<and> (proc 0 \<noteq> proc 1 \<longrightarrow> file_relies (tmp_dir E) (proc t) k pc))"

text \<open>
  Between processes the lock file of a name is deleted only when the creator has no descriptor of it any more.
\<close>

definition past_lock :: "(nat \<Rightarrow> nat) \<Rightarrow> (way \<Rightarrow> string) \<Rightarrow> party \<Rightarrow> party \<Rightarrow> bool" where
  "past_lock proc K c a \<longleftrightarrow>
     (proc 0 \<noteq> proc 1 \<longrightarrow>
       (\<forall>w x pc. taken a (flip w) \<in> {Unlinking x, Taken x} \<and> stage_lock (stage c) = Some pc \<and> pc_key pc = K w \<longrightarrow>
         pc_fd pc = None))"

definition ways_ok :: "shm_env \<Rightarrow> i32 \<Rightarrow> bool \<Rightarrow> (way \<Rightarrow> string) \<Rightarrow> system \<Rightarrow> party \<Rightarrow> party \<Rightarrow> bool" where
  "ways_ok E bs ecv K y c a \<longleftrightarrow>
     (\<forall>w. way_ok E bs ecv y (K w) (made c w) (taken a (flip w))) \<and>
     (\<forall>w w' x. made_object (made c w) = Some x \<and> made_object (made c w') = Some x \<longrightarrow> w = w')"

definition shm_ok :: "shm_env \<Rightarrow> (nat \<Rightarrow> nat) \<Rightarrow> i32 \<Rightarrow> bool \<Rightarrow> (way \<Rightarrow> string) \<Rightarrow> shm_world \<Rightarrow> bool" where
  "shm_ok E proc bs ecv K s \<longleftrightarrow>
     shm_fault s = None \<and>
     creator_todo (creator s) \<and> creator_stage K (creator s) \<and> same_channel bs ecv K (chan (creator s)) \<and>
     attacher_todo (attacher s) \<and> attacher_stage K (attacher s) \<and> same_channel bs ecv (K \<circ> flip) (chan (attacher s)) \<and>
     ways_ok E bs ecv K (sys s) (creator s) (attacher s) \<and>
     relies_on E proc 0 (kern (sys s)) (stage (creator s)) \<and> relies_on E proc 1 (kern (sys s)) (stage (attacher s)) \<and>
     past_lock proc K (creator s) (attacher s)"

definition env_ok :: "shm_env \<Rightarrow> i32 \<Rightarrow> bool \<Rightarrow> bool" where
  "env_ok E bs ecv \<longleftrightarrow>
     valid_buf_size bs \<and> 0 < view_size E \<and> sint bs + view_size E < 2 ^ 31 \<and> (ecv \<longrightarrow> (\<forall>i < 8. pthread_codes E i = 0)) \<and>
     (\<forall>x. grows E x \<and> maps E x)"

section \<open>Single calls\<close>

lemma env_okD:
  assumes "env_ok E bs ecv"
  shows "pow2 bs" "sint bs = int (unat bs)" "unat bs \<le> 1073741824" "0 < view_size E" "sint bs + view_size E < 2147483648" "grows E x" "maps E x"
proof -
  show "pow2 bs"
    using assms by (auto simp: env_ok_def dest: valid_buf_size_pow2)
  then show le: "unat bs \<le> 1073741824"
    by (rule pow2_le)
  show "sint bs = int (unat bs)"
    using le by (intro sint_small) simp
qed (use assms in \<open>simp_all add: env_ok_def\<close>)

lemma map_size_exact:
  assumes "env_ok E bs ecv" "m_buf_size c = bs"
  shows "map_size E c = sint bs + view_size E"
proof -
  note ok = env_okD [OF assms(1)]
  let ?n = "sint bs + view_size E"
  have "bs + of_int (view_size E) = (of_int ?n :: i32)"
    by simp
  moreover have "sint (of_int ?n :: i32) = signed_take_bit 31 ?n"
    by (subst signed_of_int) simp
  moreover have "- 2147483648 \<le> ?n" "?n < 2147483648"
    using ok(2,4,5) by linarith+
  then have "signed_take_bit 31 ?n = ?n"
    by (intro signed_take_bit_int_eq_self) simp_all
  ultimately show ?thesis
    using assms(2) by (simp only: map_size_def)
qed

lemma ftruncate_new:
  assumes "env_ok E bs ecv"
  shows "ftruncate (view_size E) (sint bs + view_size E) \<lparr>seg_size = 0, seg_view = zero_view 0\<rparr> =
    \<lparr>seg_size = sint bs + view_size E, seg_view = zero_view (unat bs)\<rparr>"
proof -
  have "\<not> sint bs + view_size E < 0" "nat (sint bs) = unat bs"
    using env_okD(2,4) [OF assms] by linarith+
  then show ?thesis
    by (simp add: ftruncate_def zero_view_def)
qed

lemma init_new:
  assumes "env_ok E bs ecv"
  shows "init_view (pthread_codes E) (zero_view n) bs ecv = Inr ((zero_view n)\<lparr>buf_size := bs, enable_cv := ecv\<rparr>)"
  using assms by (simp add: init_view_def zero_view_def env_ok_def)

lemma attach_new:
  "attach_init (no_asserts E) (seg_view (fresh_segment E bs ecv)) ecv = Inr (seg_view (taken_segment E bs ecv))"
  "seg_size (fresh_segment E bs ecv) = sint bs + view_size E"
  "(fresh_segment E bs ecv)\<lparr>seg_view := seg_view (taken_segment E bs ecv)\<rparr> = taken_segment E bs ecv"
  by (simp_all add: attach_init_def taken_segment_def fresh_segment_def zero_view_def Let_def)

section \<open>The lock\<close>

lemma relies_on_simps [simp]:
  "relies_on E proc t k Begin"
  "relies_on E proc t k (CreateLock (Opening key))" "relies_on E proc t k (AttachLock (Opening key) x)"
  by (simp_all add: relies_on_def key_relies_def)

lemma relies_on_cong: "stage_lock g = stage_lock h \<Longrightarrow> relies_on E proc t k g = relies_on E proc t k h"
  by (simp add: relies_on_def)

lemma relies_on_give_back:
  assumes "relies_on E proc t k g" "stage_lock g = Some pc" "stage_lock h = Some (give_back pc)"
  shows "relies_on E proc t k h"
  using assms by (cases pc) (auto simp: relies_on_def key_relies_def)

lemma give_back_simps [simp]:
  "pc_key (give_back pc) = pc_key pc" "is_held pc \<Longrightarrow> \<not> getting (give_back pc)" "is_held pc \<Longrightarrow> getting pc"
  "pc_fd (give_back pc) = pc_fd pc"
  by (cases pc; simp)+

lemma lock_run_relies:
  assumes "lock_run E (proc t) t pc y = Some (pc', y')" "stage_lock g = Some pc" "relies_on E proc t (kern y) g"
  shows "\<exists>k. y' = y\<lparr>kern := k\<rparr>" "stage_lock g' = Some pc' \<Longrightarrow> relies_on E proc t (kern y') g'"
    "{t, u} = {0, 1} \<Longrightarrow> relies_on E proc u (kern y) h \<Longrightarrow> relies_on E proc u (kern y') h"
proof -
  have own: "key_relies (proc t) t (kern y) pc" "proc 0 \<noteq> proc 1 \<Longrightarrow> file_relies (tmp_dir E) (proc t) (kern y) pc"
    using assms(2,3) by (auto simp: relies_on_def)
  have cases: "\<exists>k. y' = y\<lparr>kern := k\<rparr> \<and> (get_file_lock (tmp_dir E) (proc t) t True pc (kern y) = Some (pc', k) \<or>
      free_file_lock (proc t) pc (kern y) = Some (pc', k))"
    using assms(1) by (auto simp: lock_run_def split: option.splits)
  then show "\<exists>k. y' = y\<lparr>kern := k\<rparr>"
    by blast
  have step: "key_relies (proc t) t (kern y') pc'" "v \<noteq> t \<Longrightarrow> key_relies (proc v) v (kern y) z \<Longrightarrow> key_relies (proc v) v (kern y') z"
    "proc 0 \<noteq> proc 1 \<Longrightarrow> file_relies (tmp_dir E) (proc t) (kern y') pc'"
    "proc 0 \<noteq> proc 1 \<Longrightarrow> proc v \<noteq> proc t \<Longrightarrow> file_relies (tmp_dir E) (proc v) (kern y) z \<Longrightarrow>
      file_relies (tmp_dir E) (proc v) (kern y') z" for v z
    using cases own get_file_lock_key [of "tmp_dir E" proc t True pc "kern y" pc'] free_file_lock_key [of proc t pc "kern y" pc']
      get_file_lock_file [of "tmp_dir E" proc t pc "kern y" pc'] free_file_lock_file [of proc t pc "kern y" pc' _ "tmp_dir E"]
    by auto
  show "stage_lock g' = Some pc' \<Longrightarrow> relies_on E proc t (kern y') g'"
    using step by (simp add: relies_on_def)
  assume "{t, u} = {0, 1}"
  then have "u \<noteq> t" "proc 0 \<noteq> proc 1 \<Longrightarrow> proc u \<noteq> proc t"
    by (auto simp: doubleton_eq_iff)
  then show "relies_on E proc u (kern y) h \<Longrightarrow> relies_on E proc u (kern y') h"
    using step by (simp add: relies_on_def)
qed

lemma lock_run_moves:
  assumes "lock_run E p t pc y = Some (pc', y')"
  shows "pc_key pc' = pc_key pc" "\<not> is_held pc" "getting pc' = getting pc" "\<not> getting pc \<Longrightarrow> pc_fd pc = None \<Longrightarrow> pc_fd pc' = None"
  using assms by (cases pc; auto simp: lock_run_def open_lock_file_def split: option.splits)+

text \<open>Both cannot be inside.\<close>

lemma not_both_held:
  assumes "relies_on E proc 0 k g" "relies_on E proc 1 k h" "stage_lock g = Some pc" "stage_lock h = Some pc'"
    and "pc_key pc = pc_key pc'" "is_held pc" "is_held pc'"
  shows False
proof -
  obtain fd where pc: "pc = Held (pc_key pc) fd"
    using assms(6) by (cases pc) auto
  obtain fd' where pc': "pc' = Held (pc_key pc) fd'"
    using assms(5,7) by (cases pc') auto
  have key: "key_owner k (proc 0, pc_key pc) = Some 0" "key_owner k (proc 1, pc_key pc) = Some 1"
    using assms(1-4) pc pc' by (metis key_relies_def owns_key.simps(1) pc_key.simps(4) relies_on_def)+
  then have "proc 0 \<noteq> proc 1"
    by auto
  then have "file_relies (tmp_dir E) (proc 0) k pc" "file_relies (tmp_dir E) (proc 1) k pc'"
    using assms(1-4) by (auto simp: relies_on_def)
  then show False
    using \<open>proc 0 \<noteq> proc 1\<close> by (subst (asm) pc, subst (asm) pc') (auto simp: file_relies_def)
qed

text \<open>Whoever is inside, the other one no longer has a descriptor on its way out.\<close>

lemma held_excludes_exit:
  assumes "relies_on E proc 0 k g" "relies_on E proc 1 k h" "stage_lock g = Some pc" "stage_lock h = Some pc'"
    and "pc_key pc = pc_key pc'" "\<not> getting pc" "is_held pc'" "proc 0 \<noteq> proc 1"
  shows "pc_fd pc = None"
proof -
  have "file_relies (tmp_dir E) (proc 0) k pc" "file_relies (tmp_dir E) (proc 1) k pc'"
    using assms by (auto simp: relies_on_def)
  then show ?thesis
    using assms(5-8) by (cases pc; cases pc') (auto simp: file_relies_def)
qed

section \<open>The invariant is kept\<close>

lemma way_ok_kern [simp]: "way_ok E bs ecv (y\<lparr>kern := k\<rparr>) key c a = way_ok E bs ecv y key c a"
  by (cases "(E, bs, ecv, y, key, c, a)" rule: way_ok.cases) simp_all

lemma way_ok_frame:
  assumes "way_ok E bs ecv y key c a" "shm_names y' key = shm_names y key"
    and "\<And>x. made_object c = Some x \<Longrightarrow> x < length (segments y) \<Longrightarrow> x < length (segments y') \<and> segments y' ! x = segments y ! x"
  shows "way_ok E bs ecv y' key c a"
  using assms by (cases "(E, bs, ecv, y, key, c, a)" rule: way_ok.cases) auto

lemma way_ok_object: "way_ok E bs ecv y key c a \<Longrightarrow> made_object c = Some x \<Longrightarrow> x < length (segments y)"
  by (cases "(E, bs, ecv, y, key, c, a)" rule: way_ok.cases) auto

text \<open>A step in the way \<open>w\<close> that touches its name and its object only.\<close>

lemma ways_ok_change:
  assumes old: "ways_ok E bs ecv K y c a" and inj: "inj K"
    and other: "\<And>v. v \<noteq> w \<Longrightarrow> made c' v = made c v \<and> taken a' (flip v) = taken a (flip v)"
    and here: "way_ok E bs ecv y' (K w) (made c' w) (taken a' (flip w))"
    and names: "\<And>k. k \<noteq> K w \<Longrightarrow> shm_names y' k = shm_names y k"
    and object: "made_object (made c' w) = made_object (made c w) \<or> made_object (made c' w) = Some (length (segments y))"
    and others: "\<And>x. made_object (made c w) \<noteq> Some x \<Longrightarrow> x < length (segments y) \<Longrightarrow>
      x < length (segments y') \<and> segments y' ! x = segments y ! x"
  shows "ways_ok E bs ecv K y' c' a'"
proof -
  have ok: "way_ok E bs ecv y (K v) (made c v) (taken a (flip v))" for v
    using old by (simp add: ways_ok_def)
  have apart: "v = v'" if "made_object (made c v) = Some x" "made_object (made c v') = Some x" for v v' x
    using old that by (auto simp: ways_ok_def)
  have small: "x < length (segments y)" if "made_object (made c v) = Some x" for v x
    by (rule way_ok_object [OF ok that])
  have "way_ok E bs ecv y' (K v) (made c' v) (taken a' (flip v))" for v
  proof (cases "v = w")
    case False
    have "way_ok E bs ecv y' (K v) (made c v) (taken a (flip v))"
    proof (rule way_ok_frame [OF ok])
      show "shm_names y' (K v) = shm_names y (K v)"
        using False inj by (intro names) (auto dest: injD)
      show "x < length (segments y') \<and> segments y' ! x = segments y ! x"
        if "made_object (made c v) = Some x" "x < length (segments y)" for x
        using False apart [of v x w] that by (intro others) auto
    qed
    then show ?thesis
      using other [OF False] by simp
  qed (use here in simp)
  moreover have "v = v'" if "made_object (made c' v) = Some x" "made_object (made c' v') = Some x" for v v' x
    using that object other apart small by (metis less_irrefl option.inject)
  ultimately show ?thesis
    by (auto simp: ways_ok_def)
qed

lemma ways_okD:
  assumes "ways_ok E bs ecv K y c a"
  shows "way_ok E bs ecv y (K w) (made c w) (taken a (flip w))"
    "made_object (made c w) = Some x \<Longrightarrow> made_object (made c w') = Some x \<Longrightarrow> w = w'"
  using assms unfolding ways_ok_def by blast+

lemma ways_ok_same:
  assumes "ways_ok E bs ecv K y c a" "\<And>v. made c' v = made c v" "\<And>v. taken a' v = taken a v"
    and "shm_names y' = shm_names y" "segments y' = segments y"
  shows "ways_ok E bs ecv K y' c' a'"
proof -
  have "way_ok E bs ecv y' (K v) (made c v) (taken a (flip v))" for v
    by (rule way_ok_frame [OF ways_okD(1) [OF assms(1)]]) (simp_all add: assms(4,5))
  then show ?thesis
    using ways_okD(2) [OF assms(1)] unfolding ways_ok_def assms(2,3) by blast
qed

lemma made_other: "todo c = Create w # ops \<Longrightarrow> v \<noteq> w \<Longrightarrow> made (c\<lparr>stage := g\<rparr>) v = made c v"
  by (simp add: made_def)

lemma taken_other: "todo c = Attach w # ops \<Longrightarrow> v \<noteq> w \<Longrightarrow> taken (c\<lparr>stage := g\<rparr>) v = taken c v"
  by (simp add: taken_def)

lemma made_here:
  assumes "todo c = Create w # ops" "creator_todo c"
  shows "made c w = (case stage c of CreateSize pc x \<Rightarrow> Sizing x | CreateInit pc x \<Rightarrow> Initing x | CreateFree pc x \<Rightarrow> Made x | _ \<Rightarrow> NotYet)"
  using assms by (cases w) (auto simp: made_def creator_todo_def)

lemma taken_here:
  assumes "todo c = Attach w # ops" "attacher_todo c"
  shows "taken c w = (case stage c of AttachLock pc x \<Rightarrow> Waiting x | AttachUnlink pc x \<Rightarrow> Unlinking x | AttachFree pc x \<Rightarrow> Taken x | _ \<Rightarrow> Polling)"
  using assms by (cases w) (auto simp: taken_def attacher_todo_def)

lemma made_rest: "stage c = Begin \<Longrightarrow> made c w = (case view_of w (chan c) of None \<Rightarrow> NotYet | Some x \<Rightarrow> Made x)"
  by (cases "view_of w (chan c)") (simp_all add: made_def)

lemma taken_rest: "stage c = Begin \<Longrightarrow> taken c w = (case view_of w (chan c) of None \<Rightarrow> Polling | Some x \<Rightarrow> Taken x)"
  by (cases "view_of w (chan c)") (simp_all add: taken_def)

lemma todo_stage [simp]:
  "creator_todo (c\<lparr>stage := g\<rparr>) = creator_todo c" "attacher_todo (c\<lparr>stage := g\<rparr>) = attacher_todo c"
  by (simp_all add: creator_todo_def attacher_todo_def)

lemma set_view_simps [simp]:
  "shm_name (set_view w x fd c) = shm_name c" "m_buf_size (set_view w x fd c) = m_buf_size c"
  "m_enable_cv (set_view w x fd c) = m_enable_cv c" "need_attach (set_view w x fd c) = need_attach c"
proof -
  show "shm_name (set_view w x fd c) = shm_name c"
  proof
    fix v show "shm_name (set_view w x fd c) v = shm_name c v"
      by (cases v; cases w; simp)
  qed
qed (cases w; simp)+

lemma finish_op_simps [simp]:
  "stage (finish_op w x fd c) = Begin" "chan (finish_op w x fd c) = set_view w x fd (chan c)" "todo (finish_op w x fd c) = tl (todo c)"
  by (simp_all add: finish_op_def)

lemma finish_create_todo: "creator_todo c \<Longrightarrow> todo c = Create w # ops \<Longrightarrow> creator_todo (finish_op w x fd c)"
  by (cases w) (auto simp: creator_todo_def)

lemma finish_attach_todo: "attacher_todo c \<Longrightarrow> todo c = Attach w # ops \<Longrightarrow> attacher_todo (finish_op w x fd c)"
  by (cases w) (auto simp: attacher_todo_def)

lemma shm_okD:
  assumes "shm_ok E proc bs ecv K s"
  shows "shm_fault s = None" "creator_todo (creator s)" "creator_stage K (creator s)" "same_channel bs ecv K (chan (creator s))"
    "attacher_todo (attacher s)" "attacher_stage K (attacher s)" "same_channel bs ecv (K \<circ> flip) (chan (attacher s))"
    "ways_ok E bs ecv K (sys s) (creator s) (attacher s)"
    "relies_on E proc 0 (kern (sys s)) (stage (creator s))" "relies_on E proc 1 (kern (sys s)) (stage (attacher s))"
    "past_lock proc K (creator s) (attacher s)"
  using assms by (simp_all add: shm_ok_def)

text \<open>A step of the creator in the way it is making.\<close>

lemma creator_moves:
  assumes ok: "shm_ok E proc bs ecv K s" and inj: "inj K" and head: "todo (creator s) = Create w # ops"
    and stage: "creator_stage K ((creator s)\<lparr>stage := g\<rparr>)"
    and way: "way_ok E bs ecv y (K w) (made ((creator s)\<lparr>stage := g\<rparr>) w) (taken (attacher s) (flip w))"
    and names: "\<And>k. k \<noteq> K w \<Longrightarrow> shm_names y k = shm_names (sys s) k"
    and object: "made_object (made ((creator s)\<lparr>stage := g\<rparr>) w) = made_object (made (creator s) w) \<or>
      made_object (made ((creator s)\<lparr>stage := g\<rparr>) w) = Some (length (segments (sys s)))"
    and others: "\<And>x. made_object (made (creator s) w) \<noteq> Some x \<Longrightarrow> x < length (segments (sys s)) \<Longrightarrow>
      x < length (segments y) \<and> segments y ! x = segments (sys s) ! x"
    and relies: "relies_on E proc 0 (kern y) g" "relies_on E proc 1 (kern y) (stage (attacher s))"
    and past: "\<And>x pc. proc 0 \<noteq> proc 1 \<Longrightarrow> taken (attacher s) (flip w) \<in> {Unlinking x, Taken x} \<Longrightarrow> stage_lock g = Some pc \<Longrightarrow> pc_fd pc = None"
  shows "shm_ok E proc bs ecv K (s\<lparr>creator := (creator s)\<lparr>stage := g\<rparr>, sys := y\<rparr>)"
proof -
  note okD = shm_okD [OF ok]
  have ways: "ways_ok E bs ecv K y ((creator s)\<lparr>stage := g\<rparr>) (attacher s)"
    using made_other [OF head] by (intro ways_ok_change [OF okD(8) inj _ way names object others]) auto
  have "past_lock proc K ((creator s)\<lparr>stage := g\<rparr>) (attacher s)"
    unfolding past_lock_def
  proof (intro impI allI, elim conjE)
    fix v x pc assume a: "proc 0 \<noteq> proc 1" "taken (attacher s) (flip v) \<in> {Unlinking x, Taken x}"
      "stage_lock (stage ((creator s)\<lparr>stage := g\<rparr>)) = Some pc" "pc_key pc = K v"
    have "pc_key pc = K w"
      using stage a(3) head by (auto simp: creator_stage_def split: stage.splits)
    then have "v = w"
      using a(4) inj by (simp add: inj_eq)
    then show "pc_fd pc = None"
      using past [OF a(1)] a(2,3) by simp
  qed
  then show ?thesis
    using okD stage ways relies by (simp add: shm_ok_def)
qed

text \<open>The same when only the position in the lock changes.\<close>

lemma creator_lock_moves:
  assumes ok: "shm_ok E proc bs ecv K s" and inj: "inj K" and head: "todo (creator s) = Create w # ops"
    and lock: "lock_run E (proc 0) 0 pc (sys s) = Some (pc', y)" "stage_lock (stage (creator s)) = Some pc" "stage_lock g = Some pc'"
    and stage: "creator_stage K ((creator s)\<lparr>stage := g\<rparr>)"
    and same: "made ((creator s)\<lparr>stage := g\<rparr>) w = made (creator s) w"
    and past: "getting pc \<Longrightarrow> made (creator s) w = NotYet"
  shows "shm_ok E proc bs ecv K (s\<lparr>creator := (creator s)\<lparr>stage := g\<rparr>, sys := y\<rparr>)"
proof (rule creator_moves [OF ok inj head stage])
  note okD = shm_okD [OF ok]
  note run = lock_run_relies [OF lock(1,2) okD(9)]
  obtain k where y: "y = (sys s)\<lparr>kern := k\<rparr>"
    using run(1) by blast
  show "way_ok E bs ecv y (K w) (made ((creator s)\<lparr>stage := g\<rparr>) w) (taken (attacher s) (flip w))"
    using ways_okD(1) [OF okD(8), of w] by (simp add: same y)
  show "relies_on E proc 0 (kern y) g" "relies_on E proc 1 (kern y) (stage (attacher s))"
    using run(2) [OF lock(3)] run(3) [of 1, OF _ okD(10)] by simp_all
  show "pc_fd qc = None" if p: "proc 0 \<noteq> proc 1" "taken (attacher s) (flip w) \<in> {Unlinking x, Taken x}" "stage_lock g = Some qc" for x qc
  proof -
    have "\<not> getting pc"
      using past p(2) ways_okD(1) [OF okD(8), of w] by auto
    moreover have "pc_fd pc = None"
    proof -
      have "pc_key pc = K w"
        using okD(3) head lock(2) by (auto simp: creator_stage_def split: stage.splits)
      then show ?thesis
        using okD(11) p(1,2) lock(2) unfolding past_lock_def by blast
    qed
    ultimately show ?thesis
      using lock_run_moves(4) [OF lock(1)] lock(3) p(3) by simp
  qed
qed (use same lock_run_relies(1) [OF lock(1,2) shm_okD(9) [OF ok]] in auto)

lemma created_ok:
  assumes ok: "shm_ok E proc bs ecv K s" and inj: "inj K" and env: "env_ok E bs ecv" and head: "todo (creator s) = Create w # ops"
    and run: "create_shm E (proc 0) 0 fd w (creator s) (sys s) = Some r"
  shows "\<exists>c y. r = Inr (c, y) \<and> shm_ok E proc bs ecv K (s\<lparr>creator := c, sys := y\<rparr>)"
proof -
  note okD = shm_okD [OF ok]
  note moves = creator_moves [OF ok inj head]
  have key: "shm_name (chan (creator s)) w = K w" "m_buf_size (chan (creator s)) = bs" "m_enable_cv (chan (creator s)) = ecv"
    using okD(4) by (auto simp: same_channel_def)
  have way: "way_ok E bs ecv (sys s) (K w) (made (creator s) w) (taken (attacher s) (flip w))"
    by (rule ways_okD(1) [OF okD(8)])
  have here: "made ((creator s)\<lparr>stage := g\<rparr>) w =
      (case g of CreateSize pc x \<Rightarrow> Sizing x | CreateInit pc x \<Rightarrow> Initing x | CreateFree pc x \<Rightarrow> Made x | _ \<Rightarrow> NotYet)" for g
    using made_here [of "(creator s)\<lparr>stage := g\<rparr>" w ops] head okD(2) by simp
  have now: "made (creator s) w =
      (case stage (creator s) of CreateSize pc x \<Rightarrow> Sizing x | CreateInit pc x \<Rightarrow> Initing x | CreateFree pc x \<Rightarrow> Made x | _ \<Rightarrow> NotYet)"
    by (rule made_here [OF head okD(2)])
  show ?thesis
  proof (cases "stage (creator s)")
    case Begin
    have "shm_ok E proc bs ecv K (s\<lparr>creator := (creator s)\<lparr>stage := CreateLock (Opening (K w))\<rparr>, sys := sys s\<rparr>)"
      by (rule moves) (use okD(10) way now head in \<open>simp_all add: Begin here creator_stage_def\<close>)
    then show ?thesis
      using run Begin key by (auto simp: create_shm_def)
  next
    case (CreateLock pc)
    then have pc: "pc_key pc = K w" "getting pc"
      using okD(3) head by (auto simp: creator_stage_def)
    show ?thesis
    proof (cases "is_held pc")
      case True
      then obtain lfd where held: "pc = Held (K w) lfd"
        using pc by (cases pc) auto
      have none: "shm_names (sys s) (K w) = None" "taken (attacher s) (flip w) = Polling"
        using way now CreateLock by simp_all
      let ?x = "length (segments (sys s))"
      let ?y = "(sys s)\<lparr>shm_names := (shm_names (sys s))(K w \<mapsto> ?x), segments := segments (sys s) @ [\<lparr>seg_size = 0, seg_view = zero_view 0\<rparr>]\<rparr>"
      have "shm_ok E proc bs ecv K (s\<lparr>creator := (creator s)\<lparr>stage := CreateSize pc ?x\<rparr>, sys := ?y\<rparr>)"
        by (rule moves)
          (use okD(9,10) none now head pc True in \<open>simp_all add: CreateLock here creator_stage_def nth_append relies_on_def\<close>)
      then show ?thesis
        using run CreateLock key held none by (auto simp: Let_def create_shm_def shm_create_def)
    next
      case False
      then obtain pc' y where lock: "lock_run E (proc 0) 0 pc (sys s) = Some (pc', y)" "r = Inr ((creator s)\<lparr>stage := CreateLock pc'\<rparr>, y)"
        using run CreateLock pc by (cases pc) (auto simp: create_shm_def split: option.splits)
      have "shm_ok E proc bs ecv K (s\<lparr>creator := (creator s)\<lparr>stage := CreateLock pc'\<rparr>, sys := y\<rparr>)"
        by (rule creator_lock_moves [OF ok inj head lock(1)])
          (use lock_run_moves [OF lock(1)] pc head now in \<open>simp_all add: CreateLock here creator_stage_def\<close>)
      then show ?thesis
        using lock(2) by blast
    qed
  next
    case (CreateSize pc x)
    then have pc: "pc_key pc = K w" "is_held pc"
      using okD(3) head by (auto simp: creator_stage_def)
    have seg: "segments (sys s) ! x = \<lparr>seg_size = 0, seg_view = zero_view 0\<rparr>" "x < length (segments (sys s))"
        "shm_names (sys s) (K w) = Some x" "taken (attacher s) (flip w) \<in> {Polling, Waiting x}"
      using way now CreateSize by simp_all
    let ?y = "(sys s)\<lparr>segments := (segments (sys s))[x := \<lparr>seg_size = sint bs + view_size E, seg_view = zero_view (unat bs)\<rparr>]\<rparr>"
    have "shm_ok E proc bs ecv K (s\<lparr>creator := (creator s)\<lparr>stage := CreateInit pc x\<rparr>, sys := ?y\<rparr>)"
      by (rule moves)
        (use okD(9,10) seg now head pc in \<open>simp_all add: CreateSize here creator_stage_def relies_on_def, auto\<close>)
    then show ?thesis
      using run CreateSize key seg(1) env_okD(6) [OF env, of x] by (auto simp: Let_def create_shm_def map_size_exact [OF env key(2)] ftruncate_new [OF env])
  next
    case (CreateInit pc x)
    then have pc: "pc_key pc = K w" "is_held pc"
      using okD(3) head by (auto simp: creator_stage_def)
    have seg: "segments (sys s) ! x = \<lparr>seg_size = sint bs + view_size E, seg_view = zero_view (unat bs)\<rparr>" "x < length (segments (sys s))"
        "shm_names (sys s) (K w) = Some x" "taken (attacher s) (flip w) \<in> {Polling, Waiting x}"
      using way now CreateInit by simp_all
    have size: "\<not> sint bs + view_size E < view_size E"
      using env_okD(2) [OF env] by linarith
    let ?y = "(sys s)\<lparr>segments := (segments (sys s))[x := fresh_segment E bs ecv]\<rparr>"
    have "relies_on E proc 0 (kern (sys s)) (CreateFree (give_back pc) x)"
      by (rule relies_on_give_back [OF okD(9)]) (simp_all add: CreateInit)
    then have "shm_ok E proc bs ecv K (s\<lparr>creator := (creator s)\<lparr>stage := CreateFree (give_back pc) x\<rparr>, sys := ?y\<rparr>)"
      by (intro moves) (use okD(10) seg now head pc in \<open>simp_all add: CreateInit here creator_stage_def, auto\<close>)
    then show ?thesis
      using run CreateInit key seg(1) size env_okD(7) [OF env, of x]
      by (auto simp: Let_def create_shm_def map_size_exact [OF env key(2)] init_new [OF env] fresh_segment_def)
  next
    case (CreateFree pc x)
    then have pc: "pc_key pc = K w" "\<not> getting pc"
      using okD(3) head by (auto simp: creator_stage_def)
    show ?thesis
    proof (cases "\<exists>k. pc = Released k")
      case True
      have "creator_todo (finish_op w x fd (creator s))" "same_channel bs ecv K (chan (finish_op w x fd (creator s)))"
        using finish_create_todo [OF okD(2) head] okD(4) by (simp_all add: same_channel_def)
      moreover have "made (finish_op w x fd (creator s)) v = made (creator s) v" for v
        using okD(2) head now by (cases v; cases w) (auto simp: made_def creator_todo_def CreateFree)
      then have "ways_ok E bs ecv K (sys s) (finish_op w x fd (creator s)) (attacher s)"
        by (rule ways_ok_same [OF okD(8)]) simp_all
      ultimately have "shm_ok E proc bs ecv K (s\<lparr>creator := finish_op w x fd (creator s), sys := sys s\<rparr>)"
        using okD(1,5-7,10) by (simp add: shm_ok_def creator_stage_def past_lock_def)
      then show ?thesis
        using run CreateFree True by (auto simp: create_shm_def)
    next
      case False
      then obtain pc' y where lock: "lock_run E (proc 0) 0 pc (sys s) = Some (pc', y)" "r = Inr ((creator s)\<lparr>stage := CreateFree pc' x\<rparr>, y)"
        using run CreateFree pc by (cases pc) (auto simp: create_shm_def split: option.splits)
      have "shm_ok E proc bs ecv K (s\<lparr>creator := (creator s)\<lparr>stage := CreateFree pc' x\<rparr>, sys := y\<rparr>)"
        by (rule creator_lock_moves [OF ok inj head lock(1)])
          (use lock_run_moves [OF lock(1)] pc head now in \<open>simp_all add: CreateFree here creator_stage_def\<close>)
      then show ?thesis
        using lock(2) by blast
    qed
  qed (use okD(3) in \<open>simp_all add: creator_stage_def\<close>)
qed

text \<open>A step of the attacher in the way it is attaching to.\<close>

lemma attacher_moves:
  assumes ok: "shm_ok E proc bs ecv K s" and inj: "inj K" and head: "todo (attacher s) = Attach w # ops"
    and stage: "attacher_stage K ((attacher s)\<lparr>stage := g\<rparr>)"
    and way: "way_ok E bs ecv y (K (flip w)) (made (creator s) (flip w)) (taken ((attacher s)\<lparr>stage := g\<rparr>) w)"
    and names: "\<And>k. k \<noteq> K (flip w) \<Longrightarrow> shm_names y k = shm_names (sys s) k"
    and others: "\<And>x. made_object (made (creator s) (flip w)) \<noteq> Some x \<Longrightarrow> x < length (segments (sys s)) \<Longrightarrow>
      x < length (segments y) \<and> segments y ! x = segments (sys s) ! x"
    and relies: "relies_on E proc 0 (kern y) (stage (creator s))" "relies_on E proc 1 (kern y) g"
    and past: "\<And>x pc. proc 0 \<noteq> proc 1 \<Longrightarrow> taken ((attacher s)\<lparr>stage := g\<rparr>) w \<in> {Unlinking x, Taken x} \<Longrightarrow>
      stage_lock (stage (creator s)) = Some pc \<Longrightarrow> pc_key pc = K (flip w) \<Longrightarrow> pc_fd pc = None"
  shows "shm_ok E proc bs ecv K (s\<lparr>attacher := (attacher s)\<lparr>stage := g\<rparr>, sys := y\<rparr>)"
proof -
  note okD = shm_okD [OF ok]
  let ?a = "(attacher s)\<lparr>stage := g\<rparr>"
  have other: "taken ?a v = taken (attacher s) v" if "v \<noteq> w" for v
    by (rule taken_other [OF head that])
  have ways: "ways_ok E bs ecv K y (creator s) ?a"
  proof (rule ways_ok_change [OF okD(8) inj, where w = "flip w"])
    show "made (creator s) v = made (creator s) v \<and> taken ?a (flip v) = taken (attacher s) (flip v)" if "v \<noteq> flip w" for v
    proof -
      have "flip v \<noteq> w"
        using that by auto
      then show ?thesis
        using other by simp
    qed
  qed (use way names others in simp_all)
  have "past_lock proc K (creator s) ?a"
    unfolding past_lock_def
  proof (intro impI allI, elim conjE)
    fix v x pc assume a: "proc 0 \<noteq> proc 1" "taken ?a (flip v) \<in> {Unlinking x, Taken x}"
      "stage_lock (stage (creator s)) = Some pc" "pc_key pc = K v"
    show "pc_fd pc = None"
    proof (cases "flip v = w")
      case True
      then have "v = flip w"
        by auto
      then show ?thesis
        using past [OF a(1)] a(2-4) True by simp
    next
      case False
      then show ?thesis
        using a okD(11) other unfolding past_lock_def by metis
    qed
  qed
  then show ?thesis
    using okD stage ways relies by (simp add: shm_ok_def)
qed

lemma attacher_lock_moves:
  assumes ok: "shm_ok E proc bs ecv K s" and inj: "inj K" and head: "todo (attacher s) = Attach w # ops"
    and lock: "lock_run E (proc 1) 1 pc (sys s) = Some (pc', y)" "stage_lock (stage (attacher s)) = Some pc" "stage_lock g = Some pc'"
    and stage: "attacher_stage K ((attacher s)\<lparr>stage := g\<rparr>)"
    and same: "taken ((attacher s)\<lparr>stage := g\<rparr>) w = taken (attacher s) w"
  shows "shm_ok E proc bs ecv K (s\<lparr>attacher := (attacher s)\<lparr>stage := g\<rparr>, sys := y\<rparr>)"
proof (rule attacher_moves [OF ok inj head stage])
  note okD = shm_okD [OF ok]
  note run = lock_run_relies [OF lock(1,2) okD(10)]
  obtain k where y: "y = (sys s)\<lparr>kern := k\<rparr>"
    using run(1) by blast
  show "way_ok E bs ecv y (K (flip w)) (made (creator s) (flip w)) (taken ((attacher s)\<lparr>stage := g\<rparr>) w)"
    using ways_okD(1) [OF okD(8), of "flip w"] by (simp add: same y)
  show "relies_on E proc 0 (kern y) (stage (creator s))" "relies_on E proc 1 (kern y) g"
    using run(2) [OF lock(3)] run(3) [of 0, OF _ okD(9)] by (simp_all add: insert_commute)
  show "pc_fd qc = None" if "proc 0 \<noteq> proc 1" "taken ((attacher s)\<lparr>stage := g\<rparr>) w \<in> {Unlinking x, Taken x}"
      "stage_lock (stage (creator s)) = Some qc" "pc_key qc = K (flip w)" for x qc
    using okD(11) that unfolding past_lock_def same by (metis flip_simps(1))
qed (use lock_run_relies(1) [OF lock(1,2) shm_okD(10) [OF ok]] in auto)

text \<open>What the creator may be doing while the attacher is inside.\<close>

lemma sizing_held:
  assumes "creator_stage K c" "made c v = Sizing x \<or> made c v = Initing x"
  shows "\<exists>pc. stage_lock (stage c) = Some pc \<and> pc_key pc = K v \<and> is_held pc"
  using assms by (auto simp: made_def creator_stage_def split: option.splits stage.splits if_splits)

lemma made_exit:
  assumes "creator_stage K c" "creator_todo c" "inj K" "made c v = Made x" "stage_lock (stage c) = Some pc" "pc_key pc = K v"
  shows "\<not> getting pc"
proof -
  obtain w ops where w: "todo c = Create w # ops" "pc_key pc = K w"
    using assms(1,5) by (auto simp: creator_stage_def split: stage.splits)
  then have "w = v"
    using assms(3,6) by (simp add: inj_eq)
  then show ?thesis
    using made_here [OF w(1) assms(2)] assms(1,4,5) by (auto simp: creator_stage_def split: stage.splits)
qed

lemma key_owner_delete [simp]: "key_owner (delete_file_lock tmp key k) = key_owner k"
  by (simp add: delete_file_lock_def)

lemma delete_file_relies:
  assumes "file_relies tmp p k pc" "pc_key pc = key \<longrightarrow> pc_fd pc = None"
  shows "file_relies tmp p (delete_file_lock tmp key k) pc"
  using assms by (auto simp: file_relies_def delete_file_lock_def lock_file_def)

lemma attached_ok:
  assumes ok: "shm_ok E proc bs ecv K s" and inj: "inj K" and env: "env_ok E bs ecv" and head: "todo (attacher s) = Attach w # ops"
    and run: "attach_shm E (proc 1) 1 fd w (attacher s) (sys s) = Some r"
  shows "\<exists>c y. r = Inr (c, y) \<and> shm_ok E proc bs ecv K (s\<lparr>attacher := c, sys := y\<rparr>)"
proof -
  note okD = shm_okD [OF ok]
  note moves = attacher_moves [OF ok inj head]
  have key: "shm_name (chan (attacher s)) w = K (flip w)" "m_enable_cv (chan (attacher s)) = ecv"
    using okD(7) by (auto simp: same_channel_def)
  have way: "way_ok E bs ecv (sys s) (K (flip w)) (made (creator s) (flip w)) (taken (attacher s) w)"
    using ways_okD(1) [OF okD(8), of "flip w"] by simp
  have here: "taken ((attacher s)\<lparr>stage := g\<rparr>) w =
      (case g of AttachLock pc x \<Rightarrow> Waiting x | AttachUnlink pc x \<Rightarrow> Unlinking x | AttachFree pc x \<Rightarrow> Taken x | _ \<Rightarrow> Polling)" for g
    using taken_here [of "(attacher s)\<lparr>stage := g\<rparr>" w ops] head okD(5) by simp
  have now: "taken (attacher s) w =
      (case stage (attacher s) of AttachLock pc x \<Rightarrow> Waiting x | AttachUnlink pc x \<Rightarrow> Unlinking x | AttachFree pc x \<Rightarrow> Taken x | _ \<Rightarrow> Polling)"
    by (rule taken_here [OF head okD(5)])
  show ?thesis
  proof (cases "stage (attacher s)")
    case Begin
    show ?thesis
    proof (cases "shm_names (sys s) (K (flip w))")
      case None
      then show ?thesis
        using run Begin key ok by (auto simp: attach_shm_def)
    next
      case (Some x)
      have "shm_ok E proc bs ecv K (s\<lparr>attacher := (attacher s)\<lparr>stage := AttachLock (Opening (K (flip w))) x\<rparr>, sys := sys s\<rparr>)"
        by (rule moves)
          (use okD(9) way now head Some in \<open>auto simp: Begin here attacher_stage_def elim!: way_ok.elims\<close>)
      then show ?thesis
        using run Begin key Some by (auto simp: attach_shm_def)
    qed
  next
    case (AttachLock pc x)
    then have pc: "pc_key pc = K (flip w)" "getting pc"
      using okD(6) head by (auto simp: attacher_stage_def)
    show ?thesis
    proof (cases "is_held pc")
      case True
      then obtain lfd where held: "pc = Held (K (flip w)) lfd"
        using pc by (cases pc) auto
      have lock: "stage_lock (stage (attacher s)) = Some pc"
        by (simp add: AttachLock)
      have made: "made (creator s) (flip w) = Made x"
      proof -
        have False if "made (creator s) (flip w) = Sizing x \<or> made (creator s) (flip w) = Initing x"
          using sizing_held [OF okD(3) that] not_both_held [OF okD(9,10) _ lock _ _ True] pc(1) by metis
        then show ?thesis
          using way now AttachLock by (auto elim!: way_ok.elims)
      qed
      have seg: "segments (sys s) ! x = fresh_segment E bs ecv" "x < length (segments (sys s))" "shm_names (sys s) (K (flip w)) = Some x"
        using way now AttachLock made by simp_all
      let ?y = "(sys s)\<lparr>segments := (segments (sys s))[x := taken_segment E bs ecv]\<rparr>"
      have "pc_fd qc = None" if "proc 0 \<noteq> proc 1" "stage_lock (stage (creator s)) = Some qc" "pc_key qc = K (flip w)" for qc
        by (rule held_excludes_exit [OF okD(9,10) that(2) lock _ _ True that(1)])
          (use pc(1) that(3) made_exit [OF okD(3,2) inj made that(2,3)] in simp_all)
      then have "shm_ok E proc bs ecv K (s\<lparr>attacher := (attacher s)\<lparr>stage := AttachUnlink pc x\<rparr>, sys := ?y\<rparr>)"
        by (intro moves) (use okD(9,10) seg now head pc True made in \<open>auto simp: AttachLock here attacher_stage_def relies_on_def nth_list_update\<close>)
      moreover have "\<not> sint bs + view_size E < view_size E"
        using env_okD(2) [OF env] by linarith
      ultimately show ?thesis
        using run AttachLock key held seg(1) attach_new [of E bs ecv] env_okD(7) [OF env, of x] by (auto simp: attach_shm_def Let_def)
    next
      case False
      then obtain pc' y where lock: "lock_run E (proc 1) 1 pc (sys s) = Some (pc', y)" "r = Inr ((attacher s)\<lparr>stage := AttachLock pc' x\<rparr>, y)"
        using run AttachLock pc by (cases pc) (auto simp: attach_shm_def Let_def split: option.splits)
      have "shm_ok E proc bs ecv K (s\<lparr>attacher := (attacher s)\<lparr>stage := AttachLock pc' x\<rparr>, sys := y\<rparr>)"
        by (rule attacher_lock_moves [OF ok inj head lock(1)])
          (use lock_run_moves [OF lock(1)] pc head now in \<open>simp_all add: AttachLock here attacher_stage_def\<close>)
      then show ?thesis
        using lock(2) by blast
    qed
  next
    case (AttachUnlink pc x)
    then have pc: "pc_key pc = K (flip w)" "is_held pc"
      using okD(6) head by (auto simp: attacher_stage_def)
    have made: "made (creator s) (flip w) = Made x"
      using way now AttachUnlink by (auto elim!: way_ok.elims)
    have "relies_on E proc 1 (kern (sys s)) (AttachFree (give_back pc) x)"
      by (rule relies_on_give_back [OF okD(10)]) (simp_all add: AttachUnlink)
    moreover have "pc_fd qc = None" if "proc 0 \<noteq> proc 1" "stage_lock (stage (creator s)) = Some qc" "pc_key qc = K (flip w)" for qc
    proof -
      have "taken (attacher s) (flip (flip w)) \<in> {Unlinking x, Taken x}"
        using now AttachUnlink by simp
      then show ?thesis
        using okD(11) that unfolding past_lock_def by blast
    qed
    ultimately have "shm_ok E proc bs ecv K
        (s\<lparr>attacher := (attacher s)\<lparr>stage := AttachFree (give_back pc) x\<rparr>, sys := shm_unlink (K (flip w)) (sys s)\<rparr>)"
      by (intro moves) (use okD(9) way now head pc made in \<open>auto simp: AttachUnlink here attacher_stage_def shm_unlink_def\<close>)
    then show ?thesis
      using run AttachUnlink key by (auto simp: attach_shm_def Let_def)
  next
    case (AttachFree pc x)
    then have pc: "pc_key pc = K (flip w)" "\<not> getting pc"
      using okD(6) head by (auto simp: attacher_stage_def)
    show ?thesis
    proof (cases "\<exists>k. pc = Released k")
      case True
      have same: "taken (finish_op w x fd (attacher s)) v = taken (attacher s) v" for v
        using okD(5) head now by (cases v; cases w) (auto simp: taken_def attacher_todo_def AttachFree)
      let ?y = "(sys s)\<lparr>kern := delete_file_lock (tmp_dir E) (K (flip w)) (kern (sys s))\<rparr>"
      have "ways_ok E bs ecv K ?y (creator s) (finish_op w x fd (attacher s))"
        by (rule ways_ok_same [OF okD(8) _ same]) simp_all
      moreover have "pc_fd qc = None" if "proc 0 \<noteq> proc 1" "stage_lock (stage (creator s)) = Some qc" "pc_key qc = K (flip w)" for qc
      proof -
        have "taken (attacher s) (flip (flip w)) \<in> {Unlinking x, Taken x}"
          using now AttachFree by simp
        then show ?thesis
          using okD(11) that unfolding past_lock_def by blast
      qed
      then have "relies_on E proc 0 (kern ?y) (stage (creator s))"
        using okD(9) by (auto simp: relies_on_def key_relies_def intro!: delete_file_relies)
      moreover have "past_lock proc K (creator s) (finish_op w x fd (attacher s))"
        using okD(11) by (simp add: past_lock_def same)
      moreover have "same_channel bs ecv (K \<circ> flip) (chan (finish_op w x fd (attacher s)))"
        using okD(7) by (simp add: same_channel_def)
      ultimately have "shm_ok E proc bs ecv K (s\<lparr>attacher := finish_op w x fd (attacher s), sys := ?y\<rparr>)"
        using okD(1-4) finish_attach_todo [OF okD(5) head] by (simp add: shm_ok_def attacher_stage_def)
      then show ?thesis
        using run AttachFree True key by (auto simp: attach_shm_def Let_def)
    next
      case False
      then obtain pc' y where lock: "lock_run E (proc 1) 1 pc (sys s) = Some (pc', y)" "r = Inr ((attacher s)\<lparr>stage := AttachFree pc' x\<rparr>, y)"
        using run AttachFree pc by (cases pc) (auto simp: attach_shm_def Let_def split: option.splits)
      have "shm_ok E proc bs ecv K (s\<lparr>attacher := (attacher s)\<lparr>stage := AttachFree pc' x\<rparr>, sys := y\<rparr>)"
        by (rule attacher_lock_moves [OF ok inj head lock(1)])
          (use lock_run_moves [OF lock(1)] pc head now in \<open>simp_all add: AttachFree here attacher_stage_def\<close>)
      then show ?thesis
        using lock(2) by blast
    qed
  qed (use okD(6) in \<open>simp_all add: attacher_stage_def\<close>)
qed

text \<open>All steps.\<close>

lemma creator_step_ok:
  assumes ok: "shm_ok E proc bs ecv K s" and inj: "inj K" and env: "env_ok E bs ecv"
    and run: "party_step E (proc 0) 0 fd (creator s) (sys s) = Some r"
  shows "\<exists>c y. r = Inr (c, y) \<and> shm_ok E proc bs ecv K (s\<lparr>creator := c, sys := y\<rparr>)"
proof (cases "\<exists>w ops. todo (creator s) = Create w # ops")
  case True
  then show ?thesis
    using run created_ok [OF ok inj env] by (auto simp: party_step_def)
next
  case False
  note okD = shm_okD [OF ok]
  have rest: "stage (creator s) = Begin"
    using False okD(3) by (auto simp: creator_stage_def split: stage.splits)
  have kept: "shm_ok E proc bs ecv K (s\<lparr>creator := (creator s)\<lparr>todo := ops\<rparr>, sys := y\<rparr>)"
    if "creator_todo ((creator s)\<lparr>todo := ops\<rparr>)" "shm_names y = shm_names (sys s)" "segments y = segments (sys s)" "kern y = kern (sys s)"
    for ops y
  proof -
    have "made ((creator s)\<lparr>todo := ops\<rparr>) v = made (creator s) v" for v
      by (simp add: made_rest rest)
    then have "ways_ok E bs ecv K y ((creator s)\<lparr>todo := ops\<rparr>) (attacher s)"
      by (rule ways_ok_same [OF okD(8)]) (simp_all add: that)
    then show ?thesis
      using okD that by (simp add: shm_ok_def rest creator_stage_def past_lock_def)
  qed
  consider w ops where "todo (creator s) = Destroy w # ops" | ops where "todo (creator s) = CheckSize # ops" | "todo (creator s) = []"
    using False okD(2) by (auto simp: creator_todo_def)
  then show ?thesis
  proof cases
    case 1
    have "made (creator s) w = NotYet"
      using 1 okD(2) by (cases w) (auto simp: made_def creator_todo_def)
    then have "shm_names (sys s) (K w) = None"
      using ways_okD(1) [OF okD(8), of w] by simp
    moreover have "shm_name (chan (creator s)) w = K w"
      using okD(4) by (simp add: same_channel_def)
    moreover have "creator_todo ((creator s)\<lparr>todo := ops\<rparr>)"
      using 1 okD(2) by (auto simp: creator_todo_def)
    ultimately show ?thesis
      using run 1 kept [of ops "shm_unlink (K w) (sys s)"] by (auto simp: party_step_def shm_unlink_def fun_upd_idem)
  next
    case 2
    have "creator_todo ((creator s)\<lparr>todo := ops\<rparr>)"
      using 2 okD(2) by (auto simp: creator_todo_def)
    moreover have "valid_buf_size (m_buf_size (chan (creator s)))"
      using env okD(4) by (simp add: env_ok_def same_channel_def)
    ultimately show ?thesis
      using run 2 kept [of ops "sys s"] by (auto simp: party_step_def)
  next
    case 3
    then show ?thesis
      using run by (simp add: party_step_def)
  qed
qed

lemma attacher_step_ok:
  assumes ok: "shm_ok E proc bs ecv K s" and inj: "inj K" and env: "env_ok E bs ecv"
    and run: "party_step E (proc 1) 1 fd (attacher s) (sys s) = Some r"
  shows "\<exists>c y. r = Inr (c, y) \<and> shm_ok E proc bs ecv K (s\<lparr>attacher := c, sys := y\<rparr>)"
proof (cases "\<exists>w ops. todo (attacher s) = Attach w # ops")
  case True
  then show ?thesis
    using run attached_ok [OF ok inj env] by (auto simp: party_step_def)
next
  case False
  note okD = shm_okD [OF ok]
  have rest: "stage (attacher s) = Begin"
    using False okD(6) by (auto simp: attacher_stage_def split: stage.splits)
  have kept: "shm_ok E proc bs ecv K (s\<lparr>attacher := c, sys := sys s\<rparr>)"
    if "attacher_todo c" "stage c = Begin" "shm_name (chan c) = shm_name (chan (attacher s))"
      "m_buf_size (chan c) = m_buf_size (chan (attacher s))" "m_enable_cv (chan c) = m_enable_cv (chan (attacher s))"
      "\<And>w. view_of w (chan c) = view_of w (chan (attacher s))" for c
  proof -
    have same: "taken c v = taken (attacher s) v" for v
      by (simp add: taken_rest rest that)
    have "ways_ok E bs ecv K (sys s) (creator s) c"
      by (rule ways_ok_same [OF okD(8) _ same]) simp_all
    then show ?thesis
      using okD that by (simp add: shm_ok_def attacher_stage_def past_lock_def same same_channel_def)
  qed
  consider ops where "todo (attacher s) = CheckSize # ops" | ops where "todo (attacher s) = StartAttach # ops" | "todo (attacher s) = []"
    using False okD(5) by (auto simp: attacher_todo_def)
  then show ?thesis
  proof cases
    case 1
    have "valid_buf_size (m_buf_size (chan (attacher s)))"
      using env okD(7) by (simp add: env_ok_def same_channel_def)
    moreover have "shm_ok E proc bs ecv K (s\<lparr>attacher := (attacher s)\<lparr>todo := ops\<rparr>, sys := sys s\<rparr>)"
      by (rule kept) (use 1 okD(5) rest in \<open>auto simp: attacher_todo_def\<close>)
    ultimately show ?thesis
      using run 1 by (auto simp: party_step_def)
  next
    case 2
    let ?c = "(attacher s)\<lparr>chan := (chan (attacher s))\<lparr>need_attach := False\<rparr>, todo := ops\<rparr>"
    have "need_attach (chan (attacher s))"
      using okD(5) 2 by (simp add: attacher_todo_def)
    moreover have views: "view_of w (chan ?c) = view_of w (chan (attacher s))" "shm_name (chan ?c) w = shm_name (chan (attacher s)) w" for w
      by (cases w; simp)+
    have "shm_ok E proc bs ecv K (s\<lparr>attacher := ?c, sys := sys s\<rparr>)"
      by (rule kept) (use 2 okD(5) rest views in \<open>auto simp: attacher_todo_def intro!: ext\<close>)
    ultimately show ?thesis
      using run 2 by (auto simp: party_step_def)
  next
    case 3
    then show ?thesis
      using run by (simp add: party_step_def)
  qed
qed

interpretation shm_inv: machine_invariant "shm_fire E proc" "\<lambda>s. inj K \<and> env_ok E bs ecv \<and> shm_ok E proc bs ecv K s"
  for E proc K bs ecv
proof
  fix s s' l assume inv: "inj K \<and> env_ok E bs ecv \<and> shm_ok E proc bs ecv K s" and run: "shm_fire E proc l s = Some s'"
  obtain first fd where l: "l = (first, fd)"
    by (cases l)
  have "shm_ok E proc bs ecv K s'"
  proof (cases first)
    case True
    then obtain r where "party_step E (proc 0) 0 fd (creator s) (sys s) = Some r"
        "s' = (case r of Inl e \<Rightarrow> s\<lparr>shm_fault := Some e\<rparr> | Inr (c, y) \<Rightarrow> s\<lparr>creator := c, sys := y\<rparr>)"
      using run l by (auto split: if_splits option.splits sum.splits)
    then show ?thesis
      using creator_step_ok [of E proc bs ecv K s fd r] inv by auto
  next
    case False
    then obtain r where "party_step E (proc 1) 1 fd (attacher s) (sys s) = Some r"
        "s' = (case r of Inl e \<Rightarrow> s\<lparr>shm_fault := Some e\<rparr> | Inr (c, y) \<Rightarrow> s\<lparr>attacher := c, sys := y\<rparr>)"
      using run l by (auto split: if_splits option.splits sum.splits)
    then show ?thesis
      using attacher_step_ok [of E proc bs ecv K s fd r] inv by auto
  qed
  then show "inj K \<and> env_ok E bs ecv \<and> shm_ok E proc bs ecv K s'"
    using inv by blast
qed

section \<open>The handshake\<close>

lemma MemChannel_chan:
  "m_from_party (chan (MemChannel a b taskid ecv bs)) = a" "m_to_party (chan (MemChannel a b taskid ecv bs)) = b"
  "m_channelid (chan (MemChannel a b taskid ecv bs)) = taskid" "m_buf_size (chan (MemChannel a b taskid ecv bs)) = bs"
  "m_enable_cv (chan (MemChannel a b taskid ecv bs)) = ecv" "need_attach (chan (MemChannel a b taskid ecv bs)) = (\<not> a < b)"
  "m_send_buf (chan (MemChannel a b taskid ecv bs)) = None" "m_recv_buf (chan (MemChannel a b taskid ecv bs)) = None"
  "stage (MemChannel a b taskid ecv bs) = Begin"
  unfolding MemChannel_def Let_def by (simp_all add: ichannel.defs IChannel_def)

lemma MemChannel_names:
  "shm_name (chan (MemChannel a b taskid ecv bs)) Outgoing = get_shm_key a b taskid"
  "shm_name (chan (MemChannel a b taskid ecv bs)) Incoming = get_shm_key b a taskid"
  by (simp_all only: shm_name.simps MemChannel_chan(1-3))

lemma handshake_start_ok:
  assumes "a < b" "env_ok E bs ecv" "shm_names y (get_shm_key a b taskid) = None" "shm_names y (get_shm_key b a taskid) = None"
  defines "K \<equiv> shm_name (chan (MemChannel a b taskid ecv bs))"
  shows "inj K" "shm_ok E proc bs ecv K (handshake_start a b taskid ecv bs y)"
proof -
  have K: "K Outgoing = get_shm_key a b taskid" "K Incoming = get_shm_key b a taskid"
    unfolding K_def by (rule MemChannel_names)+
  have apart: "K Outgoing \<noteq> K Incoming"
    using assms(1) shm_key_parts [of a b taskid b a taskid] by (auto simp: K)
  show "inj K"
  proof (rule injI)
    fix v w assume "K v = K w"
    then show "v = w"
      using apart by (cases v; cases w; simp)
  qed
  have none: "shm_names y (K w) = None" for w
    using assms(3,4) by (cases w) (simp_all add: K)
  have views: "view_of w (chan (MemChannel c d taskid ecv bs)) = None" for w c d
    by (cases w) (simp_all add: MemChannel_chan(7,8))
  have flipped: "shm_name (chan (MemChannel b a taskid ecv bs)) = K \<circ> flip"
  proof
    fix w show "shm_name (chan (MemChannel b a taskid ecv bs)) w = (K \<circ> flip) w"
      by (cases w) (simp_all add: K MemChannel_chan(1-3))
  qed
  have todos: "todo (MemChannel a b taskid ecv bs) = [Destroy Outgoing, Destroy Incoming, Create Outgoing, Create Incoming, CheckSize]"
      "todo (MemChannel b a taskid ecv bs) = [CheckSize]" "need_attach (chan (MemChannel b a taskid ecv bs))"
    using assms(1) unfolding MemChannel_def Let_def by (auto simp: ichannel.defs IChannel_def)
  have "\<not> b < a"
    using assms(1) by (rule less_not_sym)
  then show "shm_ok E proc bs ecv K (handshake_start a b taskid ecv bs y)"
    by (simp add: shm_ok_def handshake_start_def attach_def creator_todo_def attacher_todo_def creator_stage_def attacher_stage_def
        same_channel_def ways_ok_def past_lock_def made_rest taken_rest views MemChannel_chan todos none flipped K_def [symmetric])
qed

lemma taken_segment_ok:
  assumes "env_ok E bs ecv"
  shows "ring_ok (seg_view (taken_segment E bs ecv))" "contents (seg_view (taken_segment E bs ecv)) = []"
    "buf_size (seg_view (taken_segment E bs ecv)) = bs" "enable_cv (seg_view (taken_segment E bs ecv)) = ecv"
    "client_attached (seg_view (taken_segment E bs ecv)) = (if no_asserts E then 0 else 1)"
  using env_okD(1) [OF assms]
  by (simp_all add: taken_segment_def fresh_segment_def zero_view_def Let_def ring_ok_def used_def contents_def)

lemma handshake_ok:
  assumes "a < b" "env_ok E bs ecv" "shm_names y (get_shm_key a b taskid) = None" "shm_names y (get_shm_key b a taskid) = None"
    and "reach (shm_fire E proc) (handshake_start a b taskid ecv bs y) s"
  shows "shm_ok E proc bs ecv (shm_name (chan (MemChannel a b taskid ecv bs))) s"
  using shm_inv.always [OF assms(5)] handshake_start_ok [OF assms(1-4)] assms(2) by blast

lemma handshake_done:
  assumes ok: "shm_ok E proc bs ecv K s" and "todo (creator s) = []" "todo (attacher s) = []"
  obtains x z where "x \<noteq> z" "m_send_buf (chan (creator s)) = Some x" "m_recv_buf (chan (attacher s)) = Some x"
    "m_recv_buf (chan (creator s)) = Some z" "m_send_buf (chan (attacher s)) = Some z"
    "segments (sys s) ! x = taken_segment E bs ecv" "segments (sys s) ! z = taken_segment E bs ecv"
    "shm_names (sys s) (K Outgoing) = None" "shm_names (sys s) (K Incoming) = None"
proof -
  note okD = shm_okD [OF ok]
  obtain x z x' z' where bufs: "m_send_buf (chan (creator s)) = Some x" "m_recv_buf (chan (creator s)) = Some z"
      "m_send_buf (chan (attacher s)) = Some z'" "m_recv_buf (chan (attacher s)) = Some x'"
    using okD(2,5) assms(2,3) by (auto simp: creator_todo_def attacher_todo_def)
  have made: "made (creator s) Outgoing = Made x" "made (creator s) Incoming = Made z"
      "taken (attacher s) Outgoing = Taken z'" "taken (attacher s) Incoming = Taken x'"
    by (simp_all add: made_def taken_def bufs)
  then have "x' = x" "z' = z" "segments (sys s) ! x = taken_segment E bs ecv" "segments (sys s) ! z = taken_segment E bs ecv"
      "shm_names (sys s) (K Outgoing) = None" "shm_names (sys s) (K Incoming) = None"
    using ways_okD(1) [OF okD(8), of Outgoing] ways_okD(1) [OF okD(8), of Incoming] by simp_all
  moreover have "x \<noteq> z"
    using ways_okD(2) [OF okD(8), of Outgoing x Incoming] made by auto
  ultimately show ?thesis
    using bufs by (intro that [of x z]) simp_all
qed

text \<open>
  C5: Two parties that start on names nobody uses find each other, whatever the interleaving of their system calls and
  whether they are threads of one process or of two: no access before a segment has its size, no failed assertion; and when
  both are through, what one sends into is what the other receives from, both rings are initialised as the
  channels were constructed and empty, and the names are gone.
\<close>
theorem shm_handshake:
  assumes "a < b" "env_ok E bs ecv" "shm_names y (get_shm_key a b taskid) = None" "shm_names y (get_shm_key b a taskid) = None"
    and "reach (shm_fire E proc) (handshake_start a b taskid ecv bs y) s"
  shows "shm_fault s = None \<and>
    (todo (creator s) = [] \<and> todo (attacher s) = [] \<longrightarrow>
      (\<exists>x z. x \<noteq> z \<and> m_send_buf (chan (creator s)) = Some x \<and> m_recv_buf (chan (attacher s)) = Some x \<and>
        m_recv_buf (chan (creator s)) = Some z \<and> m_send_buf (chan (attacher s)) = Some z \<and>
        (\<forall>v \<in> {seg_view (segments (sys s) ! x), seg_view (segments (sys s) ! z)}.
          ring_ok v \<and> contents v = [] \<and> buf_size v = bs \<and> enable_cv v = ecv \<and> client_attached v = (if no_asserts E then 0 else 1))) \<and>
      shm_names (sys s) (get_shm_key a b taskid) = None \<and> shm_names (sys s) (get_shm_key b a taskid) = None)"
proof -
  let ?K = "shm_name (chan (MemChannel a b taskid ecv bs))"
  have ok: "shm_ok E proc bs ecv ?K s"
    by (rule handshake_ok [OF assms])
  show ?thesis
  proof (cases "todo (creator s) = [] \<and> todo (attacher s) = []")
    case True
    show ?thesis
      by (rule handshake_done [OF ok, unfolded MemChannel_names]) (use True shm_okD(1) [OF ok] taken_segment_ok [OF assms(2)] in simp_all)
  qed (use shm_okD(1) [OF ok] in auto)
qed

definition demo_env :: shm_env where
  "demo_env = \<lparr>tmp_dir = ''/tmp'', view_size = 640, no_asserts = False, pthread_codes = (\<lambda>_. 0), grows = (\<lambda>_. True), maps = (\<lambda>_. True)\<rparr>"

definition empty_system :: system where
  "empty_system = \<lparr>kern = boot, shm_names = (\<lambda>_. None), segments = []\<rparr>"

text \<open>
  The attacher polls in vain, then finds a segment that has no size yet and has to wait for the lock before it may
  look at it.
\<close>

definition demo_handshake :: "(bool \<times> int) list" where
  "demo_handshake = replicate 3 (False, 5) @ replicate 18 (True, 6) @ replicate 2 (False, 7) @ replicate 5 (True, 8) @ replicate 16 (False, 9)"

lemma demo_env_ok: "env_ok demo_env 8 True"
proof -
  have "valid_buf_size 8"
    by code_simp
  then show ?thesis
    by (simp add: env_ok_def demo_env_def)
qed

theorem shm_handshake_witness:
  "\<exists>s. run_actions (shm_fire demo_env id) demo_handshake (handshake_start 1 2 ''t'' True 8 empty_system) = Some s \<and>
    m_send_buf (chan (creator s)) = m_recv_buf (chan (attacher s)) \<and> m_send_buf (chan (creator s)) \<noteq> m_recv_buf (chan (creator s)) \<and>
    run_actions (shm_fire demo_env id) (take 23 demo_handshake @ [(False, 9)]) (handshake_start 1 2 ''t'' True 8 empty_system) = None"
proof -
  let ?s0 = "handshake_start 1 2 ''t'' True 8 empty_system"
  have "map_option (\<lambda>s. (todo (creator s), todo (attacher s))) (run_actions (shm_fire demo_env id) demo_handshake ?s0) = Some ([], [])"
    by code_simp
  then obtain s where s: "run_actions (shm_fire demo_env id) demo_handshake ?s0 = Some s" "reach (shm_fire demo_env id) ?s0 s"
      "(todo (creator s), todo (attacher s)) = ([], [])"
    by (rule run_part)
  have "(1 :: u32) < 2" "shm_names empty_system k = None" for k
    by (simp_all add: empty_system_def)
  from shm_handshake [OF this(1) demo_env_ok this(2,2) s(2)] s(3)
  have "m_send_buf (chan (creator s)) = m_recv_buf (chan (attacher s)) \<and> m_send_buf (chan (creator s)) \<noteq> m_recv_buf (chan (creator s))"
    by auto
  moreover have "run_actions (shm_fire demo_env id) (take 23 demo_handshake @ [(False, 9)]) ?s0 = None"
    by code_simp
  ultimately show ?thesis
    using s(1) by blast
qed

text \<open>
  Names that are in use when the parties start are the one condition: a segment that a run before has left is taken
  for the new one. The attacher opens it, the creator makes its own, the attacher unlinks the name of that, and both
  are through with different rings.
\<close>

definition stale_system :: system where
  "stale_system =
     \<lparr>kern = boot, shm_names = [get_shm_key 2 1 ''t'' \<mapsto> 0], segments = [\<lparr>seg_size = 648, seg_view = zero_view 8\<lparr>enable_cv := True\<rparr>\<rparr>]\<rparr>"

lemma stale_segment_splits:
  "\<exists>s. reach (shm_fire demo_env id) (handshake_start 1 2 ''t'' True 8 stale_system) s \<and> shm_fault s = None \<and>
    todo (creator s) = [] \<and> todo (attacher s) = [] \<and>
    m_send_buf (chan (attacher s)) = Some 0 \<and> m_recv_buf (chan (creator s)) \<noteq> Some 0"
proof -
  let ?run = "replicate 3 (False, 5) @ replicate 23 (True, 6) @ replicate 17 (False, 7)"
  have "map_option (\<lambda>s. (shm_fault s, todo (creator s), todo (attacher s), m_send_buf (chan (attacher s)), m_recv_buf (chan (creator s))))
      (run_actions (shm_fire demo_env id) ?run (handshake_start 1 2 ''t'' True 8 stale_system)) = Some (None, [], [], Some 0, Some 2)"
    by code_simp
  then show ?thesis
    by (rule run_part) auto
qed

text \<open>
  The destructor of the creator: it unlinks a name only when nobody has attached, provided that the attachment has been
  counted, which a build with \<^verbatim>\<open>NDEBUG\<close> does not do.
\<close>

lemma detach_after_handshake:
  assumes "todo c = Detach w # ops" "stage c = Begin" "view_of w (chan c) = Some x" "x < length (segments y)"
    and "segments y ! x = taken_segment E bs ecv"
  shows "\<exists>y'. party_step E p t fd c y = Some (Inr (if no_asserts E then c\<lparr>stage := DetachUnlink\<rparr> else c\<lparr>todo := ops\<rparr>, y')) \<and>
    shm_names y' = shm_names y"
  using assms by (simp add: party_step_def detach_shm_def Let_def taken_segment_def fresh_segment_def zero_view_def)

end
