(* ===== verification/RingCv.thy ===== *)
theory RingCv imports SharedMemoryView Machine begin

text \<open>
  \<^verbatim>\<open>SharedMemoryView::write\<close> and \<^verbatim>\<open>read\<close> of \<^verbatim>\<open>src/src/memchannel.cpp\<close> with \<^verbatim>\<open>enable_cv\<close>: one writing and one reading
  thread, a mutex and one condition variable for both. The machine is stated and its invariant is proved
  over the \<^verbatim>\<open>byte_pipe\<close> contract; the ring is the instance.
\<close>

section \<open>The two threads\<close>

text \<open>
  A request is the memory, the offset and the length of a call. \<open>Locking\<close>: about to lock the mutex;
  \<open>Deciding\<close>: holds it and is about to evaluate the guard; \<open>Sleeping\<close>: in \<^verbatim>\<open>pthread_cond_wait\<close>, which has
  released it; \<open>Woken\<close>: about to lock it again; \<open>Leaving\<close>: has copied and still holds it; \<open>Signalling\<close>:
  has unlocked it. The guard and what follows it up to the copy or the wait are one step: the mutex is held
  throughout, and the wait releases it and starts to sleep at once.
\<close>

type_synonym request = "bytes \<times> nat \<times> u32"

datatype side = Resting | Locking request | Deciding request | Sleeping request | Woken request | Leaving | Signalling

record 'v cv_state =
  shared :: 'v
  ring_mutex :: mutex
  w_side :: side
  r_side :: side
  w_reqs :: "request list"
  r_reqs :: "request list"
  sent :: "bytes list"
  got :: "bytes list"
  cv_fault :: "fault option"

definition cv_start :: "'v \<Rightarrow> request list \<Rightarrow> request list \<Rightarrow> 'v cv_state" where
  "cv_start v ws rs =
     \<lparr>shared = v, ring_mutex = None, w_side = Resting, r_side = Resting, w_reqs = ws, r_reqs = rs, sent = [], got = [],
      cv_fault = None\<rparr>"

text \<open>\<^verbatim>\<open>pthread_cond_signal\<close>: the only other thread, when it sleeps.\<close>

fun awaken :: "side \<Rightarrow> side" where
  "awaken (Sleeping q) = Woken q"
| "awaken x = x"

definition write_step :: "('v \<Rightarrow> bytes \<Rightarrow> nat \<Rightarrow> u32 \<Rightarrow> fault + 'v option) \<Rightarrow> 'v cv_state \<Rightarrow> 'v cv_state option" where
  "write_step wr s =
     (case w_side s of
        Resting \<Rightarrow> (case w_reqs s of [] \<Rightarrow> None | q # qs \<Rightarrow> Some (s\<lparr>w_reqs := qs, w_side := Locking q\<rparr>))
      | Locking q \<Rightarrow>
          (case mutex_lock 0 (ring_mutex s) of None \<Rightarrow> None | Some m \<Rightarrow> Some (s\<lparr>ring_mutex := m, w_side := Deciding q\<rparr>))
      | Deciding (src, pos, len) \<Rightarrow>
          Some (case wr (shared s) src pos len of
                  Inl e \<Rightarrow> s\<lparr>cv_fault := Some e\<rparr>
                | Inr None \<Rightarrow> s\<lparr>ring_mutex := None, w_side := Sleeping (src, pos, len)\<rparr>
                | Inr (Some v) \<Rightarrow> s\<lparr>shared := v, w_side := Leaving, sent := sent s @ [take (unat len) (drop pos src)]\<rparr>)
      | Sleeping q \<Rightarrow> None
      | Woken q \<Rightarrow>
          (case mutex_lock 0 (ring_mutex s) of None \<Rightarrow> None | Some m \<Rightarrow> Some (s\<lparr>ring_mutex := m, w_side := Deciding q\<rparr>))
      | Leaving \<Rightarrow> Some (s\<lparr>ring_mutex := None, w_side := Signalling\<rparr>)
      | Signalling \<Rightarrow> Some (s\<lparr>r_side := awaken (r_side s), w_side := Resting\<rparr>))"

definition read_step :: "('v \<Rightarrow> bytes \<Rightarrow> nat \<Rightarrow> u32 \<Rightarrow> fault + (bytes \<times> 'v) option) \<Rightarrow> 'v cv_state \<Rightarrow> 'v cv_state option" where
  "read_step rd s =
     (case r_side s of
        Resting \<Rightarrow> (case r_reqs s of [] \<Rightarrow> None | q # qs \<Rightarrow> Some (s\<lparr>r_reqs := qs, r_side := Locking q\<rparr>))
      | Locking q \<Rightarrow>
          (case mutex_lock 1 (ring_mutex s) of None \<Rightarrow> None | Some m \<Rightarrow> Some (s\<lparr>ring_mutex := m, r_side := Deciding q\<rparr>))
      | Deciding (dst, pos, len) \<Rightarrow>
          Some (case rd (shared s) dst pos len of
                  Inl e \<Rightarrow> s\<lparr>cv_fault := Some e\<rparr>
                | Inr None \<Rightarrow> s\<lparr>ring_mutex := None, r_side := Sleeping (dst, pos, len)\<rparr>
                | Inr (Some (d, v)) \<Rightarrow> s\<lparr>shared := v, r_side := Leaving, got := got s @ [take (unat len) (drop pos d)]\<rparr>)
      | Sleeping q \<Rightarrow> None
      | Woken q \<Rightarrow>
          (case mutex_lock 1 (ring_mutex s) of None \<Rightarrow> None | Some m \<Rightarrow> Some (s\<lparr>ring_mutex := m, r_side := Deciding q\<rparr>))
      | Leaving \<Rightarrow> Some (s\<lparr>ring_mutex := None, r_side := Signalling\<rparr>)
      | Signalling \<Rightarrow> Some (s\<lparr>w_side := awaken (w_side s), r_side := Resting\<rparr>))"

datatype cv_action = Writer | Reader | StrayWriter | StrayReader

fun cv_fire :: "('v \<Rightarrow> bytes \<Rightarrow> nat \<Rightarrow> u32 \<Rightarrow> fault + 'v option) \<Rightarrow> ('v \<Rightarrow> bytes \<Rightarrow> nat \<Rightarrow> u32 \<Rightarrow> fault + (bytes \<times> 'v) option) \<Rightarrow>
    cv_action \<Rightarrow> 'v cv_state \<Rightarrow> 'v cv_state option" where
  "cv_fire wr rd Writer s = (if cv_fault s = None then write_step wr s else None)"
| "cv_fire wr rd Reader s = (if cv_fault s = None then read_step rd s else None)"
| "cv_fire wr rd StrayWriter s = Some (s\<lparr>w_side := awaken (w_side s)\<rparr>)"
| "cv_fire wr rd StrayReader s = Some (s\<lparr>r_side := awaken (r_side s)\<rparr>)"

section \<open>Invariant\<close>

fun in_section :: "side \<Rightarrow> bool" where
  "in_section (Deciding q) = True"
| "in_section Leaving = True"
| "in_section _ = False"

fun pending :: "side \<Rightarrow> request option" where
  "pending (Locking q) = Some q"
| "pending (Deciding q) = Some q"
| "pending (Sleeping q) = Some q"
| "pending (Woken q) = Some q"
| "pending _ = None"

definition fits :: "nat \<Rightarrow> request \<Rightarrow> bool" where
  "fits N q \<longleftrightarrow> (case q of (buf, pos, len) \<Rightarrow> pos + unat len \<le> length buf \<and> unat len \<le> N)"

fun request_len :: "request \<Rightarrow> nat" where
  "request_len (buf, pos, len) = unat len"

lemma awaken_simps [simp]:
  "in_section (awaken x) = in_section x" "pending (awaken x) = pending x" "awaken x \<noteq> Sleeping q"
  "awaken x = Leaving \<longleftrightarrow> x = Leaving" "awaken x = Signalling \<longleftrightarrow> x = Signalling"
  by (cases x; simp)+

text \<open>A thread that sleeps is right to sleep, or the other one is about to signal.\<close>

definition awake_ok :: "nat \<Rightarrow> nat \<Rightarrow> 'v cv_state \<Rightarrow> bool" where
  "awake_ok N n s \<longleftrightarrow>
     (\<forall>q. w_side s = Sleeping q \<longrightarrow> N < n + request_len q \<or> r_side s \<in> {Leaving, Signalling}) \<and>
     (\<forall>q. r_side s = Sleeping q \<longrightarrow> n < request_len q \<or> w_side s \<in> {Leaving, Signalling})"

definition requests_ok :: "nat \<Rightarrow> 'v cv_state \<Rightarrow> bool" where
  "requests_ok N s \<longleftrightarrow>
     (\<forall>q. q \<in> set (w_reqs s) \<or> q \<in> set (r_reqs s) \<or> pending (w_side s) = Some q \<or> pending (r_side s) = Some q \<longrightarrow> fits N q)"

definition mutex_ok :: "'v cv_state \<Rightarrow> bool" where
  "mutex_ok s \<longleftrightarrow> (in_section (w_side s) \<longleftrightarrow> ring_mutex s = Some 0) \<and> (in_section (r_side s) \<longleftrightarrow> ring_mutex s = Some 1) \<and>
     ring_mutex s \<in> {None, Some 0, Some 1}"

definition cv_ok :: "('v \<Rightarrow> bytes) \<Rightarrow> ('v \<Rightarrow> nat) \<Rightarrow> ('v \<Rightarrow> bool) \<Rightarrow> nat \<Rightarrow> 'v cv_state \<Rightarrow> bool" where
  "cv_ok cont cap ok N s \<longleftrightarrow>
     cv_fault s = None \<and> ok (shared s) \<and> cap (shared s) = N \<and>
     concat (sent s) = concat (got s) @ cont (shared s) \<and>
     mutex_ok s \<and> requests_ok N s \<and> awake_ok N (length (cont (shared s))) s"

lemmas cv_parts = mutex_ok_def requests_ok_def awake_ok_def

context byte_pipe
begin

lemma write_step_kept:
  assumes inv: "cv_ok cont cap ok N s" and run: "write_step wr s = Some s'"
  shows "cv_ok cont cap ok N s'"
proof (cases "w_side s")
  case (Deciding q)
  obtain src pos len where q: "q = (src, pos, len)"
    by (cases q)
  have f: "pos + unat len \<le> length src" "unat len \<le> cap (shared s)" "ok (shared s)"
    using inv Deciding q by (auto simp: cv_ok_def requests_ok_def fits_def)
  have m: "ring_mutex s = Some 0"
    using inv Deciding by (simp add: cv_ok_def mutex_ok_def)
  show ?thesis
  proof (cases rule: wr_cases [OF f(3,2,1)])
    case 1
    then have s': "s' = s\<lparr>ring_mutex := None, w_side := Sleeping (src, pos, len)\<rparr>"
      using run Deciding q by (simp add: write_step_def)
    show ?thesis
      using inv Deciding q m 1(1) by (auto simp: cv_ok_def cv_parts s')
  next
    case (2 v)
    then have s': "s' = s\<lparr>shared := v, w_side := Leaving, sent := sent s @ [take (unat len) (drop pos src)]\<rparr>"
      using run Deciding q by (simp add: write_step_def)
    show ?thesis
      using inv Deciding q m 2 by (auto simp: cv_ok_def cv_parts s')
  qed
qed (use inv run in \<open>auto simp: write_step_def cv_ok_def cv_parts mutex_lock_def split: list.splits if_splits\<close>)

lemma read_step_kept:
  assumes inv: "cv_ok cont cap ok N s" and run: "read_step rd s = Some s'"
  shows "cv_ok cont cap ok N s'"
proof (cases "r_side s")
  case (Deciding q)
  obtain dst pos len where q: "q = (dst, pos, len)"
    by (cases q)
  have f: "pos + unat len \<le> length dst" "ok (shared s)"
    using inv Deciding q by (auto simp: cv_ok_def requests_ok_def fits_def)
  have m: "ring_mutex s = Some 1"
    using inv Deciding by (simp add: cv_ok_def mutex_ok_def)
  show ?thesis
  proof (cases rule: rd_cases [OF f(2,1)])
    case 1
    then have s': "s' = s\<lparr>ring_mutex := None, r_side := Sleeping (dst, pos, len)\<rparr>"
      using run Deciding q by (simp add: read_step_def)
    show ?thesis
      using inv Deciding q m 1(1) by (auto simp: cv_ok_def cv_parts s')
  next
    case (2 v)
    then have s': "s' = s\<lparr>shared := v, r_side := Leaving, got := got s @ [take (unat len) (cont (shared s))]\<rparr>"
      using run Deciding q f(1) by (simp add: read_step_def min_def)
    show ?thesis
      using inv Deciding q m 2 by (auto simp: cv_ok_def cv_parts s')
  qed
qed (use inv run in \<open>auto simp: read_step_def cv_ok_def cv_parts mutex_lock_def split: list.splits if_splits\<close>)

lemma cv_fire_kept:
  assumes "cv_ok cont cap ok N s" "cv_fire wr rd l s = Some s'"
  shows "cv_ok cont cap ok N s'"
proof (cases l)
  case Writer
  then show ?thesis
    using assms write_step_kept by (simp split: if_splits)
next
  case Reader
  then show ?thesis
    using assms read_step_kept by (simp split: if_splits)
qed (use assms in \<open>auto simp: cv_ok_def cv_parts\<close>)

text \<open>When neither thread can move, each has finished or sleeps with good reason.\<close>

lemma cv_blocked:
  assumes inv: "cv_ok cont cap ok N s" and w: "write_step wr s = None" and r: "read_step rd s = None"
  shows "(w_side s = Resting \<and> w_reqs s = [] \<or> (\<exists>q. w_side s = Sleeping q \<and> N < length (cont (shared s)) + request_len q)) \<and>
    (r_side s = Resting \<and> r_reqs s = [] \<or> (\<exists>q. r_side s = Sleeping q \<and> length (cont (shared s)) < request_len q))"
  using w r inv
  by (cases "w_side s"; cases "r_side s")
    (auto simp: write_step_def read_step_def cv_ok_def cv_parts mutex_lock_def split: list.splits if_splits)

end

interpretation cv_inv: machine_invariant "cv_fire write_view read_view" "cv_ok contents (\<lambda>v. unat (buf_size v)) ring_ok N" for N
  by unfold_locales (rule ring.cv_fire_kept)

lemma cv_start_ok:
  assumes "ring_ok v" "contents v = []" "\<forall>q \<in> set ws \<union> set rs. fits (unat (buf_size v)) q"
  shows "cv_ok contents (\<lambda>v. unat (buf_size v)) ring_ok (unat (buf_size v)) (cv_start v ws rs)"
  using assms by (auto simp: cv_ok_def cv_parts cv_start_def)

text \<open>
  C14: The ring with its condition variable is a bounded FIFO for a writing and a reading thread, whatever the
  scheduler and spurious wake-ups do: no fault, the copies exclude each other, and what has been
  written is what has been read followed by what is in the ring. No wake-up is lost: when neither
  thread can move, each has either made all its calls or sleeps while its guard is really false.
\<close>
theorem ring_cv_sound:
  assumes "ring_ok v" "contents v = []" "\<forall>q \<in> set ws \<union> set rs. fits (unat (buf_size v)) q"
    and "reach (cv_fire write_view read_view) (cv_start v ws rs) s"
  shows "cv_fault s = None \<and> concat (sent s) = concat (got s) @ contents (shared s) \<and>
    \<not> (in_section (w_side s) \<and> in_section (r_side s)) \<and>
    (write_step write_view s = None \<and> read_step read_view s = None \<longrightarrow>
      (w_side s = Resting \<and> w_reqs s = [] \<or>
        (\<exists>q. w_side s = Sleeping q \<and> unat (buf_size v) < length (contents (shared s)) + request_len q)) \<and>
      (r_side s = Resting \<and> r_reqs s = [] \<or>
        (\<exists>q. r_side s = Sleeping q \<and> length (contents (shared s)) < request_len q)))"
proof -
  have ok: "cv_ok contents (\<lambda>v. unat (buf_size v)) ring_ok (unat (buf_size v)) s"
    by (rule cv_inv.always [OF assms(4) cv_start_ok [OF assms(1-3)]])
  show ?thesis
    using ring.cv_blocked [OF ok] ok by (auto simp: cv_ok_def mutex_ok_def simp del: length_contents)
qed

definition demo_cv_ring :: shm_view where
  "demo_cv_ring = \<lparr>buf_size = 8, enable_cv = True, client_attached = 1, ring_in = 0, ring_out = 0, buffer = replicate 8 0\<rparr>"

lemma demo_cv_ring_ok: "ring_ok demo_cv_ring" "contents demo_cv_ring = []"
proof -
  have "pow2 8"
    by (auto simp: pow2_def intro!: exI [of _ 3])
  then show "ring_ok demo_cv_ring" "contents demo_cv_ring = []"
    by (simp_all add: ring_ok_def contents_def used_def demo_cv_ring_def)
qed

text \<open>The reader sleeps first and is woken by the signal of the writer.\<close>

theorem ring_cv_sound_witness:
  "\<exists>s. run_actions (cv_fire write_view read_view) [Reader, Reader, Reader, Writer, Writer, Writer, Writer, Writer, Reader, Reader]
      (cv_start demo_cv_ring [([7, 8], 0, 2)] [([0, 0], 0, 2)]) = Some s \<and>
    got s = [[7, 8]] \<and> concat (sent s) = concat (got s) @ contents (shared s)"
proof -
  have "map_option got (run_actions (cv_fire write_view read_view)
      [Reader, Reader, Reader, Writer, Writer, Writer, Writer, Writer, Reader, Reader]
      (cv_start demo_cv_ring [([7, 8], 0, 2)] [([0, 0], 0, 2)])) = Some [[7, 8]]"
    by code_simp
  then obtain s where s: "run_actions (cv_fire write_view read_view)
      [Reader, Reader, Reader, Writer, Writer, Writer, Writer, Writer, Reader, Reader]
      (cv_start demo_cv_ring [([7, 8], 0, 2)] [([0, 0], 0, 2)]) = Some s" "got s = [[7, 8]]"
    by auto
  have "\<forall>q \<in> set [([7, 8], 0, 2)] \<union> set [([0, 0], 0, 2)]. fits (unat (buf_size demo_cv_ring)) q"
    by (simp add: fits_def demo_cv_ring_def)
  from ring_cv_sound [OF demo_cv_ring_ok this run_reach [OF s(1)]] show ?thesis
    using s by blast
qed

end
