(* ===== verification/RingSpin.thy ===== *)
theory RingSpin imports RingCv begin

text \<open>
  \<^verbatim>\<open>SharedMemoryView::write\<close> and \<^verbatim>\<open>read\<close> of \<^verbatim>\<open>src/src/memchannel.cpp\<close> without \<^verbatim>\<open>enable_cv\<close>: no lock, the two
  atomic counters are all the synchronisation there is. The threads interleave at each access of the
  counters and at each byte that \<^verbatim>\<open>memcpy\<close> copies.
\<close>

section \<open>The two threads\<close>

text \<open>
  A thread spins on its guard, clips the length against the counters once more, copies byte by byte, and
  adds the length to its own counter. Each reads a counter that only it changes together with the other
  one, so an evaluation of a guard or of the clipped length is one step: the read of the other
  thread's counter.
\<close>

datatype spin_pc = Idle | Guard request | Clip request | Copy request nat

record spin_state =
  spin_view :: shm_view
  w_pc :: spin_pc
  r_pc :: spin_pc
  w_todo :: "request list"
  r_todo :: "request list"
  w_done :: "bytes list"
  r_done :: "bytes list"
  spin_fault :: "fault option"

definition spin_start :: "shm_view \<Rightarrow> request list \<Rightarrow> request list \<Rightarrow> spin_state" where
  "spin_start v ws rs =
     \<lparr>spin_view = v, w_pc = Idle, r_pc = Idle, w_todo = ws, r_todo = rs, w_done = [], r_done = [], spin_fault = None\<rparr>"

text \<open>The index of the \<open>i\<close>-th byte from a counter on: the two parts of the copy put end to end.\<close>

definition ring_slot :: "shm_view \<Rightarrow> u32 \<Rightarrow> nat \<Rightarrow> nat" where
  "ring_slot v p i =
     (let off = unat (p AND (buf_size v - 1)); l = unat (buf_size v) - off in if i < l then off + i else i - l)"

definition spin_write :: "spin_state \<Rightarrow> spin_state option" where
  "spin_write s =
     (let v = spin_view s in
      case w_pc s of
        Idle \<Rightarrow> (case w_todo s of [] \<Rightarrow> None | q # qs \<Rightarrow> Some (s\<lparr>w_todo := qs, w_pc := Guard q\<rparr>))
      | Guard (src, pos, len) \<Rightarrow> Some (if can_put v len then s\<lparr>w_pc := Clip (src, pos, len)\<rparr> else s)
      | Clip (src, pos, len) \<Rightarrow> Some (s\<lparr>w_pc := Copy (src, pos, min len (buf_size v - ring_in v + ring_out v)) 0\<rparr>)
      | Copy (src, pos, len) i \<Rightarrow>
          Some (if i < unat len
                then (let k = ring_slot v (ring_in v) i
                      in if pos + i < length src \<and> k < length (buffer v)
                         then s\<lparr>spin_view := v\<lparr>buffer := (buffer v)[k := src ! (pos + i)]\<rparr>, w_pc := Copy (src, pos, len) (Suc i)\<rparr>
                         else s\<lparr>spin_fault := Some OutOfBounds\<rparr>)
                else s\<lparr>spin_view := v\<lparr>ring_in := ring_in v + len\<rparr>, w_pc := Idle,
                       w_done := w_done s @ [take (unat len) (drop pos src)]\<rparr>))"

definition spin_read :: "spin_state \<Rightarrow> spin_state option" where
  "spin_read s =
     (let v = spin_view s in
      case r_pc s of
        Idle \<Rightarrow> (case r_todo s of [] \<Rightarrow> None | q # qs \<Rightarrow> Some (s\<lparr>r_todo := qs, r_pc := Guard q\<rparr>))
      | Guard (dst, pos, len) \<Rightarrow> Some (if can_get v len then s\<lparr>r_pc := Clip (dst, pos, len)\<rparr> else s)
      | Clip (dst, pos, len) \<Rightarrow> Some (s\<lparr>r_pc := Copy (dst, pos, min len (ring_in v - ring_out v)) 0\<rparr>)
      | Copy (dst, pos, len) i \<Rightarrow>
          Some (if i < unat len
                then (let k = ring_slot v (ring_out v) i
                      in if pos + i < length dst \<and> k < length (buffer v)
                         then s\<lparr>r_pc := Copy (dst[pos + i := buffer v ! k], pos, len) (Suc i)\<rparr>
                         else s\<lparr>spin_fault := Some OutOfBounds\<rparr>)
                else s\<lparr>spin_view := v\<lparr>ring_out := ring_out v + len\<rparr>, r_pc := Idle,
                       r_done := r_done s @ [take (unat len) (drop pos dst)]\<rparr>))"

fun spin_fire :: "bool \<Rightarrow> spin_state \<Rightarrow> spin_state option" where
  "spin_fire writes s = (if spin_fault s \<noteq> None then None else if writes then spin_write s else spin_read s)"

section \<open>Bytes in the ring\<close>

lemma ring_slot_mod:
  assumes "pow2 (buf_size v)" "i < unat (buf_size v)"
  shows "ring_slot v p i = (unat p + i) mod unat (buf_size v)"
proof -
  let ?N = "unat (buf_size v)"
  let ?o = "unat p mod ?N"
  have o: "?o < ?N"
    using pow2_pos [OF assms(1)] by simp
  have "ring_slot v p i = (if i < ?N - ?o then ?o + i else i - (?N - ?o))"
    by (simp add: ring_slot_def Let_def pow2_mask [OF assms(1)])
  also have "\<dots> = (?o + i) mod ?N"
    using ring_index [OF o assms(2)] o by (cases "i < ?N - ?o") simp_all
  also have "\<dots> = (unat p + i) mod ?N"
    by (rule mod_add_left_eq)
  finally show ?thesis .
qed

lemma ring_okD:
  assumes "ring_ok v"
  shows "pow2 (buf_size v)" "length (buffer v) = unat (buf_size v)" "used v \<le> unat (buf_size v)" "0 < unat (buf_size v)"
    "unat (buf_size v) \<le> 1073741824"
  using assms pow2_pos pow2_le by (auto simp: ring_ok_def)

lemma ring_slot_less:
  assumes "ring_ok v" "i < unat (buf_size v)"
  shows "ring_slot v p i < length (buffer v)"
  using ring_slot_mod [of v i p] ring_okD [OF assms(1)] assms(2) by simp

text \<open>The writer's slots lie behind the bytes in transit.\<close>

lemma in_slot:
  assumes "ring_ok v" "i < unat (buf_size v)"
  shows "ring_slot v (ring_in v) i = (unat (ring_out v) + (used v + i)) mod unat (buf_size v)"
proof -
  let ?N = "unat (buf_size v)"
  note ok = ring_okD [OF assms(1)]
  have "unat (ring_in v) mod ?N = (unat (ring_out v) + used v) mod ?N"
    using in_position [OF ok(1)] unfolding pow2_mask [OF ok(1)] mod_add_left_eq .
  from mod_add_cong [OF this refl, of i] show ?thesis
    by (simp only: ring_slot_mod [OF ok(1) assms(2)] add.assoc)
qed

lemma slots_apart:
  fixes a j k N :: nat
  assumes "j < k" "k < N"
  shows "(a + k) mod N \<noteq> (a + j) mod N"
proof
  assume "(a + k) mod N = (a + j) mod N"
  then have "N dvd (a + k) - (a + j)"
    using assms(1) by (simp add: mod_eq_dvd_iff_nat)
  then show False
    using assms by (auto dest: dvd_imp_le)
qed

definition put_byte :: "shm_view \<Rightarrow> nat \<Rightarrow> u8 \<Rightarrow> shm_view" where
  "put_byte v i b = v\<lparr>buffer := (buffer v)[ring_slot v (ring_in v) i := b]\<rparr>"

lemma put_byte_simps [simp]:
  "buf_size (put_byte v i b) = buf_size v" "ring_in (put_byte v i b) = ring_in v" "ring_out (put_byte v i b) = ring_out v"
  "used (put_byte v i b) = used v" "ring_slot (put_byte v i b) p j = ring_slot v p j"
  by (simp_all add: put_byte_def used_def ring_slot_def)

lemma put_byte_ok: "ring_ok v \<Longrightarrow> ring_ok (put_byte v i b)"
  by (simp add: ring_ok_def put_byte_def used_def)

lemma put_byte_contents:
  assumes "ring_ok v" "used v + i < unat (buf_size v)"
  shows "contents (put_byte v i b) = contents v"
proof -
  have "ring_slot v (ring_in v) i \<noteq> (unat (ring_out v) + j) mod unat (buf_size v)" if "j < used v" for j
    using in_slot [OF assms(1), of i] slots_apart [of j "used v + i"] that assms(2) by simp
  then show ?thesis
    unfolding contents_def put_byte_simps by (simp add: put_byte_def)
qed

lemma put_byte_nth:
  assumes "ring_ok v" "i < unat (buf_size v)" "j < unat (buf_size v)"
  shows "buffer (put_byte v i b) ! ring_slot v (ring_in v) j = (if j = i then b else buffer v ! ring_slot v (ring_in v) j)"
proof -
  have "ring_slot v (ring_in v) i \<noteq> ring_slot v (ring_in v) j" if "j \<noteq> i"
    using slots_apart [of i j "unat (buf_size v)" "unat (ring_in v)"] slots_apart [of j i "unat (buf_size v)" "unat (ring_in v)"]
      that assms ring_slot_mod [OF ring_okD(1) [OF assms(1)]] by (cases "i < j") auto
  then show ?thesis
    using ring_slot_less [OF assms(1,2)] by (auto simp: put_byte_def)
qed

text \<open>Advancing a counter.\<close>

lemma advance_in:
  assumes "ring_ok v" "used v + unat len \<le> unat (buf_size v)"
    and "\<forall>j < unat len. buffer v ! ring_slot v (ring_in v) j = src ! (pos + j)" "pos + unat len \<le> length src"
  shows "ring_ok (v\<lparr>ring_in := ring_in v + len\<rparr>)"
    "contents (v\<lparr>ring_in := ring_in v + len\<rparr>) = contents v @ take (unat len) (drop pos src)"
    "used (v\<lparr>ring_in := ring_in v + len\<rparr>) = used v + unat len"
proof -
  let ?v = "v\<lparr>ring_in := ring_in v + len\<rparr>"
  note ok = ring_okD [OF assms(1)]
  show used: "used ?v = used v + unat len"
    using assms(2) ok(5) by (simp add: used_def unat_add_diff)
  show "ring_ok ?v"
    using assms(1,2) used by (simp add: ring_ok_def)
  show "contents ?v = contents v @ take (unat len) (drop pos src)"
  proof (rule nth_equalityI)
    fix j assume "j < length (contents ?v)"
    then have j: "j < used v + unat len"
      using used by simp
    have c: "contents ?v ! j = buffer v ! ((unat (ring_out v) + j) mod unat (buf_size v))"
      using j used by (simp add: contents_def)
    show "contents ?v ! j = (contents v @ take (unat len) (drop pos src)) ! j"
    proof (cases "j < used v")
      case True
      then show ?thesis
        by (simp add: c nth_append) (simp add: contents_def)
    next
      case False
      then have "j - used v < unat len" "ring_slot v (ring_in v) (j - used v) = (unat (ring_out v) + j) mod unat (buf_size v)"
        using j in_slot [OF assms(1), of "j - used v"] assms(2) by simp_all
      then show ?thesis
        using False assms(3,4) by (simp add: c nth_append flip: \<open>ring_slot v (ring_in v) (j - used v) = _\<close>)
    qed
  qed (use used assms(4) in simp)
qed

lemma advance_out:
  assumes "ring_ok v" "unat len \<le> used v"
  shows "ring_ok (v\<lparr>ring_out := ring_out v + len\<rparr>)" "contents (v\<lparr>ring_out := ring_out v + len\<rparr>) = drop (unat len) (contents v)"
    "used (v\<lparr>ring_out := ring_out v + len\<rparr>) = used v - unat len"
    "i < unat (buf_size v) \<Longrightarrow> ring_slot (v\<lparr>ring_out := ring_out v + len\<rparr>) (ring_in v) i = ring_slot v (ring_in v) i"
proof -
  let ?v = "v\<lparr>ring_out := ring_out v + len\<rparr>"
  note ok = ring_okD [OF assms(1)]
  show used: "used ?v = used v - unat len"
    using assms(2) by (simp add: used_def unat_diff_shift)
  show "ring_ok ?v"
    using assms(1) used by (auto simp: ring_ok_def)
  show "ring_slot ?v (ring_in v) i = ring_slot v (ring_in v) i"
    by (simp add: ring_slot_def)
  have at: "unat (ring_out v + len) mod unat (buf_size v) = (unat (ring_out v) + unat len) mod unat (buf_size v)"
    by (rule unat_add_mod_dvd [OF pow2_dvd [OF ok(1)]])
  show "contents ?v = drop (unat len) (contents v)"
  proof (rule nth_equalityI)
    fix j assume "j < length (contents ?v)"
    then have j: "j < used v - unat len"
      using used by simp
    have "(unat (ring_out v + len) + j) mod unat (buf_size v) = (unat (ring_out v) + (unat len + j)) mod unat (buf_size v)"
      using mod_add_cong [OF at refl, of j] by (simp only: add.assoc)
    moreover have "unat len + j < used v"
      using j by simp
    ultimately show "contents ?v ! j = drop (unat len) (contents v) ! j"
      using j used by (simp add: contents_def)
  qed (use used in simp)
qed

lemma out_slot:
  assumes "ring_ok v" "j < used v"
  shows "buffer v ! ring_slot v (ring_out v) j = contents v ! j"
  using ring_slot_mod [of v j "ring_out v"] ring_okD [OF assms(1)] assms(2) by (simp add: contents_def)

section \<open>Invariant\<close>

text \<open>
  Each thread's progress refers to the counters of both; the facts below are stable under the steps of
  the other thread: the writer only adds to the bytes in transit, the reader only takes from them.
\<close>

fun w_progress :: "shm_view \<Rightarrow> spin_pc \<Rightarrow> bool" where
  "w_progress v Idle = True"
| "w_progress v (Guard q) = fits (unat (buf_size v)) q"
| "w_progress v (Clip (src, pos, len)) =
     (fits (unat (buf_size v)) (src, pos, len) \<and> used v + unat len \<le> unat (buf_size v))"
| "w_progress v (Copy (src, pos, len) i) =
     (fits (unat (buf_size v)) (src, pos, len) \<and> used v + unat len \<le> unat (buf_size v) \<and> i \<le> unat len \<and>
      (\<forall>j < i. buffer v ! ring_slot v (ring_in v) j = src ! (pos + j)))"

fun r_progress :: "shm_view \<Rightarrow> spin_pc \<Rightarrow> bool" where
  "r_progress v Idle = True"
| "r_progress v (Guard q) = fits (unat (buf_size v)) q"
| "r_progress v (Clip (dst, pos, len)) = (fits (unat (buf_size v)) (dst, pos, len) \<and> unat len \<le> used v)"
| "r_progress v (Copy (dst, pos, len) i) =
     (fits (unat (buf_size v)) (dst, pos, len) \<and> unat len \<le> used v \<and> i \<le> unat len \<and>
      (\<forall>j < i. dst ! (pos + j) = contents v ! j))"

definition spin_ok :: "nat \<Rightarrow> spin_state \<Rightarrow> bool" where
  "spin_ok N s \<longleftrightarrow>
     spin_fault s = None \<and> ring_ok (spin_view s) \<and> unat (buf_size (spin_view s)) = N \<and>
     concat (w_done s) = concat (r_done s) @ contents (spin_view s) \<and>
     (\<forall>q \<in> set (w_todo s) \<union> set (r_todo s). fits N q) \<and>
     w_progress (spin_view s) (w_pc s) \<and> r_progress (spin_view s) (r_pc s)"

lemma spin_okD:
  assumes "spin_ok N s"
  shows "spin_fault s = None" "ring_ok (spin_view s)" "unat (buf_size (spin_view s)) = N"
    "concat (w_done s) = concat (r_done s) @ contents (spin_view s)"
    "\<forall>q \<in> set (w_todo s) \<union> set (r_todo s). fits N q"
    "w_progress (spin_view s) (w_pc s)" "r_progress (spin_view s) (r_pc s)"
  using assms by (auto simp: spin_ok_def)

lemma r_progress_put_byte:
  assumes "ring_ok v" "used v + i < unat (buf_size v)"
  shows "r_progress (put_byte v i b) pc = r_progress v pc"
  using put_byte_contents [OF assms] by (cases "(v, pc)" rule: r_progress.cases) simp_all

lemma w_progress_put_byte:
  assumes "ring_ok v" "used v + unat len \<le> unat (buf_size v)" "i < unat len" "w_progress v (Copy (src, pos, len) i)"
  shows "w_progress (put_byte v i (src ! (pos + i))) (Copy (src, pos, len) (Suc i))"
  using assms put_byte_nth [OF assms(1)] by (auto simp: less_Suc_eq)

lemma r_progress_advance:
  assumes "ring_ok v" "used v + unat len \<le> unat (buf_size v)"
    and "\<forall>j < unat len. buffer v ! ring_slot v (ring_in v) j = src ! (pos + j)" "pos + unat len \<le> length src"
    and "r_progress v pc"
  shows "r_progress (v\<lparr>ring_in := ring_in v + len\<rparr>) pc"
  using advance_in [OF assms(1-4)] assms(5) by (cases "(v, pc)" rule: r_progress.cases) (simp_all add: nth_append)

lemma w_progress_advance:
  assumes "ring_ok v" "unat len \<le> used v" "w_progress v pc"
  shows "w_progress (v\<lparr>ring_out := ring_out v + len\<rparr>) pc"
  using advance_out [OF assms(1,2)] assms(3) by (cases "(v, pc)" rule: w_progress.cases) (auto simp: ring_slot_def)

lemma clip_put:
  assumes "ring_ok v" "used v + unat len \<le> unat (buf_size v)"
  shows "min len (buf_size v - ring_in v + ring_out v) = len"
proof -
  have "unat len \<le> unat (buf_size v - ring_in v + ring_out v)"
    using assms(2) free_space [OF assms(1)] by linarith
  then show ?thesis
    by (simp only: min.absorb1 word_le_nat_alt)
qed

lemma clip_get: "unat len \<le> used v \<Longrightarrow> min len (ring_in v - ring_out v) = len"
  by (simp add: min_def word_le_nat_alt used_def)

lemma spin_write_kept:
  assumes inv: "spin_ok N s" and run: "spin_write s = Some s'"
  shows "spin_ok N s'"
proof -
  note ok = spin_okD [OF inv]
  show ?thesis
  proof (cases "w_pc s")
    case Idle
    then show ?thesis
      using run ok by (auto simp: spin_write_def spin_ok_def split: list.splits)
  next
    case (Guard q)
    obtain src pos len where q: "q = (src, pos, len)"
      by (cases q)
    then have "can_put (spin_view s) len \<longleftrightarrow> used (spin_view s) + unat len \<le> N"
      using can_put_iff [OF ok(2)] ok(3,6) Guard by (simp add: fits_def)
    then show ?thesis
      using run ok Guard q by (auto simp: spin_write_def spin_ok_def split: if_splits)
  next
    case (Clip q)
    obtain src pos len where q: "q = (src, pos, len)"
      by (cases q)
    then show ?thesis
      using run ok Clip clip_put [OF ok(2), of len] by (auto simp: spin_write_def spin_ok_def)
  next
    case (Copy q i)
    obtain src pos len where q: "q = (src, pos, len)"
      by (cases q)
    let ?v = "spin_view s"
    have f: "pos + unat len \<le> length src" "used ?v + unat len \<le> unat (buf_size ?v)" "i \<le> unat len"
      "\<forall>j < i. buffer ?v ! ring_slot ?v (ring_in ?v) j = src ! (pos + j)"
      using ok(6) Copy q by (auto simp: fits_def)
    show ?thesis
    proof (cases "i < unat len")
      case True
      then have "ring_slot ?v (ring_in ?v) i < length (buffer ?v)"
        using ring_slot_less [OF ok(2)] f(2) by simp
      then have s': "s' = s\<lparr>spin_view := put_byte ?v i (src ! (pos + i)), w_pc := Copy (src, pos, len) (Suc i)\<rparr>"
        using run Copy q True f(1) by (simp add: spin_write_def Let_def put_byte_def)
      have room: "used ?v + i < unat (buf_size ?v)"
        using True f(2) by simp
      have "w_progress (put_byte ?v i (src ! (pos + i))) (Copy (src, pos, len) (Suc i))"
        by (rule w_progress_put_byte [OF ok(2) f(2) True ok(6) [unfolded Copy q]])
      then show ?thesis
        using ok s' put_byte_contents [OF ok(2) room] r_progress_put_byte [OF ok(2) room] put_byte_ok [OF ok(2)]
        by (simp add: spin_ok_def del: w_progress.simps)
    next
      case False
      then have s': "s' = s\<lparr>spin_view := ?v\<lparr>ring_in := ring_in ?v + len\<rparr>, w_pc := Idle,
          w_done := w_done s @ [take (unat len) (drop pos src)]\<rparr>"
        using run Copy q by (simp add: spin_write_def Let_def)
      have written: "\<forall>j < unat len. buffer ?v ! ring_slot ?v (ring_in ?v) j = src ! (pos + j)"
        using False f(3,4) by simp
      show ?thesis
        using ok s' advance_in [OF ok(2) f(2) written f(1)] r_progress_advance [OF ok(2) f(2) written f(1) ok(7)]
        by (simp add: spin_ok_def)
    qed
  qed
qed

lemma spin_read_kept:
  assumes inv: "spin_ok N s" and run: "spin_read s = Some s'"
  shows "spin_ok N s'"
proof -
  note ok = spin_okD [OF inv]
  show ?thesis
  proof (cases "r_pc s")
    case Idle
    then show ?thesis
      using run ok by (auto simp: spin_read_def spin_ok_def split: list.splits)
  next
    case (Guard q)
    then show ?thesis
      using run ok by (cases q) (auto simp: spin_read_def spin_ok_def split: if_splits)
  next
    case (Clip q)
    obtain dst pos len where q: "q = (dst, pos, len)"
      by (cases q)
    then show ?thesis
      using run ok Clip clip_get [of len "spin_view s"] by (auto simp: spin_read_def spin_ok_def)
  next
    case (Copy q i)
    obtain dst pos len where q: "q = (dst, pos, len)"
      by (cases q)
    let ?v = "spin_view s"
    have f: "pos + unat len \<le> length dst" "unat len \<le> used ?v" "i \<le> unat len" "\<forall>j < i. dst ! (pos + j) = contents ?v ! j"
      "unat len \<le> unat (buf_size ?v)"
      using ok(7) Copy q by (auto simp: fits_def)
    show ?thesis
    proof (cases "i < unat len")
      case True
      then have "ring_slot ?v (ring_out ?v) i < length (buffer ?v)"
        using ring_slot_less [OF ok(2)] f(5) by simp
      then have s': "s' = s\<lparr>r_pc := Copy (dst[pos + i := contents ?v ! i], pos, len) (Suc i)\<rparr>"
        using run Copy q True f(1,2) out_slot [OF ok(2), of i] by (simp add: spin_read_def Let_def)
      show ?thesis
        using ok s' f True by (auto simp: spin_ok_def fits_def less_Suc_eq nth_list_update)
    next
      case False
      then have s': "s' = s\<lparr>spin_view := ?v\<lparr>ring_out := ring_out ?v + len\<rparr>, r_pc := Idle,
          r_done := r_done s @ [take (unat len) (drop pos dst)]\<rparr>"
        using run Copy q by (simp add: spin_read_def Let_def)
      have "take (unat len) (drop pos dst) = take (unat len) (contents ?v)"
        using False f by (intro nth_equalityI) auto
      then show ?thesis
        using ok s' advance_out [OF ok(2) f(2)] w_progress_advance [OF ok(2) f(2) ok(6)]
        by (simp add: spin_ok_def)
    qed
  qed
qed

interpretation spin_inv: machine_invariant spin_fire "spin_ok N" for N
proof
  fix s s' l assume inv: "spin_ok N s" and run: "spin_fire l s = Some s'"
  show "spin_ok N s'"
  proof (cases l)
    case True
    show ?thesis
      by (rule spin_write_kept [OF inv]) (use True run spin_okD(1) [OF inv] in simp)
  next
    case False
    show ?thesis
      by (rule spin_read_kept [OF inv]) (use False run spin_okD(1) [OF inv] in simp)
  qed
qed

lemma spin_write_record:
  assumes "spin_write s = Some s'"
  shows "r_done s' = r_done s" "\<exists>x. w_done s' = w_done s @ x"
  using assms by (cases "w_pc s"; auto simp: spin_write_def Let_def split: list.splits if_splits)+

lemma spin_write_extends:
  assumes inv: "spin_ok N s" and run: "spin_write s = Some s'"
  shows "\<exists>x. contents (spin_view s') = contents (spin_view s) @ x"
proof -
  obtain x where x: "w_done s' = w_done s @ x"
    using spin_write_record(2) [OF run] by blast
  have "concat (r_done s) @ contents (spin_view s') = concat (r_done s) @ contents (spin_view s) @ concat x"
    using spin_okD(4) [OF spin_write_kept [OF inv run]] spin_okD(4) [OF inv] x spin_write_record(1) [OF run]
    by simp
  then show ?thesis
    by blast
qed

lemma spin_start_ok:
  assumes "ring_ok v" "contents v = []" "\<forall>q \<in> set ws \<union> set rs. fits (unat (buf_size v)) q"
  shows "spin_ok (unat (buf_size v)) (spin_start v ws rs)"
  using assms by (simp add: spin_ok_def spin_start_def)

text \<open>
  C13: Without a lock the ring is still a FIFO for one writing and one reading thread, however the scheduler
  interleaves their accesses of the counters and the bytes they copy: no access is out of bounds, the bytes
  the finished writes gave are the bytes the finished reads took followed by the bytes in transit, and no byte
  that is in transit is overwritten.
\<close>
theorem ring_spin_fifo:
  assumes "ring_ok v" "contents v = []" "\<forall>q \<in> set ws \<union> set rs. fits (unat (buf_size v)) q"
    and "reach spin_fire (spin_start v ws rs) s"
  shows "spin_fault s = None \<and> concat (w_done s) = concat (r_done s) @ contents (spin_view s) \<and>
    used (spin_view s) \<le> unat (buf_size v) \<and>
    (\<forall>s'. spin_write s = Some s' \<longrightarrow> (\<exists>x. contents (spin_view s') = contents (spin_view s) @ x))"
proof -
  have ok: "spin_ok (unat (buf_size v)) s"
    by (rule spin_inv.always [OF assms(4) spin_start_ok [OF assms(1-3)]])
  show ?thesis
    using spin_okD(1,3,4) [OF ok] ring_okD(3) [OF spin_okD(2) [OF ok]] spin_write_extends [OF ok] by auto
qed

definition demo_spin_ring :: shm_view where
  "demo_spin_ring =
     \<lparr>buf_size = 4, enable_cv = False, client_attached = 1, ring_in = 0xFFFFFFFE, ring_out = 0xFFFFFFFE, buffer = replicate 4 0\<rparr>"

lemma demo_spin_ring_ok: "ring_ok demo_spin_ring" "contents demo_spin_ring = []"
proof -
  have "pow2 4"
    by (auto simp: pow2_def intro!: exI [of _ 2])
  then show "ring_ok demo_spin_ring" "contents demo_spin_ring = []"
    by (simp_all add: ring_ok_def contents_def used_def demo_spin_ring_def)
qed

text \<open>
  Counters about to wrap: three bytes are written while the reader spins, and the reader takes its first
  byte while the writer copies the next piece.
\<close>

definition demo_spin_schedule :: "bool list" where
  "demo_spin_schedule = [False, True, False, True, True, True, True, True, True, True, False, False, True, True, False, True]"

theorem ring_spin_fifo_witness:
  "\<exists>s. run_actions spin_fire demo_spin_schedule
      (spin_start demo_spin_ring [([7, 8, 9], 0, 3), ([5], 0, 1)] [([0, 0], 0, 2)]) = Some s \<and>
    w_done s = [[7, 8, 9]] \<and> concat (w_done s) = concat (r_done s) @ contents (spin_view s)"
proof -
  let ?s0 = "spin_start demo_spin_ring [([7, 8, 9], 0, 3), ([5], 0, 1)] [([0, 0], 0, 2)]"
  have "map_option w_done (run_actions spin_fire demo_spin_schedule ?s0) = Some [[7, 8, 9]]"
    by code_simp
  then obtain s where s: "run_actions spin_fire demo_spin_schedule ?s0 = Some s" "w_done s = [[7, 8, 9]]"
    by auto
  have "\<forall>q \<in> set [([7, 8, 9], 0, 3), ([5], 0, 1)] \<union> set [([0, 0], 0, 2)]. fits (unat (buf_size demo_spin_ring)) q"
    by (simp add: fits_def demo_spin_ring_def)
  from ring_spin_fifo [OF demo_spin_ring_ok this run_reach [OF s(1)]] show ?thesis
    using s by blast
qed

end
