(* ===== verification/Talk.thy ===== *)
theory Talk imports MemChannel RingSpin begin

text \<open>
  The conversation of theory \<^verbatim>\<open>MemChannel\<close> once more, with the calls of \<^verbatim>\<open>view->write\<close> and \<^verbatim>\<open>view->read\<close> taken apart
  into the steps of \<^verbatim>\<open>RingCv\<close> and \<^verbatim>\<open>RingSpin\<close>. A locale states what such a ring owes; its clients
  show that the interleaved conversation refines the one over an abstract bounded FIFO, step by step.
\<close>

section \<open>The abstract pipe\<close>

text \<open>A capacity and the bytes in transit.\<close>

fun pipe_write :: "nat \<times> bytes \<Rightarrow> bytes \<Rightarrow> nat \<Rightarrow> u32 \<Rightarrow> fault + (nat \<times> bytes) option" where
  "pipe_write (N, b) src pos len =
     (if N < length b + unat len then Inr None
      else if length src < pos + unat len then Inl OutOfBounds
      else Inr (Some (N, b @ take (unat len) (drop pos src))))"

fun pipe_read :: "nat \<times> bytes \<Rightarrow> bytes \<Rightarrow> nat \<Rightarrow> u32 \<Rightarrow> fault + (bytes \<times> (nat \<times> bytes)) option" where
  "pipe_read (N, b) dst pos len =
     (if length b < unat len then Inr None
      else if length dst < pos + unat len then Inl OutOfBounds
      else Inr (Some (take pos dst @ take (unat len) b @ drop (pos + unat len) dst, N, drop (unat len) b)))"

definition pipe_ok :: "nat \<times> bytes \<Rightarrow> bool" where
  "pipe_ok v \<longleftrightarrow> length (snd v) \<le> fst v"

interpretation ideal: byte_pipe pipe_write pipe_read snd fst pipe_ok
  by unfold_locales (auto simp: pipe_ok_def)

section \<open>Conversations over other pipes\<close>

definition conv_over :: "('v \<Rightarrow> 'w) \<Rightarrow> 'v conv \<Rightarrow> 'w conv" where
  "conv_over f c =
     \<lparr>pipe = f (pipe c), tx_chan = tx_chan c, rx_chan = rx_chan c, tx_msgs = tx_msgs c, tx_run = tx_run c,
      rx_args = rx_args c, rx_run = rx_run c, rx_out = rx_out c\<rparr>"

lemma conv_over_simps [simp]:
  "pipe (conv_over f c) = f (pipe c)" "tx_chan (conv_over f c) = tx_chan c" "rx_chan (conv_over f c) = rx_chan c"
  "tx_msgs (conv_over f c) = tx_msgs c" "tx_run (conv_over f c) = tx_run c" "rx_args (conv_over f c) = rx_args c"
  "rx_run (conv_over f c) = rx_run c" "rx_out (conv_over f c) = rx_out c"
  by (simp_all add: conv_over_def)

text \<open>The call a thread makes, or is about to make.\<close>

fun tx_request :: "tx_run \<Rightarrow> request list" where
  "tx_request (TxSend ((src, pos, len) # reqs) n) = (if 0 \<le> sint pos then [(src, nat (sint pos), len)] else [])"
| "tx_request _ = []"

fun rx_request :: "(nat \<Rightarrow> u8) \<Rightarrow> rx_run \<Rightarrow> request list" where
  "rx_request junk (RxHeader a) = [(map junk [0..<4], 0, 4)]"
| "rx_request junk (RxBody ((pos, len) # cs) a n) = (if 0 \<le> sint pos then [(arg_bytes a, nat (sint pos), len)] else [])"
| "rx_request junk _ = []"

lemma tx_step_over:
  assumes "\<And>src pos len. tx_request (tx_run c) = [(src, pos, len)] \<Longrightarrow>
      wr' (f (pipe c)) src pos len = map_sum id (map_option f) (wr (pipe c) src pos len)"
  shows "tx_step wr' (conv_over f c) = map_sum id (map_option (conv_over f)) (tx_step wr c)"
  using assms
  by (cases "tx_run c" rule: tx_request.cases)
    (auto simp: tx_step_def conv_over_def split: list.splits sum.splits option.splits)

lemma rx_step_over:
  assumes "\<And>dst pos len. rx_request junk (rx_run c) = [(dst, pos, len)] \<Longrightarrow>
      rd' (f (pipe c)) dst pos len = map_sum id (map_option (map_prod id f)) (rd (pipe c) dst pos len)"
  shows "rx_step rd' grow junk (conv_over f c) = map_sum id (map_option (conv_over f)) (rx_step rd grow junk c)"
  using assms
  by (cases "(junk, rx_run c)" rule: rx_request.cases)
    (auto simp: rx_step_def conv_over_def split: list.splits sum.splits option.splits prod.splits)

section \<open>The interleaved conversation\<close>

text \<open>
  A ring with its two threads makes one step of a call at a time: \<open>ws\<close> and \<open>rs\<close> are given the call to begin in case
  the thread is at rest, and say whether the step was the one in which the call takes effect (for a read, with
  the bytes it took). \<open>w_leaving\<close>, \<open>r_leaving\<close>: the call has taken effect and has not returned.
\<close>

definition overlay :: "bytes \<Rightarrow> nat \<Rightarrow> bytes \<Rightarrow> bytes" where
  "overlay dst pos x = take pos dst @ x @ drop (pos + length x) dst"

definition talk_tx :: "(request list \<Rightarrow> 'r \<Rightarrow> fault + ('r \<times> bool) option) \<Rightarrow> ('r \<Rightarrow> bool) \<Rightarrow> 'r conv \<Rightarrow> fault + 'r conv option" where
  "talk_tx ws w_leaving c =
     (if tx_request (tx_run c) = [] \<and> \<not> w_leaving (pipe c) then tx_step (\<lambda>_ _ _ _. Inr None) c
      else case ws (tx_request (tx_run c)) (pipe c) of
             Inl e \<Rightarrow> Inl e
           | Inr None \<Rightarrow> Inr None
           | Inr (Some (r, effect)) \<Rightarrow> (if effect then tx_step (\<lambda>_ _ _ _. Inr (Some r)) c else Inr (Some (c\<lparr>pipe := r\<rparr>))))"

definition talk_rx :: "(request list \<Rightarrow> 'r \<Rightarrow> fault + ('r \<times> bytes option) option) \<Rightarrow> ('r \<Rightarrow> bool) \<Rightarrow>
    (nat \<Rightarrow> nat \<Rightarrow> nat) \<Rightarrow> (nat \<Rightarrow> u8) \<Rightarrow> 'r conv \<Rightarrow> fault + 'r conv option" where
  "talk_rx rs r_leaving grow junk c =
     (if rx_request junk (rx_run c) = [] \<and> \<not> r_leaving (pipe c) then rx_step (\<lambda>_ _ _ _. Inr None) grow junk c
      else case rs (rx_request junk (rx_run c)) (pipe c) of
             Inl e \<Rightarrow> Inl e
           | Inr None \<Rightarrow> Inr None
           | Inr (Some (r, effect)) \<Rightarrow>
               (case effect of
                  None \<Rightarrow> Inr (Some (c\<lparr>pipe := r\<rparr>))
                | Some x \<Rightarrow> rx_step (\<lambda>_ dst pos len. Inr (Some (overlay dst pos x, r))) grow junk c))"

datatype talk_action = Tx | Rx | StrayTx | StrayRx

fun moves :: "talk_action \<Rightarrow> bool" where
  "moves Tx = True"
| "moves Rx = True"
| "moves _ = False"

text \<open>A condition variable may wake a thread that nobody signalled: \<open>stray True\<close> the writer, \<open>stray False\<close> the reader.\<close>

fun talk_fire where
  "talk_fire ws rs wl rl stray grow junk Tx c = (case talk_tx ws wl c of Inl e \<Rightarrow> None | Inr c' \<Rightarrow> c')"
| "talk_fire ws rs wl rl stray grow junk Rx c = (case talk_rx rs rl grow junk c of Inl e \<Rightarrow> None | Inr c' \<Rightarrow> c')"
| "talk_fire ws rs wl rl stray grow junk StrayTx c = Some (c\<lparr>pipe := stray True (pipe c)\<rparr>)"
| "talk_fire ws rs wl rl stray grow junk StrayRx c = Some (c\<lparr>pipe := stray False (pipe c)\<rparr>)"

section \<open>What a ring with its threads owes\<close>

text \<open>
  \<open>w_call\<close> and \<open>r_call\<close>: the call that has begun and not taken effect, for a reader without its memory. \<open>work\<close>: the steps
  the threads can make before a call takes effect, at most \<open>most\<close> for a capacity; a spurious wake-up adds two.
\<close>

locale ring_threads =
  fixes ws :: "request list \<Rightarrow> 'r \<Rightarrow> fault + ('r \<times> bool) option"
    and rs :: "request list \<Rightarrow> 'r \<Rightarrow> fault + ('r \<times> bytes option) option"
    and w_leaving r_leaving :: "'r \<Rightarrow> bool"
    and stray :: "bool \<Rightarrow> 'r \<Rightarrow> 'r"
    and w_call :: "'r \<Rightarrow> request option"
    and r_call :: "'r \<Rightarrow> (nat \<times> u32) option"
    and cont :: "'r \<Rightarrow> bytes"
    and cap :: "'r \<Rightarrow> nat"
    and good :: "'r \<Rightarrow> bool"
    and work :: "request list \<Rightarrow> request list \<Rightarrow> 'r \<Rightarrow> nat"
    and most :: "nat \<Rightarrow> nat"
  assumes within: "good r \<Longrightarrow> length (cont r) \<le> cap r"
    and ws_step: "good r \<Longrightarrow> list_all (fits (cap r)) qs \<Longrightarrow> \<forall>q. w_call r = Some q \<longrightarrow> qs = [q] \<Longrightarrow> length qs \<le> 1 \<Longrightarrow>
      case ws qs r of
        Inl e \<Rightarrow> False
      | Inr None \<Rightarrow> True
      | Inr (Some (r', effect)) \<Rightarrow>
          good r' \<and> cap r' = cap r \<and> r_call r' = r_call r \<and>
          (if effect
           then \<exists>src pos len. qs = [(src, pos, len)] \<and> w_call r' = None \<and> cont r' = cont r @ take (unat len) (drop pos src)
           else cont r' = cont r \<and> (\<forall>q. w_call r' = Some q \<longrightarrow> qs = [q]) \<and> (\<forall>ps. work qs ps r' < work qs ps r))"
    and rs_step: "good r \<Longrightarrow> list_all (fits (cap r)) qs \<Longrightarrow> \<forall>p l. r_call r = Some (p, l) \<longrightarrow> (\<exists>d. qs = [(d, p, l)]) \<Longrightarrow>
      length qs \<le> 1 \<Longrightarrow>
      case rs qs r of
        Inl e \<Rightarrow> False
      | Inr None \<Rightarrow> True
      | Inr (Some (r', effect)) \<Rightarrow>
          good r' \<and> cap r' = cap r \<and> w_call r' = w_call r \<and>
          (case effect of
             Some x \<Rightarrow> \<exists>dst pos len. qs = [(dst, pos, len)] \<and> r_call r' = None \<and> length x = unat len \<and> cont r = x @ cont r'
           | None \<Rightarrow> cont r' = cont r \<and> (\<forall>p l. r_call r' = Some (p, l) \<longrightarrow> (\<exists>d. qs = [(d, p, l)])) \<and>
               (\<forall>ps. work ps qs r' < work ps qs r))"
    and stray_step: "good r \<Longrightarrow> good (stray b r) \<and> cap (stray b r) = cap r \<and> cont (stray b r) = cont r \<and>
      w_call (stray b r) = w_call r \<and> r_call (stray b r) = r_call r \<and> work qs ps (stray b r) \<le> work qs ps r + 2"
    and work_most: "good r \<Longrightarrow> work qs ps r \<le> most (cap r)"
    and ws_rest: "good r \<Longrightarrow> w_call r = None \<Longrightarrow> \<not> w_leaving r \<Longrightarrow> ws [] r = Inr None"
    and rs_rest: "good r \<Longrightarrow> r_call r = None \<Longrightarrow> \<not> r_leaving r \<Longrightarrow> rs [] r = Inr None"
    and stuck: "good r \<Longrightarrow> list_all (fits (cap r)) (qs @ ps) \<Longrightarrow> \<forall>q. w_call r = Some q \<longrightarrow> qs = [q] \<Longrightarrow>
      \<forall>p l. r_call r = Some (p, l) \<longrightarrow> (\<exists>d. ps = [(d, p, l)]) \<Longrightarrow> length qs \<le> 1 \<Longrightarrow> length ps \<le> 1 \<Longrightarrow>
      ws qs r = Inr None \<Longrightarrow> rs ps r = Inr None \<Longrightarrow>
      (qs = [] \<longrightarrow> \<not> w_leaving r) \<and> (\<forall>src pos len. qs = [(src, pos, len)] \<longrightarrow> cap r < length (cont r) + unat len) \<and>
      (ps = [] \<longrightarrow> \<not> r_leaving r) \<and> (\<forall>dst pos len. ps = [(dst, pos, len)] \<longrightarrow> length (cont r) < unat len)"
begin

definition state :: "'r \<Rightarrow> nat \<times> bytes" where
  "state r = (cap r, cont r)"

definition slack :: "(nat \<Rightarrow> u8) \<Rightarrow> 'r conv \<Rightarrow> nat" where
  "slack junk c = work (tx_request (tx_run c)) (rx_request junk (rx_run c)) (pipe c)"

definition talk_inv :: "(nat \<Rightarrow> u8) \<Rightarrow> i32 \<Rightarrow> bytes list \<Rightarrow> 'r conv \<Rightarrow> bool" where
  "talk_inv junk bs ms c \<longleftrightarrow>
     good (pipe c) \<and> conv_inv snd fst pipe_ok bs ms (conv_over state c) \<and>
     (\<forall>q. w_call (pipe c) = Some q \<longrightarrow> tx_request (tx_run c) = [q]) \<and>
     (\<forall>p l. r_call (pipe c) = Some (p, l) \<longrightarrow> (\<exists>d. rx_request junk (rx_run c) = [(d, p, l)]))"

lemma tx_request_fits:
  assumes "conv_inv snd fst pipe_ok bs ms (conv_over state c)"
  shows "list_all (fits (cap (pipe c))) (tx_request (tx_run c)) \<and> length (tx_request (tx_run c)) \<le> 1"
  using assms
  by (cases "tx_run c" rule: tx_request.cases) (auto simp: conv_inv_def tx_inv_def fits_def state_def)

lemma rx_request_fits:
  assumes "conv_inv snd fst pipe_ok bs ms (conv_over state c)"
  shows "list_all (fits (cap (pipe c))) (rx_request junk (rx_run c)) \<and> length (rx_request junk (rx_run c)) \<le> 1"
  using assms
  by (cases "(junk, rx_run c)" rule: rx_request.cases)
    (auto simp: conv_inv_def rx_inv_def fits_def state_def dest: valid_buf_size_pow2(2) arg_ready_length)

text \<open>
  A step of a thread keeps the invariant, and is either invisible in the conversation over the abstract pipe or a step
  of it.
\<close>

lemma talk_tx_ok:
  assumes inv: "talk_inv junk bs ms c"
  shows "case talk_tx ws w_leaving c of
      Inl e \<Rightarrow> False
    | Inr None \<Rightarrow> True
    | Inr (Some c') \<Rightarrow> talk_inv junk bs ms c' \<and>
        (conv_over state c' = conv_over state c \<and> slack junk c' < slack junk c \<or>
         tx_step pipe_write (conv_over state c) = Inr (Some (conv_over state c')))"
proof -
  let ?a = "conv_over state c"
  let ?qs = "tx_request (tx_run c)"
  have good: "good (pipe c)" and conv: "conv_inv snd fst pipe_ok bs ms ?a"
    and wc: "\<forall>q. w_call (pipe c) = Some q \<longrightarrow> ?qs = [q]"
    and rc: "\<forall>p l. r_call (pipe c) = Some (p, l) \<longrightarrow> (\<exists>d. rx_request junk (rx_run c) = [(d, p, l)])"
    using inv by (auto simp: talk_inv_def)
  note ideal_step = ideal.tx_step_ok [OF conv]
  have same: "rx_run c' = rx_run c" if "tx_step wr c = Inr (Some c')" for wr c'
    using that by (auto simp: tx_step_def split: tx_run.splits list.splits prod.splits sum.splits option.splits if_splits)
  show ?thesis
  proof (cases "?qs = [] \<and> \<not> w_leaving (pipe c)")
    case True
    then have over: "tx_step pipe_write ?a = map_sum id (map_option (conv_over state)) (tx_step (\<lambda>_ _ _ _. Inr None) c)"
      by (intro tx_step_over) simp
    have at: "pipe c' = pipe c" if "tx_step (\<lambda>_ _ _ _. Inr None) c = Inr (Some c')" for c'
      using that by (auto simp: tx_step_def split: tx_run.splits list.splits prod.splits if_splits)
    have none: "w_call (pipe c) = None"
      using wc True by (cases "w_call (pipe c)") auto
    have talk: "talk_tx ws w_leaving c = tx_step (\<lambda>_ _ _ _. Inr None) c"
      using True by (simp add: talk_tx_def)
    show ?thesis
    proof (cases "\<exists>c'. tx_step (\<lambda>_ _ _ _. Inr None) c = Inr (Some c')")
      case True
      then obtain c' where c': "tx_step (\<lambda>_ _ _ _. Inr None) c = Inr (Some c')"
        by blast
      then have "tx_step pipe_write ?a = Inr (Some (conv_over state c'))"
        using over by simp
      then show ?thesis
        using ideal_step good none rc same [OF c'] at [OF c'] unfolding talk c' talk_inv_def by simp
    next
      case False
      then show ?thesis
        using ideal_step over unfolding talk by (cases "tx_step (\<lambda>_ _ _ _. Inr None) c") auto
    qed
  next
    case False
    then have go: "(?qs = [] \<and> \<not> w_leaving (pipe c)) = False"
      by blast
    note talk = talk_tx_def [of ws w_leaving c, unfolded go if_False]
    note step = ws_step [OF good _ wc, OF conjunct1 [OF tx_request_fits [OF conv]] conjunct2 [OF tx_request_fits [OF conv]]]
    show ?thesis
    proof (cases "ws ?qs (pipe c)")
      case (Inr o')
      show ?thesis
      proof (cases o')
        case None
        then show ?thesis
          using Inr unfolding talk by simp
      next
        case (Some q)
        then obtain r effect where ws: "ws ?qs (pipe c) = Inr (Some (r, effect))"
          using Inr by (cases q) auto
        then have r: "good r" "cap r = cap (pipe c)" "r_call r = r_call (pipe c)"
          using step by auto
        show ?thesis
        proof (cases effect)
          case False
          then have "conv_over state (c\<lparr>pipe := r\<rparr>) = ?a" "\<forall>q. w_call r = Some q \<longrightarrow> ?qs = [q]"
              "slack junk (c\<lparr>pipe := r\<rparr>) < slack junk c"
            using step ws by (auto simp: conv_over_def state_def slack_def)
          then show ?thesis
            using ws False r conv rc unfolding talk talk_inv_def by simp
        next
          case True
          then obtain src pos len where q: "?qs = [(src, pos, len)]" "w_call r = None" "cont r = cont (pipe c) @ take (unat len) (drop pos src)"
            using step ws by auto
          have fit: "pos + unat len \<le> length src"
            using tx_request_fits [OF conv] q(1) by (simp add: fits_def)
          then have room: "length (cont (pipe c)) + unat len \<le> cap (pipe c)"
            using within [OF r(1)] r(2) q(3) by simp
          have "tx_step pipe_write ?a = map_sum id (map_option (conv_over state)) (tx_step (\<lambda>_ _ _ _. Inr (Some r)) c)"
            by (rule tx_step_over) (use q fit room r(2) in \<open>simp add: state_def\<close>)
          moreover have "pipe c' = r" if "tx_step (\<lambda>_ _ _ _. Inr (Some r)) c = Inr (Some c')" for c'
            using that q(1) by (cases "tx_run c" rule: tx_request.cases) (auto simp: tx_step_def split: if_splits)
          moreover have "tx_step (\<lambda>_ _ _ _. Inr (Some r)) c \<noteq> Inr None"
            using q(1) by (cases "tx_run c" rule: tx_request.cases) (auto simp: tx_step_def split: if_splits)
          moreover have "\<not> isl (tx_step pipe_write ?a)"
            using ideal_step by (cases "tx_step pipe_write ?a") auto
          ultimately obtain c' where c': "tx_step (\<lambda>_ _ _ _. Inr (Some r)) c = Inr (Some c')" "pipe c' = r"
              "tx_step pipe_write ?a = Inr (Some (conv_over state c'))"
            by (cases "tx_step (\<lambda>_ _ _ _. Inr (Some r)) c") auto
          have "talk_tx ws w_leaving c = Inr (Some c')"
            using ws True c'(1) unfolding talk by simp
          then show ?thesis
            using ideal_step r rc same [OF c'(1)] c'(2,3) q(2) unfolding talk_inv_def by simp
        qed
      qed
    qed (use step in simp)
  qed
qed

lemma talk_rx_ok:
  assumes inv: "talk_inv junk bs ms c"
  shows "case talk_rx rs r_leaving grow junk c of
      Inl e \<Rightarrow> False
    | Inr None \<Rightarrow> True
    | Inr (Some c') \<Rightarrow> talk_inv junk bs ms c' \<and>
        (conv_over state c' = conv_over state c \<and> slack junk c' < slack junk c \<or>
         rx_step pipe_read grow junk (conv_over state c) = Inr (Some (conv_over state c')))"
proof -
  let ?a = "conv_over state c"
  let ?qs = "rx_request junk (rx_run c)"
  let ?idle = "\<lambda>_ _ _ _. Inr None"
  have good: "good (pipe c)" and conv: "conv_inv snd fst pipe_ok bs ms ?a"
    and wc: "\<forall>q. w_call (pipe c) = Some q \<longrightarrow> tx_request (tx_run c) = [q]"
    and rc: "\<forall>p l. r_call (pipe c) = Some (p, l) \<longrightarrow> (\<exists>d. ?qs = [(d, p, l)])"
    using inv by (auto simp: talk_inv_def)
  note ideal_step = ideal.rx_step_ok [OF conv, of grow junk]
  have same: "tx_run c' = tx_run c" if "rx_step rd grow junk c = Inr (Some c')" for rd c'
    using that by (auto simp: rx_step_def split: rx_run.splits list.splits prod.splits sum.splits option.splits if_splits)
  show ?thesis
  proof (cases "?qs = [] \<and> \<not> r_leaving (pipe c)")
    case True
    then have over: "rx_step pipe_read grow junk ?a = map_sum id (map_option (conv_over state)) (rx_step ?idle grow junk c)"
      by (intro rx_step_over) simp
    have at: "pipe c' = pipe c" if "rx_step ?idle grow junk c = Inr (Some c')" for c'
      using that by (auto simp: rx_step_def split: rx_run.splits list.splits prod.splits if_splits)
    have none: "r_call (pipe c) = None"
      using rc True by (cases "r_call (pipe c)") auto
    have talk: "talk_rx rs r_leaving grow junk c = rx_step ?idle grow junk c"
      using True by (simp add: talk_rx_def)
    show ?thesis
    proof (cases "\<exists>c'. rx_step ?idle grow junk c = Inr (Some c')")
      case True
      then obtain c' where c': "rx_step ?idle grow junk c = Inr (Some c')"
        by blast
      then have "rx_step pipe_read grow junk ?a = Inr (Some (conv_over state c'))"
        using over by simp
      then show ?thesis
        using ideal_step good none wc same [OF c'] at [OF c'] unfolding talk c' talk_inv_def by simp
    next
      case False
      then show ?thesis
        using ideal_step over unfolding talk by (cases "rx_step ?idle grow junk c") auto
    qed
  next
    case False
    then have go: "(?qs = [] \<and> \<not> r_leaving (pipe c)) = False"
      by blast
    note talk = talk_rx_def [of rs r_leaving grow junk c, unfolded go if_False]
    note step = rs_step [OF good _ rc, OF conjunct1 [OF rx_request_fits [OF conv]] conjunct2 [OF rx_request_fits [OF conv]]]
    show ?thesis
    proof (cases "rs ?qs (pipe c)")
      case (Inr o')
      show ?thesis
      proof (cases o')
        case None
        then show ?thesis
          using Inr unfolding talk by simp
      next
        case (Some q)
        then obtain r effect where rs: "rs ?qs (pipe c) = Inr (Some (r, effect))"
          using Inr by (cases q) auto
        then have r: "good r" "cap r = cap (pipe c)" "w_call r = w_call (pipe c)"
          using step by auto
        show ?thesis
        proof (cases effect)
          case None
          then have "conv_over state (c\<lparr>pipe := r\<rparr>) = ?a" "\<forall>p l. r_call r = Some (p, l) \<longrightarrow> (\<exists>d. ?qs = [(d, p, l)])"
              "slack junk (c\<lparr>pipe := r\<rparr>) < slack junk c"
            using step rs by (auto simp: conv_over_def state_def slack_def)
          then show ?thesis
            using rs None r conv wc unfolding talk talk_inv_def by simp
        next
          case (Some x)
          let ?rd = "\<lambda>_ dst pos len. Inr (Some (overlay dst pos x, r))"
          obtain dst pos len where q: "?qs = [(dst, pos, len)]" "r_call r = None" "length x = unat len" "cont (pipe c) = x @ cont r"
            using step rs Some by auto
          have fit: "pos + unat len \<le> length dst"
            using rx_request_fits [OF conv, of junk] q(1) by (simp add: fits_def)
          have "rx_step pipe_read grow junk ?a = map_sum id (map_option (conv_over state)) (rx_step ?rd grow junk c)"
            by (rule rx_step_over) (use q fit r(2) in \<open>simp add: state_def overlay_def\<close>)
          moreover have "pipe c' = r" if "rx_step ?rd grow junk c = Inr (Some c')" for c'
            using that q(1) by (cases "(junk, rx_run c)" rule: rx_request.cases) (auto simp: rx_step_def split: if_splits sum.splits)
          moreover have "rx_step ?rd grow junk c \<noteq> Inr None"
            using q(1) by (cases "(junk, rx_run c)" rule: rx_request.cases) (auto simp: rx_step_def split: if_splits sum.splits)
          moreover have "\<not> isl (rx_step pipe_read grow junk ?a)"
            using ideal_step by (cases "rx_step pipe_read grow junk ?a") auto
          ultimately obtain c' where c': "rx_step ?rd grow junk c = Inr (Some c')" "pipe c' = r"
              "rx_step pipe_read grow junk ?a = Inr (Some (conv_over state c'))"
            by (cases "rx_step ?rd grow junk c") auto
          have "talk_rx rs r_leaving grow junk c = Inr (Some c')"
            using rs Some c'(1) unfolding talk by simp
          then show ?thesis
            using ideal_step r wc same [OF c'(1)] c'(2,3) q(2) unfolding talk_inv_def by simp
        qed
      qed
    qed (use step in simp)
  qed
qed

lemma stray_over: "good (pipe c) \<Longrightarrow> conv_over state (c\<lparr>pipe := stray b (pipe c)\<rparr>) = conv_over state c"
  using stray_step [of "pipe c" b] by (simp add: conv_over_def state_def)

lemma talk_stray_ok: "talk_inv junk bs ms c \<Longrightarrow> talk_inv junk bs ms (c\<lparr>pipe := stray b (pipe c)\<rparr>)"
  using stray_step [of "pipe c" b] stray_over [of c b] by (simp add: talk_inv_def)

text \<open>Runs: the invariant, and the run of the abstract conversation that is behind.\<close>

lemma talk_fire_ok:
  assumes "talk_inv junk bs ms c" "talk_fire ws rs w_leaving r_leaving stray grow junk l c = Some c'"
  shows "talk_inv junk bs ms c' \<and>
    (conv_step pipe_write pipe_read grow junk)\<^sup>*\<^sup>* (conv_over state c) (conv_over state c')"
proof (cases l)
  case Tx
  then have "talk_tx ws w_leaving c = Inr (Some c')"
    using assms(2) by (simp split: sum.splits)
  then show ?thesis
    using talk_tx_ok [OF assms(1)] by (auto intro: conv_step.tx)
next
  case Rx
  then have "talk_rx rs r_leaving grow junk c = Inr (Some c')"
    using assms(2) by (simp split: sum.splits)
  then show ?thesis
    using talk_rx_ok [OF assms(1), of grow] by (auto intro: conv_step.rx)
next
  case StrayTx
  then have "c' = c\<lparr>pipe := stray True (pipe c)\<rparr>"
    using assms(2) by simp
  then show ?thesis
    using talk_stray_ok [OF assms(1)] stray_over [of c True] assms(1) by (simp add: talk_inv_def)
next
  case StrayRx
  then have "c' = c\<lparr>pipe := stray False (pipe c)\<rparr>"
    using assms(2) by simp
  then show ?thesis
    using talk_stray_ok [OF assms(1)] stray_over [of c False] assms(1) by (simp add: talk_inv_def)
qed

lemma talk_reach_ok:
  assumes "reach (talk_fire ws rs w_leaving r_leaving stray grow junk) c0 c" "talk_inv junk bs ms c0"
  shows "talk_inv junk bs ms c \<and> (conv_step pipe_write pipe_read grow junk)\<^sup>*\<^sup>* (conv_over state c0) (conv_over state c)"
  using assms(1)
proof induction
  case reach_refl
  then show ?case
    using assms(2) by simp
next
  case (reach_fire c l c')
  then show ?case
    using talk_fire_ok [of junk bs ms c grow l c'] by (auto intro: rtranclp_trans)
qed

lemma talk_start_ok:
  assumes "conv_start_ok bs tc rc ms args" "good r" "cap r = unat bs" "cont r = []" "w_call r = None" "r_call r = None"
  shows "talk_inv junk bs ms (conv_start r tc rc ms args)"
proof -
  have "conv_over state (conv_start r tc rc ms args) = conv_start (state r) tc rc ms args"
    by (simp add: conv_over_def conv_start_def)
  moreover have "conv_inv snd fst pipe_ok bs ms (conv_start (state r) tc rc ms args)"
    by (rule ideal.conv_start_inv [OF assms(1)]) (simp_all add: state_def pipe_ok_def assms(3,4))
  ultimately show ?thesis
    using assms(2,5,6) unfolding talk_inv_def by (simp add: conv_start_def [of r])
qed

text \<open>The steps of the threads are bounded by the work at the start and the spurious wake-ups.\<close>

definition talk_work :: "(nat \<Rightarrow> u8) \<Rightarrow> i32 \<Rightarrow> 'r conv \<Rightarrow> nat" where
  "talk_work junk bs c = Suc (most (unat bs)) * conv_work snd bs (conv_over state c) + slack junk c"

lemma slack_most: "talk_inv junk bs ms c \<Longrightarrow> slack junk c \<le> most (unat bs)"
  using work_most [of "pipe c"] by (auto simp: talk_inv_def slack_def conv_inv_def state_def)

lemma talk_move_work:
  assumes "talk_inv junk bs ms c" "talk_inv junk bs ms c'"
    and "conv_over state c' = conv_over state c \<and> slack junk c' < slack junk c \<or>
      conv_work snd bs (conv_over state c') < conv_work snd bs (conv_over state c)"
  shows "talk_work junk bs c' < talk_work junk bs c"
proof (cases "conv_over state c' = conv_over state c")
  case False
  then have "Suc (conv_work snd bs (conv_over state c')) \<le> conv_work snd bs (conv_over state c)"
    using assms(3) by simp
  then have "Suc (most (unat bs)) * Suc (conv_work snd bs (conv_over state c')) \<le> Suc (most (unat bs)) * conv_work snd bs (conv_over state c)"
    by (rule mult_le_mono2)
  then show ?thesis
    using slack_most [OF assms(2)] by (simp add: talk_work_def)
qed (use assms(3) in \<open>simp add: talk_work_def\<close>)

lemma talk_fire_work:
  assumes inv: "talk_inv junk bs ms c" and run: "talk_fire ws rs w_leaving r_leaving stray grow junk l c = Some c'"
  shows "talk_work junk bs c' + (if moves l then 1 else 0) \<le> talk_work junk bs c + (if moves l then 0 else 2)"
proof -
  have conv: "conv_inv snd fst pipe_ok bs ms (conv_over state c)" and good: "good (pipe c)"
    using inv by (simp_all add: talk_inv_def)
  note inv' = conjunct1 [OF talk_fire_ok [OF inv run]]
  have strays: "talk_work junk bs (c\<lparr>pipe := stray b (pipe c)\<rparr>) \<le> talk_work junk bs c + 2" for b
    using stray_step [OF good] stray_over [OF good] by (simp add: talk_work_def slack_def)
  show ?thesis
  proof (cases l)
    case Tx
    then have "talk_tx ws w_leaving c = Inr (Some c')"
      using run by (simp split: sum.splits)
    then have "talk_work junk bs c' < talk_work junk bs c"
      using talk_tx_ok [OF inv] ideal.tx_step_ok [OF conv] by (intro talk_move_work [OF inv inv']) auto
    then show ?thesis
      using Tx by simp
  next
    case Rx
    then have "talk_rx rs r_leaving grow junk c = Inr (Some c')"
      using run by (simp split: sum.splits)
    then have "talk_work junk bs c' < talk_work junk bs c"
      using talk_rx_ok [OF inv, of grow] ideal.rx_step_ok [OF conv, of grow junk] by (intro talk_move_work [OF inv inv']) auto
    then show ?thesis
      using Rx by simp
  qed (use run strays in auto)
qed

lemma talk_run_bound:
  assumes "run_actions (talk_fire ws rs w_leaving r_leaving stray grow junk) ls c = Some c'" "talk_inv junk bs ms c"
  shows "length (filter moves ls) + talk_work junk bs c' \<le> talk_work junk bs c + 2 * length (filter (\<lambda>l. \<not> moves l) ls)"
  using assms
proof (induction ls arbitrary: c)
  case (Cons l ls)
  then obtain d where d: "talk_fire ws rs w_leaving r_leaving stray grow junk l c = Some d"
      "run_actions (talk_fire ws rs w_leaving r_leaving stray grow junk) ls d = Some c'"
    by (auto split: option.splits)
  show ?case
    using Cons.IH [OF d(2) conjunct1 [OF talk_fire_ok [OF Cons.prems(2) d(1)]]] talk_fire_work [OF Cons.prems(2) d(1)]
    by (cases "moves l") simp_all
qed simp

text \<open>When neither thread can move, everything has arrived.\<close>

lemma talk_stuck_done:
  assumes inv: "talk_inv junk bs ms c" and tx: "talk_tx ws w_leaving c = Inr None"
    and rx: "talk_rx rs r_leaving grow junk c = Inr None"
  shows "rx_out c = ms \<and> tx_run c = TxIdle \<and> tx_msgs c = [] \<and> rx_run c = RxIdle"
proof -
  let ?a = "conv_over state c"
  let ?qs = "tx_request (tx_run c)" and ?ps = "rx_request junk (rx_run c)"
  have good: "good (pipe c)" and conv: "conv_inv snd fst pipe_ok bs ms ?a"
    and wc: "\<forall>q. w_call (pipe c) = Some q \<longrightarrow> ?qs = [q]"
    and rc: "\<forall>p l. r_call (pipe c) = Some (p, l) \<longrightarrow> (\<exists>d. ?ps = [(d, p, l)])"
    using inv by (auto simp: talk_inv_def)
  have ws: "ws ?qs (pipe c) = Inr None"
  proof (cases "?qs = [] \<and> \<not> w_leaving (pipe c)")
    case True
    then show ?thesis
      using ws_rest [OF good] wc by (cases "w_call (pipe c)") auto
  next
    case False
    have "tx_step (\<lambda>_ _ _ _. Inr (Some r)) c \<noteq> Inr None" if "?qs \<noteq> []" for r
      using that by (cases "tx_run c" rule: tx_request.cases) (auto simp: tx_step_def split: if_splits)
    moreover have "?qs \<noteq> []" if "ws ?qs (pipe c) = Inr (Some (r, True))" for r
      using ws_step [OF good _ wc, OF conjunct1 [OF tx_request_fits [OF conv]] conjunct2 [OF tx_request_fits [OF conv]]] that by auto
    ultimately show ?thesis
      using tx False unfolding talk_tx_def by (auto split: sum.splits option.splits if_splits)
  qed
  have rs: "rs ?ps (pipe c) = Inr None"
  proof (cases "?ps = [] \<and> \<not> r_leaving (pipe c)")
    case True
    then show ?thesis
      using rs_rest [OF good] rc by (cases "r_call (pipe c)") auto
  next
    case False
    have "rx_step (\<lambda>_ dst pos len. Inr (Some (overlay dst pos x, r))) grow junk c \<noteq> Inr None" if "?ps \<noteq> []" for r x
      using that by (cases "(junk, rx_run c)" rule: rx_request.cases) (auto simp: rx_step_def split: if_splits sum.splits)
    moreover have "?ps \<noteq> []" if "rs ?ps (pipe c) = Inr (Some (r, Some x))" for r x
      using rs_step [OF good _ rc, OF conjunct1 [OF rx_request_fits [OF conv]] conjunct2 [OF rx_request_fits [OF conv]]] that by auto
    ultimately show ?thesis
      using rx False unfolding talk_rx_def by (auto split: sum.splits option.splits if_splits)
  qed
  have fits: "list_all (fits (cap (pipe c))) (?qs @ ?ps)" "length ?qs \<le> 1" "length ?ps \<le> 1"
    using tx_request_fits [OF conv] rx_request_fits [OF conv] by auto
  note waits = stuck [OF good fits(1) wc rc fits(2,3) ws rs]
  have "tx_step pipe_write ?a = Inr None"
  proof (cases "?qs = []")
    case True
    then have "tx_step (\<lambda>_ _ _ _. Inr None) c = Inr None"
      using waits tx by (simp add: talk_tx_def)
    moreover have "tx_step pipe_write ?a = map_sum id (map_option (conv_over state)) (tx_step (\<lambda>_ _ _ _. Inr None) c)"
      by (rule tx_step_over) (use True in simp)
    ultimately show ?thesis
      by simp
  next
    case False
    then show ?thesis
      using waits by (cases "tx_run c" rule: tx_request.cases) (auto simp: tx_step_def state_def split: if_splits)
  qed
  moreover have "rx_step pipe_read grow junk ?a = Inr None"
  proof (cases "?ps = []")
    case True
    then have "rx_step (\<lambda>_ _ _ _. Inr None) grow junk c = Inr None"
      using waits rx by (simp add: talk_rx_def)
    moreover have "rx_step pipe_read grow junk ?a = map_sum id (map_option (conv_over state)) (rx_step (\<lambda>_ _ _ _. Inr None) grow junk c)"
      by (rule rx_step_over) (use True in simp)
    ultimately show ?thesis
      by simp
  next
    case False
    then show ?thesis
      using waits by (cases "(junk, rx_run c)" rule: rx_request.cases) (auto simp: rx_step_def state_def split: if_splits)
  qed
  ultimately have "\<nexists>c'. conv_step pipe_write pipe_read grow junk ?a c'"
    by (auto elim: conv_step.cases)
  from ideal.conv_stuck_done [OF conv this] show ?thesis
    by simp
qed

lemma talk_no_fault:
  "talk_inv junk bs ms c \<Longrightarrow> \<not> isl (talk_tx ws w_leaving c) \<and> \<not> isl (talk_rx rs r_leaving grow junk c)"
  using talk_tx_ok [of junk bs ms c] talk_rx_ok [of junk bs ms c grow] by (auto split: sum.splits)

lemma talk_delivers:
  assumes "talk_inv junk bs ms c"
  shows "\<exists>rest. ms = rx_out c @ rest" "counted (rx_out c) (m_bytes_recv (rx_chan c)) (m_packet_recv (rx_chan c))"
proof -
  have conv: "conv_inv snd fst pipe_ok bs ms (conv_over state c)"
    using assms by (simp add: talk_inv_def)
  show "\<exists>rest. ms = rx_out c @ rest" "counted (rx_out c) (m_bytes_recv (rx_chan c)) (m_packet_recv (rx_chan c))"
    using ideal.conv_inv_prefix [OF conv] ideal.conv_inv_counts [OF conv] by simp_all
qed

end

end
