(* ===== verification/TalkCv.thy ===== *)
theory TalkCv imports Talk begin

text \<open>
  The ring with its condition variable as a ring with two threads: the sublocale gives every
  \<^verbatim>\<open>byte_pipe\<close> guarded by the mutex of theory \<^verbatim>\<open>RingCv\<close> the conversation of theory \<^verbatim>\<open>Talk\<close>.
\<close>

section \<open>The steps of the calls\<close>

text \<open>
  The thread of a conversation begins a call by handing the machine that one request. \<open>sent\<close> and \<open>got\<close> grow in the
  step in which the call takes effect.
\<close>

definition cv_ws :: "('v \<Rightarrow> bytes \<Rightarrow> nat \<Rightarrow> u32 \<Rightarrow> fault + 'v option) \<Rightarrow> request list \<Rightarrow> 'v cv_state \<Rightarrow> fault + ('v cv_state \<times> bool) option" where
  "cv_ws wr qs s =
     (case write_step wr (s\<lparr>w_reqs := qs\<rparr>) of
        None \<Rightarrow> Inr None
      | Some s' \<Rightarrow>
          (case cv_fault s' of
             Some e \<Rightarrow> Inl e
           | None \<Rightarrow> Inr (Some (s'\<lparr>w_reqs := []\<rparr>, length (sent s) < length (sent s')))))"

definition cv_rs :: "('v \<Rightarrow> bytes \<Rightarrow> nat \<Rightarrow> u32 \<Rightarrow> fault + (bytes \<times> 'v) option) \<Rightarrow> request list \<Rightarrow> 'v cv_state \<Rightarrow>
    fault + ('v cv_state \<times> bytes option) option" where
  "cv_rs rd qs s =
     (case read_step rd (s\<lparr>r_reqs := qs\<rparr>) of
        None \<Rightarrow> Inr None
      | Some s' \<Rightarrow>
          (case cv_fault s' of
             Some e \<Rightarrow> Inl e
           | None \<Rightarrow> Inr (Some (s'\<lparr>r_reqs := []\<rparr>, if length (got s) < length (got s') then Some (last (got s')) else None))))"

fun leaving :: "side \<Rightarrow> bool" where
  "leaving Leaving = True"
| "leaving Signalling = True"
| "leaving _ = False"

definition cv_stray :: "bool \<Rightarrow> 'v cv_state \<Rightarrow> 'v cv_state" where
  "cv_stray writer s = (if writer then s\<lparr>w_side := awaken (w_side s)\<rparr> else s\<lparr>r_side := awaken (r_side s)\<rparr>)"

definition place :: "request \<Rightarrow> nat \<times> u32" where
  "place q = snd q"

text \<open>
  The steps a thread can make before its call takes effect; one that leaves a call may wake the other, and may begin the
  next call.
\<close>

fun side_work :: "request list \<Rightarrow> side \<Rightarrow> nat" where
  "side_work qs Resting = (if qs = [] then 0 else 4)"
| "side_work qs (Locking q) = 3"
| "side_work qs (Deciding q) = 2"
| "side_work qs (Sleeping q) = 1"
| "side_work qs (Woken q) = 3"
| "side_work qs Leaving = 8"
| "side_work qs Signalling = 7"

lemma side_work_awaken: "side_work qs (awaken x) \<le> side_work qs x + 2"
  by (cases x) simp_all

lemma side_work_most: "side_work qs x \<le> 8"
  by (cases x) simp_all

text \<open>Between calls no request waits in the machine.\<close>

definition cv_good :: "('v \<Rightarrow> bytes) \<Rightarrow> ('v \<Rightarrow> nat) \<Rightarrow> ('v \<Rightarrow> bool) \<Rightarrow> 'v cv_state \<Rightarrow> bool" where
  "cv_good cont cap ok s \<longleftrightarrow> cv_ok cont cap ok (cap (shared s)) s \<and> length (cont (shared s)) \<le> cap (shared s) \<and>
     w_reqs s = [] \<and> r_reqs s = []"

lemma cv_good_start: "ok v \<Longrightarrow> cont v = [] \<Longrightarrow> cv_good cont cap ok (cv_start v [] [])"
  by (simp add: cv_good_def cv_ok_def cv_parts cv_start_def)

lemma cv_ok_reqs:
  assumes "cv_ok cont cap ok N s" "list_all (fits N) qs" "list_all (fits N) ps"
  shows "cv_ok cont cap ok N (s\<lparr>w_reqs := qs, r_reqs := ps\<rparr>)"
proof -
  have "requests_ok N (s\<lparr>w_reqs := qs, r_reqs := ps\<rparr>)"
    using assms by (auto simp: cv_ok_def requests_ok_def list_all_iff)
  then show ?thesis
    using assms(1) by (simp add: cv_ok_def mutex_ok_def awake_ok_def)
qed

section \<open>What a step changes\<close>

context byte_pipe
begin

lemma write_step_changes:
  assumes inv: "cv_ok cont cap ok N s" and run: "write_step wr s = Some s'"
  shows "r_reqs s' = r_reqs s \<and> pending (r_side s') = pending (r_side s) \<and>
    (sent s' = sent s \<and> cont (shared s') = cont (shared s) \<and>
       (\<forall>q. pending (w_side s') = Some q \<longrightarrow> pending (w_side s) = Some q \<or> w_side s = Resting \<and> (\<exists>qs. w_reqs s = q # qs)) \<and>
       (\<forall>ps. side_work (w_reqs s) (w_side s') + side_work ps (r_side s') < side_work (w_reqs s) (w_side s) + side_work ps (r_side s)) \<or>
     (\<exists>src pos len. pending (w_side s) = Some (src, pos, len) \<and> pending (w_side s') = None \<and>
       sent s' = sent s @ [take (unat len) (drop pos src)] \<and> cont (shared s') = cont (shared s) @ take (unat len) (drop pos src) \<and>
       length (cont (shared s')) \<le> cap (shared s')))"
proof (cases "w_side s")
  case (Deciding q)
  obtain src pos len where q: "q = (src, pos, len)"
    by (cases q)
  have f: "ok (shared s)" "unat len \<le> cap (shared s)" "pos + unat len \<le> length src"
    using inv Deciding q by (auto simp: cv_ok_def requests_ok_def fits_def)
  show ?thesis
    by (cases rule: wr_cases [OF f]) (use run Deciding q in \<open>auto simp: write_step_def\<close>)
next
  case Signalling
  have "side_work ps (awaken (r_side s)) < 3 + side_work ps (r_side s) \<and>
      side_work ps (awaken (r_side s)) < 7 + side_work ps (r_side s)" for ps
    using side_work_awaken [of ps "r_side s"] by simp
  then show ?thesis
    using run Signalling by (simp add: write_step_def) auto
qed (use run in \<open>auto simp: write_step_def mutex_lock_def split: list.splits if_splits\<close>)

lemma read_step_changes:
  assumes inv: "cv_ok cont cap ok N s" and run: "read_step rd s = Some s'"
  shows "w_reqs s' = w_reqs s \<and> pending (w_side s') = pending (w_side s) \<and>
    (got s' = got s \<and> cont (shared s') = cont (shared s) \<and>
       (\<forall>q. pending (r_side s') = Some q \<longrightarrow> pending (r_side s) = Some q \<or> r_side s = Resting \<and> (\<exists>qs. r_reqs s = q # qs)) \<and>
       (\<forall>ps. side_work ps (w_side s') + side_work (r_reqs s) (r_side s') < side_work ps (w_side s) + side_work (r_reqs s) (r_side s)) \<or>
     (\<exists>dst pos len x. pending (r_side s) = Some (dst, pos, len) \<and> pending (r_side s') = None \<and>
       got s' = got s @ [x] \<and> length x = unat len \<and> cont (shared s) = x @ cont (shared s')))"
proof (cases "r_side s")
  case (Deciding q)
  obtain dst pos len where q: "q = (dst, pos, len)"
    by (cases q)
  have f: "ok (shared s)" "pos + unat len \<le> length dst"
    using inv Deciding q by (auto simp: cv_ok_def requests_ok_def fits_def)
  show ?thesis
    by (cases rule: rd_cases [OF f]) (use run Deciding q f(2) in \<open>auto simp: read_step_def min_def\<close>)
next
  case Signalling
  have "side_work ps (awaken (w_side s)) < 3 + side_work ps (w_side s) \<and>
      side_work ps (awaken (w_side s)) < side_work ps (w_side s) + 7" for ps
    using side_work_awaken [of ps "w_side s"] by simp
  then show ?thesis
    using run Signalling by (simp add: read_step_def) auto
qed (use run in \<open>auto simp: read_step_def mutex_lock_def split: list.splits if_splits\<close>)

section \<open>The contract\<close>

lemma cv_ws_ok:
  assumes good: "cv_good cont cap ok s" and fit: "list_all (fits (cap (shared s))) qs"
    and pend: "\<forall>q. pending (w_side s) = Some q \<longrightarrow> qs = [q]" and one: "length qs \<le> 1"
  shows "case cv_ws wr qs s of
      Inl e \<Rightarrow> False
    | Inr None \<Rightarrow> True
    | Inr (Some (s', effect)) \<Rightarrow>
        cv_good cont cap ok s' \<and> cap (shared s') = cap (shared s) \<and>
        map_option place (pending (r_side s')) = map_option place (pending (r_side s)) \<and>
        (if effect
         then \<exists>src pos len. qs = [(src, pos, len)] \<and> pending (w_side s') = None \<and>
           cont (shared s') = cont (shared s) @ take (unat len) (drop pos src)
         else cont (shared s') = cont (shared s) \<and> (\<forall>q. pending (w_side s') = Some q \<longrightarrow> qs = [q]) \<and>
           (\<forall>ps. side_work qs (w_side s') + side_work ps (r_side s') < side_work qs (w_side s) + side_work ps (r_side s)))"
proof (cases "write_step wr (s\<lparr>w_reqs := qs\<rparr>)")
  case (Some t)
  let ?N = "cap (shared s)" and ?s = "s\<lparr>w_reqs := qs\<rparr>"
  have "?s = s\<lparr>w_reqs := qs, r_reqs := []\<rparr>"
    using good by (simp add: cv_good_def)
  then have ok: "cv_ok cont cap ok ?N ?s"
    using cv_ok_reqs [OF _ fit, of cont cap ok s "[]"] good by (simp add: cv_good_def)
  note kept = write_step_kept [OF ok Some] and changes = write_step_changes [OF ok Some]
  have t: "r_reqs t = []" "cap (shared t) = ?N" "cv_fault t = None"
    using changes kept good by (auto simp: cv_good_def cv_ok_def)
  have "cv_ok cont cap ok ?N (t\<lparr>w_reqs := []\<rparr>)"
    using cv_ok_reqs [OF kept, of "[]" "[]"] t(1) by (simp add: cv_ok_def cv_parts)
  moreover have "length (cont (shared t)) \<le> cap (shared t)"
    using changes good t(2) by (auto simp: cv_good_def)
  ultimately have good': "cv_good cont cap ok (t\<lparr>w_reqs := []\<rparr>)"
    using t by (simp add: cv_good_def)
  have ws: "cv_ws wr qs s = Inr (Some (t\<lparr>w_reqs := []\<rparr>, length (sent s) < length (sent t)))"
    using Some t(3) by (simp add: cv_ws_def)
  consider (quiet) "sent t = sent s" "cont (shared t) = cont (shared s)" "\<forall>q. pending (w_side t) = Some q \<longrightarrow> qs = [q]"
      "\<forall>ps. side_work qs (w_side t) + side_work ps (r_side t) < side_work qs (w_side s) + side_work ps (r_side s)"
    | (effect) src pos len where "qs = [(src, pos, len)]" "pending (w_side t) = None" "length (sent t) = Suc (length (sent s))"
      "cont (shared t) = cont (shared s) @ take (unat len) (drop pos src)"
  proof (cases "sent t = sent s")
    case True
    then have "pending (w_side s) = Some q \<or> w_side s = Resting \<and> (\<exists>qs'. qs = q # qs')" if "pending (w_side t) = Some q" for q
      using changes that by auto
    moreover have "qs = [q]" if "\<exists>qs'. qs = q # qs'" for q
      using that one by auto
    ultimately have "\<forall>q. pending (w_side t) = Some q \<longrightarrow> qs = [q]"
      using pend by blast
    then show thesis
      by (rule quiet [OF True, rotated]) (use changes True in simp_all)
  next
    case False
    then show thesis
      using changes pend by (auto intro: effect)
  qed
  then show ?thesis
    using changes good' t(2) unfolding ws by cases auto
qed (simp add: cv_ws_def)

lemma cv_rs_ok:
  assumes good: "cv_good cont cap ok s" and fit: "list_all (fits (cap (shared s))) qs"
    and pend: "\<forall>p l. map_option place (pending (r_side s)) = Some (p, l) \<longrightarrow> (\<exists>d. qs = [(d, p, l)])" and one: "length qs \<le> 1"
  shows "case cv_rs rd qs s of
      Inl e \<Rightarrow> False
    | Inr None \<Rightarrow> True
    | Inr (Some (s', effect)) \<Rightarrow>
        cv_good cont cap ok s' \<and> cap (shared s') = cap (shared s) \<and> pending (w_side s') = pending (w_side s) \<and>
        (case effect of
           Some x \<Rightarrow> \<exists>dst pos len. qs = [(dst, pos, len)] \<and> map_option place (pending (r_side s')) = None \<and>
             length x = unat len \<and> cont (shared s) = x @ cont (shared s')
         | None \<Rightarrow> cont (shared s') = cont (shared s) \<and>
             (\<forall>p l. map_option place (pending (r_side s')) = Some (p, l) \<longrightarrow> (\<exists>d. qs = [(d, p, l)])) \<and>
             (\<forall>ps. side_work ps (w_side s') + side_work qs (r_side s') < side_work ps (w_side s) + side_work qs (r_side s)))"
proof (cases "read_step rd (s\<lparr>r_reqs := qs\<rparr>)")
  case (Some t)
  let ?N = "cap (shared s)" and ?s = "s\<lparr>r_reqs := qs\<rparr>"
  have "?s = s\<lparr>w_reqs := [], r_reqs := qs\<rparr>"
    using good by (simp add: cv_good_def)
  then have ok: "cv_ok cont cap ok ?N ?s"
    using cv_ok_reqs [OF _ _ fit, of cont cap ok s "[]"] good unfolding \<open>?s = _\<close> by (simp add: cv_good_def)
  note kept = read_step_kept [OF ok Some] and changes = read_step_changes [OF ok Some]
  have t: "w_reqs t = []" "cap (shared t) = ?N" "cv_fault t = None"
    using changes kept good by (auto simp: cv_good_def cv_ok_def)
  have "cv_ok cont cap ok ?N (t\<lparr>r_reqs := []\<rparr>)"
    using cv_ok_reqs [OF kept, of "[]" "[]"] t(1) by (simp add: cv_ok_def cv_parts)
  moreover have "length (cont (shared t)) \<le> cap (shared t)"
    using changes good t(2) by (auto simp: cv_good_def dest: arg_cong [of _ _ length])
  ultimately have good': "cv_good cont cap ok (t\<lparr>r_reqs := []\<rparr>)"
    using t by (simp add: cv_good_def)
  have rs: "cv_rs rd qs s =
      Inr (Some (t\<lparr>r_reqs := []\<rparr>, if length (got s) < length (got t) then Some (last (got t)) else None))"
    using Some t(3) by (simp add: cv_rs_def)
  consider (quiet) "got t = got s" "cont (shared t) = cont (shared s)" "\<forall>d p l. pending (r_side t) = Some (d, p, l) \<longrightarrow> (\<exists>d. qs = [(d, p, l)])"
      "\<forall>ps. side_work ps (w_side t) + side_work qs (r_side t) < side_work ps (w_side s) + side_work qs (r_side s)"
    | (effect) dst pos len x where "qs = [(dst, pos, len)]" "pending (r_side t) = None" "got t = got s @ [x]"
      "length x = unat len" "cont (shared s) = x @ cont (shared t)"
  proof (cases "got t = got s")
    case True
    then have "pending (r_side s) = Some q \<or> r_side s = Resting \<and> (\<exists>qs'. qs = q # qs')" if "pending (r_side t) = Some q" for q
      using changes that by auto
    moreover have "qs = [q]" if "\<exists>qs'. qs = q # qs'" for q
      using that one by auto
    moreover have "\<exists>d. qs = [(d, p, l)]" if "pending (r_side s) = Some (d, p, l)" for d p l
      using pend that by (simp add: place_def)
    ultimately have "\<forall>d p l. pending (r_side t) = Some (d, p, l) \<longrightarrow> (\<exists>d. qs = [(d, p, l)])"
      by blast
    then show thesis
      by (rule quiet [OF True, rotated]) (use changes True in simp_all)
  next
    case False
    then obtain dst pos len x where x: "pending (r_side s) = Some (dst, pos, len)" "pending (r_side t) = None" "got t = got s @ [x]"
        "length x = unat len" "cont (shared s) = x @ cont (shared t)"
      using changes by auto
    moreover obtain d where "qs = [(d, pos, len)]"
      using pend x(1) by (auto simp: place_def)
    ultimately show thesis
      by (intro effect)
  qed
  then show ?thesis
    using changes good' t(2) unfolding rs by cases (auto simp: place_def)
qed (simp add: cv_rs_def)

lemma cv_stuck:
  assumes good: "cv_good cont cap ok s" and fit: "list_all (fits (cap (shared s))) (qs @ ps)"
    and pend: "\<forall>q. pending (w_side s) = Some q \<longrightarrow> qs = [q]"
      "\<forall>p l. map_option place (pending (r_side s)) = Some (p, l) \<longrightarrow> (\<exists>d. ps = [(d, p, l)])"
    and rest: "cv_ws wr qs s = Inr None" "cv_rs rd ps s = Inr None"
  shows "(qs = [] \<longrightarrow> \<not> leaving (w_side s)) \<and>
    (\<forall>src pos len. qs = [(src, pos, len)] \<longrightarrow> cap (shared s) < length (cont (shared s)) + unat len) \<and>
    (ps = [] \<longrightarrow> \<not> leaving (r_side s)) \<and>
    (\<forall>dst pos len. ps = [(dst, pos, len)] \<longrightarrow> length (cont (shared s)) < unat len)"
proof -
  let ?s = "s\<lparr>w_reqs := qs, r_reqs := ps\<rparr>"
  have ok: "cv_ok cont cap ok (cap (shared s)) ?s"
    using cv_ok_reqs [of cont cap ok _ s qs ps] good fit by (simp add: cv_good_def)
  have "write_step wr (s\<lparr>w_reqs := qs\<rparr>) = None" "read_step rd (s\<lparr>r_reqs := ps\<rparr>) = None"
    using rest by (auto simp: cv_ws_def cv_rs_def split: option.splits)
  moreover have "write_step wr ?s = None \<longleftrightarrow> write_step wr (s\<lparr>w_reqs := qs\<rparr>) = None"
    by (cases "w_side s") (auto simp: write_step_def split: list.splits option.splits)
  moreover have "read_step rd ?s = None \<longleftrightarrow> read_step rd (s\<lparr>r_reqs := ps\<rparr>) = None"
    by (cases "r_side s") (auto simp: read_step_def split: list.splits option.splits)
  ultimately have "write_step wr ?s = None" "read_step rd ?s = None"
    by simp_all
  from cv_blocked [OF ok this] pend show ?thesis
    by (auto simp: place_def)
qed

end

sublocale byte_pipe < cv: ring_threads "cv_ws wr" "cv_rs rd" "\<lambda>s. leaving (w_side s)" "\<lambda>s. leaving (r_side s)" cv_stray
    "\<lambda>s. pending (w_side s)" "\<lambda>s. map_option place (pending (r_side s))" "\<lambda>s. cont (shared s)" "\<lambda>s. cap (shared s)"
    "cv_good cont cap ok" "\<lambda>qs ps s. side_work qs (w_side s) + side_work ps (r_side s)" "\<lambda>_. 16"
proof
  fix s
  assume good: "cv_good cont cap ok s"
  then show "length (cont (shared s)) \<le> cap (shared s)"
    by (simp add: cv_good_def)
  show "cv_good cont cap ok (cv_stray b s) \<and> cap (shared (cv_stray b s)) = cap (shared s) \<and>
      cont (shared (cv_stray b s)) = cont (shared s) \<and> pending (w_side (cv_stray b s)) = pending (w_side s) \<and>
      map_option place (pending (r_side (cv_stray b s))) = map_option place (pending (r_side s)) \<and>
      side_work qs (w_side (cv_stray b s)) + side_work ps (r_side (cv_stray b s))
        \<le> side_work qs (w_side s) + side_work ps (r_side s) + 2" for b qs ps
    using good side_work_awaken [of qs "w_side s"] side_work_awaken [of ps "r_side s"]
    by (cases b) (auto simp: cv_good_def cv_stray_def cv_ok_def cv_parts)
  show "side_work qs (w_side s) + side_work ps (r_side s) \<le> 16" for qs ps
    using side_work_most [of qs "w_side s"] side_work_most [of ps "r_side s"] by simp
  show "pending (w_side s) = None \<Longrightarrow> \<not> leaving (w_side s) \<Longrightarrow> cv_ws wr [] s = Inr None"
    by (cases "w_side s") (simp_all add: cv_ws_def write_step_def)
  show "map_option place (pending (r_side s)) = None \<Longrightarrow> \<not> leaving (r_side s) \<Longrightarrow> cv_rs rd [] s = Inr None"
    by (cases "r_side s") (simp_all add: cv_rs_def read_step_def)
qed (assumption | rule cv_ws_ok cv_rs_ok cv_stuck)+

end
