(* ===== verification/TalkSpin.thy ===== *)
theory TalkSpin imports Talk begin

text \<open>The ring without a lock (theory \<^verbatim>\<open>RingSpin\<close>) as a ring with two threads.\<close>

section \<open>The steps of the calls\<close>

text \<open>
  As in theory \<^verbatim>\<open>TalkCv\<close>, a thread begins a call by handing the machine that one request. A round of the busy loop
  that finds its guard false changes nothing: it counts as waiting.
\<close>

definition spin_ws :: "request list \<Rightarrow> spin_state \<Rightarrow> fault + (spin_state \<times> bool) option" where
  "spin_ws qs s =
     (case spin_write (s\<lparr>w_todo := qs\<rparr>) of
        None \<Rightarrow> Inr None
      | Some s' \<Rightarrow>
          (case spin_fault s' of
             Some e \<Rightarrow> Inl e
           | None \<Rightarrow>
               if s' = s\<lparr>w_todo := qs\<rparr> then Inr None
               else Inr (Some (s'\<lparr>w_todo := []\<rparr>, length (w_done s) < length (w_done s')))))"

definition spin_rs :: "request list \<Rightarrow> spin_state \<Rightarrow> fault + (spin_state \<times> bytes option) option" where
  "spin_rs qs s =
     (case spin_read (s\<lparr>r_todo := qs\<rparr>) of
        None \<Rightarrow> Inr None
      | Some s' \<Rightarrow>
          (case spin_fault s' of
             Some e \<Rightarrow> Inl e
           | None \<Rightarrow>
               if s' = s\<lparr>r_todo := qs\<rparr> then Inr None
               else Inr (Some (s'\<lparr>r_todo := []\<rparr>, if length (r_done s) < length (r_done s') then Some (last (r_done s')) else None))))"

fun busy :: "spin_pc \<Rightarrow> request option" where
  "busy Idle = None"
| "busy (Guard q) = Some q"
| "busy (Clip q) = Some q"
| "busy (Copy q i) = Some q"

text \<open>The steps a thread can make before its call takes effect, in a ring of \<open>N\<close> bytes.\<close>

fun pc_work :: "nat \<Rightarrow> request list \<Rightarrow> spin_pc \<Rightarrow> nat" where
  "pc_work N qs Idle = (if qs = [] then 0 else N + 4)"
| "pc_work N qs (Guard q) = N + 3"
| "pc_work N qs (Clip q) = N + 2"
| "pc_work N qs (Copy q i) = N + 1 - i"

lemma pc_work_most: "pc_work N qs pc \<le> N + 4"
  by (cases pc) simp_all

definition spin_good :: "spin_state \<Rightarrow> bool" where
  "spin_good s \<longleftrightarrow> spin_ok (unat (buf_size (spin_view s))) s \<and> w_todo s = [] \<and> r_todo s = []"

lemma spin_good_start: "ring_ok v \<Longrightarrow> contents v = [] \<Longrightarrow> spin_good (spin_start v [] [])"
  by (simp add: spin_good_def spin_ok_def spin_start_def)

lemma spin_ok_todo:
  assumes "spin_ok N s" "list_all (fits N) qs" "list_all (fits N) ps"
  shows "spin_ok N (s\<lparr>w_todo := qs, r_todo := ps\<rparr>)"
  using assms by (auto simp: spin_ok_def list_all_iff)

section \<open>What a step changes\<close>

lemma spin_write_changes:
  assumes inv: "spin_ok N s" and run: "spin_write s = Some s'"
  shows "r_todo s' = r_todo s \<and> r_pc s' = r_pc s \<and> r_done s' = r_done s \<and>
    (w_done s' = w_done s \<and> (\<forall>q. busy (w_pc s') = Some q \<longrightarrow> busy (w_pc s) = Some q \<or> w_pc s = Idle \<and> (\<exists>qs. w_todo s = q # qs)) \<and>
       (s' = s \<or> pc_work N (w_todo s) (w_pc s') < pc_work N (w_todo s) (w_pc s)) \<or>
     (\<exists>src pos len. busy (w_pc s) = Some (src, pos, len) \<and> busy (w_pc s') = None \<and>
       w_done s' = w_done s @ [take (unat len) (drop pos src)]))"
proof (cases "w_pc s")
  case (Clip q)
  obtain src pos len where q: "q = (src, pos, len)"
    by (cases q)
  have "used (spin_view s) + unat len \<le> unat (buf_size (spin_view s))"
    using spin_okD(6) [OF inv] Clip q by simp
  then show ?thesis
    using run Clip q clip_put [OF spin_okD(2) [OF inv]] by (auto simp: spin_write_def Let_def)
next
  case (Copy q i)
  moreover from this have "spin_fault s' = None" "request_len q \<le> N"
    using spin_okD(1) [OF spin_write_kept [OF inv run]] spin_okD(3,6) [OF inv] by (cases q; simp add: fits_def)+
  ultimately show ?thesis
    using run by (cases q) (auto simp: spin_write_def Let_def split: if_splits)
qed (use run in \<open>auto simp: spin_write_def Let_def split: list.splits if_splits\<close>)

lemma spin_write_contents:
  assumes inv: "spin_ok N s" and run: "spin_write s = Some s'" and all: "w_done s' = w_done s @ xs"
  shows "contents (spin_view s') = contents (spin_view s) @ concat xs"
  using spin_okD(4) [OF spin_write_kept [OF inv run]] spin_okD(4) [OF inv] spin_write_record(1) [OF run] all by simp

lemma spin_read_changes:
  assumes inv: "spin_ok N s" and run: "spin_read s = Some s'"
  shows "w_todo s' = w_todo s \<and> w_pc s' = w_pc s \<and> w_done s' = w_done s \<and>
    (r_done s' = r_done s \<and> (\<forall>d p l. busy (r_pc s') = Some (d, p, l) \<longrightarrow>
       (\<exists>d. busy (r_pc s) = Some (d, p, l)) \<or> r_pc s = Idle \<and> (\<exists>qs. r_todo s = (d, p, l) # qs)) \<and>
       (s' = s \<or> pc_work N (r_todo s) (r_pc s') < pc_work N (r_todo s) (r_pc s)) \<or>
     (\<exists>dst pos len x. busy (r_pc s) = Some (dst, pos, len) \<and> busy (r_pc s') = None \<and> r_done s' = r_done s @ [x] \<and> length x = unat len))"
proof (cases "r_pc s")
  case (Clip q)
  then show ?thesis
    using run spin_okD(7) [OF inv] clip_get by (cases q) (auto simp: spin_read_def Let_def)
next
  case (Copy q i)
  moreover from this have "spin_fault s' = None" "request_len q \<le> N"
    using spin_okD(1) [OF spin_read_kept [OF inv run]] spin_okD(3,7) [OF inv] by (cases q; simp add: fits_def)+
  ultimately show ?thesis
    using run spin_okD(7) [OF inv] by (cases q) (auto simp: spin_read_def Let_def fits_def min_def split: if_splits)
qed (use run in \<open>auto simp: spin_read_def Let_def split: list.splits if_splits\<close>)

lemma spin_read_contents:
  assumes inv: "spin_ok N s" and run: "spin_read s = Some s'" and all: "r_done s' = r_done s @ xs"
  shows "contents (spin_view s) = concat xs @ contents (spin_view s')"
  using spin_okD(4) [OF spin_read_kept [OF inv run]] spin_okD(4) [OF inv] spin_read_changes [OF inv run] all by simp

text \<open>A thread that waits is at its guard, and the guard is false.\<close>

lemma spin_write_waits:
  assumes inv: "spin_ok N s" and rest: "spin_write s = None \<or> spin_write s = Some s"
  shows "w_pc s = Idle \<and> w_todo s = [] \<or>
    (\<exists>src pos len. w_pc s = Guard (src, pos, len) \<and> N < length (contents (spin_view s)) + unat len)"
proof -
  have same: "spin_write s = None \<or> (\<exists>s'. spin_write s = Some s' \<and> w_pc s' = w_pc s \<and> spin_fault s' = None)"
    using rest spin_okD(1) [OF inv] by auto
  show ?thesis
  proof (cases "w_pc s")
    case (Guard q)
    then show ?thesis
      using same can_put_iff [OF spin_okD(2) [OF inv]] spin_okD(3,6) [OF inv]
      by (cases q) (auto simp: spin_write_def Let_def fits_def split: if_splits)
  qed (use same in \<open>auto simp: spin_write_def Let_def split: list.splits if_splits\<close>)
qed

lemma spin_read_waits:
  assumes inv: "spin_ok N s" and rest: "spin_read s = None \<or> spin_read s = Some s"
  shows "r_pc s = Idle \<and> r_todo s = [] \<or>
    (\<exists>dst pos len. r_pc s = Guard (dst, pos, len) \<and> length (contents (spin_view s)) < unat len)"
proof -
  have same: "spin_read s = None \<or> (\<exists>s'. spin_read s = Some s' \<and> r_pc s' = r_pc s \<and> spin_fault s' = None)"
    using rest spin_okD(1) [OF inv] by auto
  then show ?thesis
    by (cases "r_pc s") (auto simp: spin_read_def Let_def split: list.splits if_splits)
qed

section \<open>The contract\<close>

lemma spin_ws_ok:
  assumes good: "spin_good s" and fit: "list_all (fits (unat (buf_size (spin_view s)))) qs"
    and pend: "\<forall>q. busy (w_pc s) = Some q \<longrightarrow> qs = [q]" and one: "length qs \<le> 1"
  shows "case spin_ws qs s of
      Inl e \<Rightarrow> False
    | Inr None \<Rightarrow> True
    | Inr (Some (s', effect)) \<Rightarrow>
        spin_good s' \<and> unat (buf_size (spin_view s')) = unat (buf_size (spin_view s)) \<and>
        map_option snd (busy (r_pc s')) = map_option snd (busy (r_pc s)) \<and>
        (if effect
         then \<exists>src pos len. qs = [(src, pos, len)] \<and> busy (w_pc s') = None \<and>
           contents (spin_view s') = contents (spin_view s) @ take (unat len) (drop pos src)
         else contents (spin_view s') = contents (spin_view s) \<and> (\<forall>q. busy (w_pc s') = Some q \<longrightarrow> qs = [q]) \<and>
           (\<forall>ps. pc_work (unat (buf_size (spin_view s'))) qs (w_pc s') + pc_work (unat (buf_size (spin_view s'))) ps (r_pc s')
             < pc_work (unat (buf_size (spin_view s))) qs (w_pc s) + pc_work (unat (buf_size (spin_view s))) ps (r_pc s)))"
proof (cases "spin_write (s\<lparr>w_todo := qs\<rparr>)")
  case (Some t)
  let ?N = "unat (buf_size (spin_view s))" and ?s = "s\<lparr>w_todo := qs\<rparr>"
  have "?s = s\<lparr>w_todo := qs, r_todo := []\<rparr>"
    using good by (simp add: spin_good_def)
  then have ok: "spin_ok ?N ?s"
    using spin_ok_todo [OF _ fit, of s "[]"] good by (simp add: spin_good_def)
  note kept = spin_write_kept [OF ok Some] and changes = spin_write_changes [OF ok Some]
  note added = spin_write_contents [OF ok Some]
  have t: "r_todo t = []" "unat (buf_size (spin_view t)) = ?N" "spin_fault t = None"
    using changes good spin_okD(1,3) [OF kept] by (auto simp: spin_good_def)
  have good': "spin_good (t\<lparr>w_todo := []\<rparr>)"
    using spin_ok_todo [OF kept, of "[]" "[]"] t by (simp add: spin_good_def spin_ok_def)
  have ws: "spin_ws qs s = (if t = ?s then Inr None else Inr (Some (t\<lparr>w_todo := []\<rparr>, length (w_done s) < length (w_done t))))"
    using Some t(3) by (simp add: spin_ws_def)
  consider (quiet) "w_done t = w_done s" "contents (spin_view t) = contents (spin_view s)" "\<forall>q. busy (w_pc t) = Some q \<longrightarrow> qs = [q]"
      "t = ?s \<or> pc_work ?N qs (w_pc t) < pc_work ?N qs (w_pc s)"
    | (effect) src pos len where "qs = [(src, pos, len)]" "busy (w_pc t) = None" "length (w_done t) = Suc (length (w_done s))"
      "contents (spin_view t) = contents (spin_view s) @ take (unat len) (drop pos src)"
  proof (cases "w_done t = w_done s")
    case True
    then have "busy (w_pc s) = Some q \<or> w_pc s = Idle \<and> (\<exists>qs'. qs = q # qs')" if "busy (w_pc t) = Some q" for q
      using changes that by auto
    moreover have "qs = [q]" if "\<exists>qs'. qs = q # qs'" for q
      using that one by auto
    ultimately have "\<forall>q. busy (w_pc t) = Some q \<longrightarrow> qs = [q]"
      using pend by blast
    then show thesis
      by (rule quiet [OF True, rotated]) (use added [of "[]"] changes True in simp_all)
  next
    case False
    then obtain src pos len where x: "busy (w_pc s) = Some (src, pos, len)" "busy (w_pc t) = None"
        "w_done t = w_done s @ [take (unat len) (drop pos src)]"
      using changes by auto
    then show thesis
      using pend added [of "[take (unat len) (drop pos src)]"] by (intro effect) auto
  qed
  then show ?thesis
    using changes good' t(2) unfolding ws by cases auto
qed (simp add: spin_ws_def)

lemma spin_rs_ok:
  assumes good: "spin_good s" and fit: "list_all (fits (unat (buf_size (spin_view s)))) qs"
    and pend: "\<forall>p l. map_option snd (busy (r_pc s)) = Some (p, l) \<longrightarrow> (\<exists>d. qs = [(d, p, l)])" and one: "length qs \<le> 1"
  shows "case spin_rs qs s of
      Inl e \<Rightarrow> False
    | Inr None \<Rightarrow> True
    | Inr (Some (s', effect)) \<Rightarrow>
        spin_good s' \<and> unat (buf_size (spin_view s')) = unat (buf_size (spin_view s)) \<and> busy (w_pc s') = busy (w_pc s) \<and>
        (case effect of
           Some x \<Rightarrow> \<exists>dst pos len. qs = [(dst, pos, len)] \<and> map_option snd (busy (r_pc s')) = None \<and>
             length x = unat len \<and> contents (spin_view s) = x @ contents (spin_view s')
         | None \<Rightarrow> contents (spin_view s') = contents (spin_view s) \<and>
             (\<forall>p l. map_option snd (busy (r_pc s')) = Some (p, l) \<longrightarrow> (\<exists>d. qs = [(d, p, l)])) \<and>
             (\<forall>ps. pc_work (unat (buf_size (spin_view s'))) ps (w_pc s') + pc_work (unat (buf_size (spin_view s'))) qs (r_pc s')
               < pc_work (unat (buf_size (spin_view s))) ps (w_pc s) + pc_work (unat (buf_size (spin_view s))) qs (r_pc s)))"
proof (cases "spin_read (s\<lparr>r_todo := qs\<rparr>)")
  case (Some t)
  let ?N = "unat (buf_size (spin_view s))" and ?s = "s\<lparr>r_todo := qs\<rparr>"
  have "?s = s\<lparr>w_todo := [], r_todo := qs\<rparr>"
    using good by (simp add: spin_good_def)
  then have ok: "spin_ok ?N ?s"
    using spin_ok_todo [OF _ _ fit, of s "[]"] good unfolding \<open>?s = _\<close> by (simp add: spin_good_def)
  note kept = spin_read_kept [OF ok Some] and changes = spin_read_changes [OF ok Some]
  note taken = spin_read_contents [OF ok Some]
  have t: "w_todo t = []" "unat (buf_size (spin_view t)) = ?N" "spin_fault t = None"
    using changes good spin_okD(1,3) [OF kept] by (auto simp: spin_good_def)
  have good': "spin_good (t\<lparr>r_todo := []\<rparr>)"
    using spin_ok_todo [OF kept, of "[]" "[]"] t by (simp add: spin_good_def spin_ok_def)
  have rs: "spin_rs qs s = (if t = ?s then Inr None else
      Inr (Some (t\<lparr>r_todo := []\<rparr>, if length (r_done s) < length (r_done t) then Some (last (r_done t)) else None)))"
    using Some t(3) by (simp add: spin_rs_def)
  consider (quiet) "r_done t = r_done s" "contents (spin_view t) = contents (spin_view s)"
      "\<forall>d p l. busy (r_pc t) = Some (d, p, l) \<longrightarrow> (\<exists>d. qs = [(d, p, l)])"
      "t = ?s \<or> pc_work ?N qs (r_pc t) < pc_work ?N qs (r_pc s)"
    | (effect) dst pos len x where "qs = [(dst, pos, len)]" "busy (r_pc t) = None" "r_done t = r_done s @ [x]"
      "length x = unat len" "contents (spin_view s) = x @ contents (spin_view t)"
  proof (cases "r_done t = r_done s")
    case True
    then have "(\<exists>d. busy (r_pc s) = Some (d, p, l)) \<or> r_pc s = Idle \<and> (\<exists>qs'. qs = (d, p, l) # qs')"
        if "busy (r_pc t) = Some (d, p, l)" for d p l
      using changes that by auto
    moreover have "qs = [q]" if "\<exists>qs'. qs = q # qs'" for q
      using that one by auto
    moreover have "\<exists>d. qs = [(d, p, l)]" if "busy (r_pc s) = Some (d, p, l)" for d p l
      using pend that by simp
    ultimately have "\<forall>d p l. busy (r_pc t) = Some (d, p, l) \<longrightarrow> (\<exists>d. qs = [(d, p, l)])"
      by blast
    then show thesis
      by (rule quiet [OF True, rotated]) (use taken [of "[]"] changes True in simp_all)
  next
    case False
    then obtain dst pos len x where x: "busy (r_pc s) = Some (dst, pos, len)" "busy (r_pc t) = None" "r_done t = r_done s @ [x]"
        "length x = unat len"
      using changes by auto
    moreover obtain d where "qs = [(d, pos, len)]"
      using pend x(1) by auto
    moreover have "contents (spin_view s) = x @ contents (spin_view t)"
      using taken [of "[x]"] x(3) by simp
    ultimately show thesis
      by (intro effect)
  qed
  then show ?thesis
    using changes good' t(2) unfolding rs by cases auto
qed (simp add: spin_rs_def)

lemma spin_stuck:
  assumes good: "spin_good s" and fit: "list_all (fits (unat (buf_size (spin_view s)))) (qs @ ps)"
    and pend: "\<forall>q. busy (w_pc s) = Some q \<longrightarrow> qs = [q]"
      "\<forall>p l. map_option snd (busy (r_pc s)) = Some (p, l) \<longrightarrow> (\<exists>d. ps = [(d, p, l)])"
    and rest: "spin_ws qs s = Inr None" "spin_rs ps s = Inr None"
  shows "(\<forall>src pos len. qs = [(src, pos, len)] \<longrightarrow> unat (buf_size (spin_view s)) < length (contents (spin_view s)) + unat len) \<and>
    (\<forall>dst pos len. ps = [(dst, pos, len)] \<longrightarrow> length (contents (spin_view s)) < unat len)"
proof -
  have ok: "spin_ok (unat (buf_size (spin_view s))) (s\<lparr>w_todo := qs\<rparr>)" "spin_ok (unat (buf_size (spin_view s))) (s\<lparr>r_todo := ps\<rparr>)"
    using good fit by (auto simp: spin_good_def spin_ok_def list_all_iff)
  have w: "spin_write (s\<lparr>w_todo := qs\<rparr>) = None \<or> spin_write (s\<lparr>w_todo := qs\<rparr>) = Some (s\<lparr>w_todo := qs\<rparr>)"
    using rest(1) by (auto simp: spin_ws_def split: option.splits if_splits)
  have r: "spin_read (s\<lparr>r_todo := ps\<rparr>) = None \<or> spin_read (s\<lparr>r_todo := ps\<rparr>) = Some (s\<lparr>r_todo := ps\<rparr>)"
    using rest(2) by (auto simp: spin_rs_def split: option.splits if_splits)
  show ?thesis
    using spin_write_waits [OF ok(1) w] spin_read_waits [OF ok(2) r] pend by auto
qed

interpretation spin: ring_threads spin_ws spin_rs "\<lambda>_. False" "\<lambda>_. False" "\<lambda>_ s. s"
    "\<lambda>s. busy (w_pc s)" "\<lambda>s. map_option snd (busy (r_pc s))" "\<lambda>s. contents (spin_view s)" "\<lambda>s. unat (buf_size (spin_view s))"
    spin_good "\<lambda>qs ps s. pc_work (unat (buf_size (spin_view s))) qs (w_pc s) + pc_work (unat (buf_size (spin_view s))) ps (r_pc s)"
    "\<lambda>N. 2 * N + 8"
proof
  fix s assume good: "spin_good s"
  then show "length (contents (spin_view s)) \<le> unat (buf_size (spin_view s))"
    using ring_okD(3) [OF spin_okD(2)] by (auto simp: spin_good_def)
  show "busy (w_pc s) = None \<Longrightarrow> spin_ws [] s = Inr None"
    by (cases "w_pc s") (simp_all add: spin_ws_def spin_write_def)
  show "map_option snd (busy (r_pc s)) = None \<Longrightarrow> spin_rs [] s = Inr None"
    by (cases "r_pc s") (simp_all add: spin_rs_def spin_read_def)
  show "pc_work (unat (buf_size (spin_view s))) qs (w_pc s) + pc_work (unat (buf_size (spin_view s))) ps (r_pc s)
      \<le> 2 * unat (buf_size (spin_view s)) + 8" for qs ps
    using pc_work_most [of "unat (buf_size (spin_view s))" qs "w_pc s"] pc_work_most [of "unat (buf_size (spin_view s))" ps "r_pc s"]
    by simp
qed (assumption | rule spin_ws_ok spin_rs_ok | simp only: not_False_eq_True simp_thms | rule spin_stuck)+

end
