(* ===== verification/TalkRing.thy ===== *)
theory TalkRing imports TalkCv TalkSpin begin

text \<open>
  The conversation over the ring as \<^verbatim>\<open>SharedMemoryView\<close> runs it, with the condition variable or without, by its
  \<^verbatim>\<open>enable_cv\<close>.
\<close>

section \<open>The ring of a view\<close>

type_synonym ring_state = "shm_view cv_state + spin_state"

definition ring_start :: "shm_view \<Rightarrow> ring_state" where
  "ring_start v = (if enable_cv v then Inl (cv_start v [] []) else Inr (spin_start v [] []))"

fun ring_ws :: "request list \<Rightarrow> ring_state \<Rightarrow> fault + (ring_state \<times> bool) option" where
  "ring_ws qs (Inl s) = map_sum id (map_option (map_prod Inl id)) (cv_ws write_view qs s)"
| "ring_ws qs (Inr s) = map_sum id (map_option (map_prod Inr id)) (spin_ws qs s)"

fun ring_rs :: "request list \<Rightarrow> ring_state \<Rightarrow> fault + (ring_state \<times> bytes option) option" where
  "ring_rs qs (Inl s) = map_sum id (map_option (map_prod Inl id)) (cv_rs read_view qs s)"
| "ring_rs qs (Inr s) = map_sum id (map_option (map_prod Inr id)) (spin_rs qs s)"

fun ring_stray :: "bool \<Rightarrow> ring_state \<Rightarrow> ring_state" where
  "ring_stray b (Inl s) = Inl (cv_stray b s)"
| "ring_stray b (Inr s) = Inr s"

abbreviation w_ends :: "ring_state \<Rightarrow> bool" where
  "w_ends \<equiv> case_sum (\<lambda>s. leaving (w_side s)) (\<lambda>_. False)"

abbreviation r_ends :: "ring_state \<Rightarrow> bool" where
  "r_ends \<equiv> case_sum (\<lambda>s. leaving (r_side s)) (\<lambda>_. False)"

definition ring_view :: "ring_state \<Rightarrow> shm_view" where
  "ring_view = case_sum shared spin_view"

definition ring_good :: "ring_state \<Rightarrow> bool" where
  "ring_good = case_sum (cv_good contents (\<lambda>v. unat (buf_size v)) ring_ok) spin_good"

definition ring_most :: "nat \<Rightarrow> nat" where
  "ring_most N = max 16 (2 * N + 8)"

lemma ring_simps:
  "ring_view (Inl s) = shared s" "ring_view (Inr t) = spin_view t"
  "ring_good (Inl s) = cv_good contents (\<lambda>v. unat (buf_size v)) ring_ok s" "ring_good (Inr t) = spin_good t"
  by (simp_all add: ring_view_def ring_good_def)

lemma ring_start_good:
  assumes "ring_ok v" "contents v = []"
  shows "ring_good (ring_start v)" "ring_view (ring_start v) = v"
  using cv_good_start [of ring_ok v contents "\<lambda>v. unat (buf_size v)"] spin_good_start [OF assms] assms
  by (simp_all add: ring_start_def ring_simps) (simp_all add: cv_start_def spin_start_def)

lemma step_result_cases:
  obtains (fault) e where "x = Inl e" | (waits) "x = Inr None" | (steps) r e where "x = Inr (Some (r, e))"
proof (cases x)
  case (Inr y)
  then show ?thesis
    using waits steps by (cases y) auto
qed (rule fault)

lemma map_sum_waits: "map_sum id (map_option f) x = Inr None \<Longrightarrow> (x = Inr None \<Longrightarrow> P) \<Longrightarrow> P"
  by (cases x) auto

interpretation rings: ring_threads ring_ws ring_rs w_ends r_ends ring_stray
    "case_sum (\<lambda>s. pending (w_side s)) (\<lambda>s. busy (w_pc s))"
    "case_sum (\<lambda>s. map_option place (pending (r_side s))) (\<lambda>s. map_option snd (busy (r_pc s)))"
    "\<lambda>r. contents (ring_view r)" "\<lambda>r. unat (buf_size (ring_view r))" ring_good
    "\<lambda>qs ps. case_sum (\<lambda>s. side_work qs (w_side s) + side_work ps (r_side s))
      (\<lambda>s. pc_work (unat (buf_size (spin_view s))) qs (w_pc s) + pc_work (unat (buf_size (spin_view s))) ps (r_pc s))"
    ring_most
proof (unfold_locales, goal_cases)
  case (1 r)
  then show ?case
    using ring.cv.within spin.within by (cases r) (simp_all add: ring_simps del: length_contents)
next
  case (2 r qs)
  show ?case
  proof (cases r)
    case (Inl s)
    note law = ring.cv.ws_step [of s qs, OF 2(1-4) [unfolded Inl ring_simps sum.case]]
    show ?thesis
      unfolding Inl using law by (cases "cv_ws write_view qs s" rule: step_result_cases) (simp_all add: ring_simps del: length_contents)
  next
    case (Inr s)
    note law = spin.ws_step [of s qs, OF 2(1-4) [unfolded Inr ring_simps sum.case]]
    show ?thesis
      unfolding Inr using law by (cases "spin_ws qs s" rule: step_result_cases) (auto simp: ring_simps simp del: length_contents)
  qed
next
  case (3 r qs)
  show ?case
  proof (cases r)
    case (Inl s)
    note law = ring.cv.rs_step [of s qs, OF 3(1-4) [unfolded Inl ring_simps sum.case]]
    show ?thesis
      unfolding Inl using law by (cases "cv_rs read_view qs s" rule: step_result_cases) (simp_all add: ring_simps del: length_contents cong: option.case_cong)
  next
    case (Inr s)
    note law = spin.rs_step [of s qs, OF 3(1-4) [unfolded Inr ring_simps sum.case]]
    show ?thesis
      unfolding Inr using law by (cases "spin_rs qs s" rule: step_result_cases)
        (simp_all add: ring_simps del: length_contents cong: option.case_cong, elim conjE, simp cong: option.case_cong)
  qed
next
  case (4 r b qs ps)
  then show ?case
    using ring.cv.stray_step [of "projl r" b qs ps] by (cases r) (simp_all add: ring_simps)
next
  case (5 r qs ps)
  then show ?case
    using ring.cv.work_most [of "projl r" qs ps] spin.work_most [of "projr r" qs ps] by (cases r) (simp_all add: ring_simps ring_most_def)
next
  case (6 r)
  then show ?case
    using ring.cv.ws_rest [of "projl r"] spin.ws_rest [of "projr r"] by (cases r) (simp_all add: ring_simps)
next
  case (7 r)
  then show ?case
    using ring.cv.rs_rest [of "projl r"] spin.rs_rest [of "projr r"] by (cases r) (simp_all add: ring_simps)
next
  case (8 r qs ps)
  show ?case
  proof (cases r)
    case (Inl s)
    have "cv_ws write_view qs s = Inr None" "cv_rs read_view ps s = Inr None"
      using 8(7,8) unfolding Inl by (auto elim!: map_sum_waits)
    from ring.cv.stuck [of s qs ps, OF 8(1-6) [unfolded Inl ring_simps sum.case] this] show ?thesis
      unfolding Inl ring_simps sum.case .
  next
    case (Inr s)
    have "spin_ws qs s = Inr None" "spin_rs ps s = Inr None"
      using 8(7,8) unfolding Inr by (auto elim!: map_sum_waits)
    from spin.stuck [of s qs ps, OF 8(1-6) [unfolded Inr ring_simps sum.case] this] show ?thesis
      unfolding Inr ring_simps sum.case .
  qed
qed

section \<open>Conversations over a view\<close>

definition ring_talk :: "(nat \<Rightarrow> nat \<Rightarrow> nat) \<Rightarrow> (nat \<Rightarrow> u8) \<Rightarrow> talk_action \<Rightarrow> ring_state conv \<Rightarrow> ring_state conv option" where
  "ring_talk = talk_fire ring_ws ring_rs w_ends r_ends ring_stray"

definition talk_start :: "shm_view \<Rightarrow> mem_channel \<Rightarrow> mem_channel \<Rightarrow> bytes list \<Rightarrow> rx_arg list \<Rightarrow> ring_state conv" where
  "talk_start v = conv_start (ring_start v)"

text \<open>The conversation over the abstract pipe that is behind.\<close>

definition behind :: "ring_state conv \<Rightarrow> (nat \<times> bytes) conv" where
  "behind = conv_over (\<lambda>r. (unat (buf_size (ring_view r)), contents (ring_view r)))"

definition talk_blocked :: "(nat \<Rightarrow> nat \<Rightarrow> nat) \<Rightarrow> (nat \<Rightarrow> u8) \<Rightarrow> ring_state conv \<Rightarrow> bool" where
  "talk_blocked grow junk c \<longleftrightarrow> talk_tx ring_ws w_ends c = Inr None \<and> talk_rx ring_rs r_ends grow junk c = Inr None"

definition talk_faults :: "(nat \<Rightarrow> nat \<Rightarrow> nat) \<Rightarrow> (nat \<Rightarrow> u8) \<Rightarrow> ring_state conv \<Rightarrow> bool" where
  "talk_faults grow junk c \<longleftrightarrow> isl (talk_tx ring_ws w_ends c) \<or> isl (talk_rx ring_rs r_ends grow junk c)"

lemma rings_state: "conv_over rings.state = behind"
  by (simp add: behind_def rings.state_def [abs_def])

lemma talk_start_inv:
  assumes "conv_start_ok bs tc rc ms args" "ring_ok v" "buf_size v = bs" "contents v = []"
  shows "rings.talk_inv junk bs ms (talk_start v tc rc ms args)"
proof -
  note start = ring_start_good [OF assms(2,4)]
  have "case_sum (\<lambda>s. pending (w_side s)) (\<lambda>s. busy (w_pc s)) (ring_start v) = None"
      "case_sum (\<lambda>s. map_option place (pending (r_side s))) (\<lambda>s. map_option snd (busy (r_pc s))) (ring_start v) = None"
    by (simp_all add: ring_start_def cv_start_def spin_start_def)
  then show ?thesis
    unfolding talk_start_def by (intro rings.talk_start_ok) (simp_all add: assms start)
qed

lemma behind_start:
  assumes "ring_ok v" "contents v = []"
  shows "behind (talk_start v tc rc ms args) = conv_start (unat (buf_size v), []) tc rc ms args"
  using ring_start_good(2) [OF assms] assms(2) by (simp add: behind_def talk_start_def conv_over_def conv_start_def)

lemma talk_sound:
  assumes "conv_start_ok bs tc rc ms args" "ring_ok v" "buf_size v = bs" "contents v = []"
    and "reach (ring_talk grow junk) (talk_start v tc rc ms args) c"
  shows "\<not> talk_faults grow junk c" "\<exists>rest. ms = rx_out c @ rest"
    "counted (rx_out c) (m_bytes_recv (rx_chan c)) (m_packet_recv (rx_chan c))"
    "(conv_step pipe_write pipe_read grow junk)\<^sup>*\<^sup>* (conv_start (unat bs, []) tc rc ms args) (behind c)"
    "talk_blocked grow junk c \<Longrightarrow> rx_out c = ms \<and> tx_run c = TxIdle \<and> tx_msgs c = [] \<and> rx_run c = RxIdle"
proof -
  note inv0 = talk_start_inv [OF assms(1-4), of junk]
  note run = rings.talk_reach_ok [OF assms(5) [unfolded ring_talk_def] inv0]
  then show "(conv_step pipe_write pipe_read grow junk)\<^sup>*\<^sup>* (conv_start (unat bs, []) tc rc ms args) (behind c)"
    unfolding rings_state behind_start [OF assms(2,4)] assms(3) by blast
  have inv: "rings.talk_inv junk bs ms c"
    using run by blast
  then show "\<not> talk_faults grow junk c" "\<exists>rest. ms = rx_out c @ rest"
    "counted (rx_out c) (m_bytes_recv (rx_chan c)) (m_packet_recv (rx_chan c))"
    using rings.talk_no_fault [OF inv, of grow] rings.talk_delivers [OF inv] by (simp_all add: talk_faults_def)
  show "talk_blocked grow junk c \<Longrightarrow> rx_out c = ms \<and> tx_run c = TxIdle \<and> tx_msgs c = [] \<and> rx_run c = RxIdle"
    using rings.talk_stuck_done [OF inv, of grow] by (simp add: talk_blocked_def)
qed

text \<open>A bound for the steps of the threads: the steps between two effects, times the effects there are.\<close>

definition talk_bound :: "i32 \<Rightarrow> bytes list \<Rightarrow> rx_arg list \<Rightarrow> nat" where
  "talk_bound bs ms args =
     Suc (ring_most (unat bs)) * Suc ((unat bs + 1) * sum_list (map (\<lambda>m. length (wire bs m) + 2) ms) + 3 * length args)"

lemma talk_bounded:
  assumes "conv_start_ok bs tc rc ms args" "ring_ok v" "buf_size v = bs" "contents v = []"
    and "run_actions (ring_talk grow junk) ls (talk_start v tc rc ms args) = Some c"
  shows "length (filter moves ls) \<le> talk_bound bs ms args + 2 * length (filter (\<lambda>l. \<not> moves l) ls)"
proof -
  note inv0 = talk_start_inv [OF assms(1-4), of junk]
  let ?c = "talk_start v tc rc ms args"
  have "conv_work snd bs (behind ?c) = (unat bs + 1) * sum_list (map (\<lambda>m. length (wire bs m) + 2) ms) + 3 * length args"
    unfolding behind_start [OF assms(2,4)] by (simp add: conv_work_def conv_start_def)
  then have "rings.talk_work junk bs ?c \<le> talk_bound bs ms args"
    using rings.slack_most [OF inv0] by (simp add: rings.talk_work_def rings_state talk_bound_def)
  then show ?thesis
    using rings.talk_run_bound [OF assms(5) [unfolded ring_talk_def] inv0] by linarith
qed

section \<open>Properties\<close>

text \<open>
  C4: The calls of \<^verbatim>\<open>view->write\<close> and \<^verbatim>\<open>view->read\<close> that a sender and a receiver make are not atomic; however the scheduler
  interleaves their steps, with the condition variable (and its spurious wake-ups) or without, neither faults, what the
  receiver has handed out are the first messages that were sent, and the run is one of the conversation over an
  abstract bounded FIFO of bytes in which each call is a single step.
\<close>
theorem mem_talk_refines:
  assumes "conv_start_ok bs tc rc ms args" "ring_ok v" "buf_size v = bs" "contents v = []"
    and "reach (ring_talk grow junk) (talk_start v tc rc ms args) c"
  shows "\<not> talk_faults grow junk c \<and> (\<exists>rest. ms = rx_out c @ rest) \<and>
    counted (rx_out c) (m_bytes_recv (rx_chan c)) (m_packet_recv (rx_chan c)) \<and>
    (conv_step pipe_write pipe_read grow junk)\<^sup>*\<^sup>* (conv_start (unat bs, []) tc rc ms args) (behind c)"
  using talk_sound [OF assms] by blast

text \<open>One byte, over the ring of eight without the condition variable whose counters are about to wrap around.\<close>

definition demo_talk :: "talk_action list" where
  "demo_talk = [Rx, Rx] @ replicate 9 Tx @ replicate 8 Rx @ replicate 5 Tx @ replicate 4 Rx"

theorem mem_talk_refines_witness:
  "\<exists>c. run_actions (ring_talk (\<lambda>c n. n) (\<lambda>i. 9)) demo_talk (talk_start demo_ring (demo_channel 0 1) (demo_channel 1 0) [[7]] demo_args) = Some c \<and>
    contents (ring_view (pipe c)) = [] \<and> rx_out c = [] \<and>
    (conv_step pipe_write pipe_read (\<lambda>c n. n) (\<lambda>i. 9))\<^sup>*\<^sup>* (conv_start (8, []) (demo_channel 0 1) (demo_channel 1 0) [[7]] demo_args) (behind c)"
proof -
  have "map_option (\<lambda>c. (contents (ring_view (pipe c)), rx_out c)) (run_actions (ring_talk (\<lambda>c n. n) (\<lambda>i. 9)) demo_talk
      (talk_start demo_ring (demo_channel 0 1) (demo_channel 1 0) [[7]] demo_args)) = Some ([], [])"
    by code_simp
  then obtain c where c: "run_actions (ring_talk (\<lambda>c n. n) (\<lambda>i. 9)) demo_talk
        (talk_start demo_ring (demo_channel 0 1) (demo_channel 1 0) [[7]] demo_args) = Some c"
      "reach (ring_talk (\<lambda>c n. n) (\<lambda>i. 9)) (talk_start demo_ring (demo_channel 0 1) (demo_channel 1 0) [[7]] demo_args) c"
      "(contents (ring_view (pipe c)), rx_out c) = ([], [])"
    by (rule run_part)
  show ?thesis
    using mem_talk_refines [OF demo_start_facts c(2)] c(1,3) by auto
qed

text \<open>
  C9: Every schedule ends, and ends well: the sending and the receiving thread make at most a number of steps that the
  messages and the buffer size determine, and two more for every spurious wake-up; and when neither can move, every
  message has been handed out and both threads are back from their calls.
\<close>
theorem mem_talk_finishes:
  assumes "conv_start_ok bs tc rc ms args" "ring_ok v" "buf_size v = bs" "contents v = []"
    and "run_actions (ring_talk grow junk) ls (talk_start v tc rc ms args) = Some c"
  shows "length (filter moves ls) \<le> talk_bound bs ms args + 2 * length (filter (\<lambda>l. \<not> moves l) ls) \<and>
    (talk_blocked grow junk c \<longrightarrow> rx_out c = ms \<and> tx_run c = TxIdle \<and> tx_msgs c = [] \<and> rx_run c = RxIdle)"
  using talk_bounded [OF assms] talk_sound(5) [OF assms(1-4) run_reach [OF assms(5)]] by blast

text \<open>
  The same byte with the condition variable: the receiver sleeps before the length is there, is woken for nothing and sleeps
  again, then by the sender's signal.
\<close>

definition demo_cv_talk :: "talk_action list" where
  "demo_cv_talk = replicate 4 Rx @ [StrayRx, Rx, Rx] @ replicate 6 Tx @ replicate 7 Rx @ replicate 5 Tx @ replicate 5 Rx @ [Tx]"

lemma demo_cv_ring_facts:
  "ring_ok (demo_ring\<lparr>enable_cv := True\<rparr>)" "buf_size (demo_ring\<lparr>enable_cv := True\<rparr>) = 8" "contents (demo_ring\<lparr>enable_cv := True\<rparr>) = []"
  using demo_start_facts(2-4) by (simp_all add: ring_ok_def contents_def used_def)

theorem mem_talk_finishes_witness:
  "\<exists>c. run_actions (ring_talk (\<lambda>c n. n) (\<lambda>i. 9)) demo_cv_talk
      (talk_start (demo_ring\<lparr>enable_cv := True\<rparr>) (demo_channel 0 1) (demo_channel 1 0) [[7]] demo_args) = Some c \<and> rx_out c = [[7]] \<and>
    length (filter moves demo_cv_talk) \<le> talk_bound 8 [[7]] demo_args + 2 \<and> length (filter moves demo_cv_talk) = 30"
proof -
  let ?s0 = "talk_start (demo_ring\<lparr>enable_cv := True\<rparr>) (demo_channel 0 1) (demo_channel 1 0) [[7]] demo_args"
  have "map_option (\<lambda>c. (rx_run c, tx_run c)) (run_actions (ring_talk (\<lambda>c n. n) (\<lambda>i. 9)) demo_cv_talk ?s0) = Some (RxIdle, TxIdle)"
    by code_simp
  moreover have "map_option (\<lambda>c. talk_blocked (\<lambda>c n. n) (\<lambda>i. 9) c) (run_actions (ring_talk (\<lambda>c n. n) (\<lambda>i. 9)) demo_cv_talk ?s0) = Some True"
    by code_simp
  ultimately obtain c where c: "run_actions (ring_talk (\<lambda>c n. n) (\<lambda>i. 9)) demo_cv_talk ?s0 = Some c" "talk_blocked (\<lambda>c n. n) (\<lambda>i. 9) c"
    by auto
  have "length (filter (\<lambda>l. \<not> moves l) demo_cv_talk) = 1" "length (filter moves demo_cv_talk) = 30"
    by code_simp+
  then show ?thesis
    using mem_talk_finishes [OF demo_start_facts(1) demo_cv_ring_facts c(1)] c by simp
qed

end
