(* ===== verification/TwoWay.thy ===== *)
theory TwoWay imports MemChannel Machine begin

text \<open>
  Two parties that talk over a \<^verbatim>\<open>MemChannel\<close> in both directions (\<^verbatim>\<open>src/src/memchannel.cpp\<close>): each is one thread that calls
  \<^verbatim>\<open>send\<close> and \<^verbatim>\<open>recv\<close> in an order of its own. A direction is a conversation of theory \<^verbatim>\<open>MemChannel\<close>; \<^verbatim>\<open>send\<close> may have to
  wait for the reader, so the order of the calls decides whether the parties block each other.
\<close>

section \<open>A direction: how far the two ends can be apart\<close>

text \<open>The bytes of some messages on the wire.\<close>

definition stream :: "i32 \<Rightarrow> bytes list \<Rightarrow> bytes" where
  "stream bs ms = concat (concat (map (wire bs) ms))"

lemma stream_simps [simp]: "stream bs [] = []" "stream bs (m # ms) = concat (wire bs m) @ stream bs ms"
    "stream bs (ms @ ms') = stream bs ms @ stream bs ms'"
  by (simp_all add: stream_def)

lemma wire_bytes: "valid_buf_size bs \<Longrightarrow> length m \<le> 2147483648 \<Longrightarrow> concat (wire bs m) = le32 (of_nat (length m)) @ m"
  using concat_pieces [OF chunk_requests_wf, of bs "length m" m] by (simp add: wire_def)

lemma wire_length [simp]: "valid_buf_size bs \<Longrightarrow> length m \<le> 2147483648 \<Longrightarrow> length (concat (wire bs m)) = 4 + length m"
  using arg_cong [OF wire_bytes, of bs m length] by simp

lemma stream_drop: "length (stream bs (drop k ms)) \<le> length (stream bs ms)"
proof -
  have "stream bs ms = stream bs (take k ms) @ stream bs (drop k ms)"
    by (simp only: stream_simps(3) [symmetric] append_take_drop_id)
  then show ?thesis
    by simp
qed

lemma stream_drop_le: "k \<le> j \<Longrightarrow> length (stream bs (drop j ms)) \<le> length (stream bs (drop k ms))"
  using stream_drop [of bs "j - k" "drop k ms"] by simp

text \<open>How many messages a sender has written and returned from, and what its requests are the rest of.\<close>

definition tx_done :: "bytes list \<Rightarrow> 'v conv \<Rightarrow> nat" where
  "tx_done ms c = length ms - length (tx_msgs c) - (if tx_run c = TxIdle then 0 else 1)"

definition tx_tail :: "i32 \<Rightarrow> bytes list \<Rightarrow> 'v conv \<Rightarrow> bool" where
  "tx_tail bs ms c \<longleftrightarrow>
     (\<forall>reqs n. tx_run c = TxSend reqs n \<longrightarrow>
       (\<exists>sent m pre. ms = sent @ m # tx_msgs c \<and> send_requests bs m (of_nat (length m)) = pre @ reqs))"

lemma tx_tail_step:
  assumes "conv_inv cont cap ok bs ms c" "tx_tail bs ms c" "tx_step wr c = Inr (Some c')"
  shows "tx_tail bs ms c'"
proof -
  have "m_buf_size (tx_chan c) = bs" "tx_run c = TxIdle \<Longrightarrow> \<exists>sent. ms = sent @ tx_msgs c"
    using assms(1) by (auto simp: conv_inv_def tx_inv_def)
  then show ?thesis
    using assms(2,3) unfolding tx_tail_def
    by (fastforce simp: tx_step_def split: tx_run.splits list.splits prod.splits if_splits sum.splits option.splits)
qed

lemma rx_step_tx:
  assumes "rx_step rd grow junk c = Inr (Some c')"
  shows "tx_run c' = tx_run c" "tx_msgs c' = tx_msgs c" "tx_chan c' = tx_chan c"
  using assms
  by (auto simp: rx_step_def split: rx_run.splits list.splits prod.splits if_splits sum.splits option.splits)

lemma tx_step_rx:
  assumes "tx_step wr c = Inr (Some c')"
  shows "rx_run c' = rx_run c" "rx_args c' = rx_args c" "rx_out c' = rx_out c" "rx_chan c' = rx_chan c"
  using assms
  by (auto simp: tx_step_def split: tx_run.splits list.splits prod.splits if_splits sum.splits option.splits)

lemma tx_tail_rx: "tx_tail bs ms c \<Longrightarrow> rx_step rd grow junk c = Inr (Some c') \<Longrightarrow> tx_tail bs ms c'"
  using rx_step_tx [of rd grow junk c c'] by (simp add: tx_tail_def)

text \<open>What is still to be written, and what is still to be read, in bytes.\<close>

lemma written_left:
  assumes "tx_inv bs ms c T" "tx_tail bs ms c"
  shows "length (concat T) \<le> length (stream bs (drop (tx_done ms c) ms))"
    "tx_run c = TxSend (r # reqs) n \<Longrightarrow> length (stream bs (drop (Suc (tx_done ms c)) ms)) < length (concat T)"
proof -
  show "length (concat T) \<le> length (stream bs (drop (tx_done ms c) ms))"
  proof (cases "tx_run c")
    case TxIdle
    then show ?thesis
      using assms(1) by (auto simp: tx_inv_def tx_done_def stream_def)
  next
    case (TxSend reqs n)
    then obtain sent m pre where "ms = sent @ m # tx_msgs c" "send_requests bs m (of_nat (length m)) = pre @ reqs"
      using assms(2) by (auto simp: tx_tail_def)
    moreover from this(2) have "wire bs m = map req_piece pre @ map req_piece reqs"
      by (metis map_append send_requests_pieces)
    moreover have "T = map req_piece reqs @ concat (map (wire bs) (tx_msgs c))"
      using assms(1) TxSend by (simp add: tx_inv_def)
    ultimately show ?thesis
      using TxSend by (simp add: tx_done_def stream_def)
  qed
  assume r: "tx_run c = TxSend (r # reqs) n"
  then obtain sent m where ms: "ms = sent @ m # tx_msgs c" and "req_ok (unat bs) r"
      and T: "T = map req_piece (r # reqs) @ concat (map (wire bs) (tx_msgs c))"
    using assms(1) by (auto simp: tx_inv_def)
  then have "0 < length (req_piece r)"
    by (cases r) auto
  then show "length (stream bs (drop (Suc (tx_done ms c)) ms)) < length (concat T)"
    using r ms T by (simp add: tx_done_def stream_def)
qed

lemma read_left:
  assumes "rx_inv bs ms c E" "valid_buf_size bs" "\<forall>m \<in> set ms. length m \<le> 2147483648"
  shows "length (concat E) \<le> length (stream bs (drop (length (rx_out c)) ms))"
    "rx_run c \<noteq> RxIdle \<Longrightarrow> (\<forall>a n. rx_run c \<noteq> RxBody [] a n) \<Longrightarrow>
      length (stream bs (drop (Suc (length (rx_out c))) ms)) < length (concat E)"
proof -
  have body: "concat (map (piece m) cs) = drop p m" "cs \<noteq> [] \<Longrightarrow> 0 < length (concat (map (piece m) cs))"
    if "wf_chunks (unat bs) p (length m) cs" for p m cs
    using concat_pieces [OF that order_refl] pieces_nonempty [OF that order_refl] by (cases cs; auto)+
  show "length (concat E) \<le> length (stream bs (drop (length (rx_out c)) ms))"
  proof (cases "rx_run c")
    case (RxBody cs a n)
    then obtain m rest p where m: "ms = rx_out c @ m # rest" "wf_chunks (unat bs) p (length m) cs"
        "E = map (piece m) cs @ concat (map (wire bs) rest)"
      using assms(1) by (auto simp: rx_inv_def)
    then show ?thesis
      using body(1) [OF m(2)] assms(2,3) by (simp add: stream_def)
  qed (use assms(1) in \<open>auto simp: rx_inv_def stream_def\<close>)
  show "length (stream bs (drop (Suc (length (rx_out c))) ms)) < length (concat E)"
    if "rx_run c \<noteq> RxIdle" "\<forall>a n. rx_run c \<noteq> RxBody [] a n"
  proof (cases "rx_run c")
    case (RxHeader a)
    then obtain m rest where "ms = rx_out c @ m # rest" "E = concat (map (wire bs) (m # rest))"
      using assms(1) by (auto simp: rx_inv_def)
    then show ?thesis
      using assms(2,3) by (simp add: stream_def)
  next
    case (RxBody cs a n)
    then obtain m rest p where m: "ms = rx_out c @ m # rest" "wf_chunks (unat bs) p (length m) cs"
        "E = map (piece m) cs @ concat (map (wire bs) rest)"
      using assms(1) by (auto simp: rx_inv_def)
    then show ?thesis
      using body(2) [OF m(2)] that(2) RxBody by (auto simp: stream_def)
  qed (use that(1) in simp)
qed

section \<open>Who waits, and for what\<close>

context byte_pipe
begin

lemma conv_parts:
  assumes "conv_inv cont cap ok bs ms c"
  obtains ps T where "cont (pipe c) = concat ps" "[] \<notin> set ps" "tx_inv bs ms c T" "rx_inv bs ms c (ps @ T)"
    "valid_buf_size bs" "\<forall>m \<in> set ms. length m \<le> 2147483648" "ok (pipe c)" "cap (pipe c) = unat bs"
  using assms unfolding conv_inv_def by blast

text \<open>A sender that waits has not been read to the end of its message.\<close>

lemma sender_waits:
  assumes inv: "conv_inv cont cap ok bs ms c" and tail: "tx_tail bs ms c" and none: "tx_step wr c = Inr None"
    and more: "\<not> (tx_run c = TxIdle \<and> tx_msgs c = [])"
  shows "cont (pipe c) \<noteq> []" "length (rx_out c) \<le> tx_done ms c" "\<exists>r reqs n. tx_run c = TxSend (r # reqs) n"
proof -
  show run: "\<exists>r reqs n. tx_run c = TxSend (r # reqs) n"
    using none more
    by (auto simp: tx_step_def split: tx_run.splits list.splits)
  show "cont (pipe c) \<noteq> []"
    using tx_step_ok [OF inv] none more by simp
  obtain ps T where c: "tx_inv bs ms c T" "rx_inv bs ms c (ps @ T)" "valid_buf_size bs" "\<forall>m \<in> set ms. length m \<le> 2147483648"
    using inv by (rule conv_parts)
  have "length (stream bs (drop (Suc (tx_done ms c)) ms)) < length (stream bs (drop (length (rx_out c)) ms))"
    using run written_left(2) [OF c(1) tail] read_left(1) [OF c(2-4)] by fastforce
  then show "length (rx_out c) \<le> tx_done ms c"
    using stream_drop_le [of "Suc (tx_done ms c)" "length (rx_out c)" bs ms] by (meson not_less_eq_eq not_le)
qed

text \<open>A receiver that waits for a message waits for one that has not been sent to its end.\<close>

lemma receiver_waits:
  assumes inv: "conv_inv cont cap ok bs ms c" and tail: "tx_tail bs ms c" and none: "rx_step rd grow junk c = Inr None"
    and more: "\<not> (rx_run c = RxIdle \<and> rx_args c = [])"
  shows "cont (pipe c) = []" "tx_done ms c \<le> length (rx_out c)"
proof -
  have run: "rx_run c \<noteq> RxIdle" "\<forall>a n. rx_run c \<noteq> RxBody [] a n"
    using none more by (auto simp: rx_step_def split: rx_run.splits list.splits)
  then show empty: "cont (pipe c) = []"
    using rx_step_ok [OF inv, of grow junk] none by simp
  obtain ps T where c: "cont (pipe c) = concat ps" "[] \<notin> set ps" "tx_inv bs ms c T" "rx_inv bs ms c (ps @ T)" "valid_buf_size bs"
      "\<forall>m \<in> set ms. length m \<le> 2147483648"
    using inv by (rule conv_parts)
  have "length (concat (ps @ T)) = length (concat T)"
    using c(1) empty by (metis append_Nil concat_append)
  then have "length (stream bs (drop (Suc (length (rx_out c))) ms)) < length (stream bs (drop (tx_done ms c) ms))"
    using read_left(2) [OF c(4-6) run] written_left(1) [OF c(3) tail] by linarith
  then show "tx_done ms c \<le> length (rx_out c)"
    using stream_drop_le [of "Suc (length (rx_out c))" "tx_done ms c" bs ms] by (meson not_less_eq_eq not_le)
qed

text \<open>A sender never waits when all it sends fits into the pipe.\<close>

lemma sender_fits:
  assumes inv: "conv_inv cont cap ok bs ms c" and small: "length (stream bs ms) \<le> unat bs" and none: "tx_step wr c = Inr None"
  shows "tx_run c = TxIdle \<and> tx_msgs c = []"
proof (rule ccontr)
  assume more: "\<not> (tx_run c = TxIdle \<and> tx_msgs c = [])"
  obtain ps T where c: "cont (pipe c) = concat ps" "[] \<notin> set ps" "tx_inv bs ms c T" "rx_inv bs ms c (ps @ T)" "valid_buf_size bs"
      "\<forall>m \<in> set ms. length m \<le> 2147483648" and v: "ok (pipe c)" "cap (pipe c) = unat bs"
    using inv by (rule conv_parts)
  obtain src pos len reqs n where run: "tx_run c = TxSend ((src, pos, len) # reqs) n"
    using none more by (auto simp: tx_step_def split: tx_run.splits list.splits)
  then have r: "0 \<le> sint pos" "nat (sint pos) + unat len \<le> length src"
      and T: "T = map req_piece ((src, pos, len) # reqs) @ concat (map (wire bs) (tx_msgs c))"
    using c(3) by (auto simp: tx_inv_def)
  have "length (concat (ps @ T)) \<le> length (stream bs ms)"
    using read_left(1) [OF c(4-6)] stream_drop order_trans by blast
  then have "length (cont (pipe c)) + unat len \<le> cap (pipe c)"
    using c(1) r(2) v(2) small T by simp
  then obtain v' where "wr (pipe c) src (nat (sint pos)) len = Inr (Some v')"
    using wr_room [OF v(1) _ r(2)] by blast
  then show False
    using none run r(1) by (simp add: tx_step_def)
qed

end

context bounded_pipe
begin

text \<open>Before anything is read, a message that is longer than the pipe is not sent to its end.\<close>

lemma unread_unsent:
  assumes inv: "conv_inv cont cap ok bs (m # ms) c" and tail: "tx_tail bs (m # ms) c" and unread: "rx_run c = RxIdle" "rx_out c = []"
    and long: "unat bs < 4 + length m"
  shows "tx_done (m # ms) c = 0" "tx_run c \<noteq> TxSend [] n"
proof -
  obtain ps T where c: "cont (pipe c) = concat ps" "tx_inv bs (m # ms) c T" "rx_inv bs (m # ms) c (ps @ T)" "valid_buf_size bs"
      "\<forall>m \<in> set (m # ms). length m \<le> 2147483648" "ok (pipe c)" "cap (pipe c) = unat bs"
    using inv by (rule conv_parts)
  have "ps @ T = concat (map (wire bs) (m # ms))"
    using c(3) unread by (auto simp: rx_inv_def)
  then have "length (concat ps) + length (concat T) = 4 + length m + length (stream bs ms)"
    using c(4,5) by (metis concat_append length_append list.set_intros(1) stream_def stream_simps(2) wire_length)
  then have unwritten: "length (stream bs ms) < length (concat T)"
    using cont_le [OF c(6)] c(1,7) long by simp
  show "tx_done (m # ms) c = 0"
  proof (rule ccontr)
    assume "tx_done (m # ms) c \<noteq> 0"
    then have "length (concat T) \<le> length (stream bs ms)"
      using written_left(1) [OF c(2) tail] stream_drop_le [of 1 "tx_done (m # ms) c" bs "m # ms"] by simp
    then show False
      using unwritten by simp
  qed
  show "tx_run c \<noteq> TxSend [] n"
  proof
    assume a: "tx_run c = TxSend [] n"
    then obtain sent m' where "m # ms = sent @ m' # tx_msgs c" "T = concat (map (wire bs) (tx_msgs c))"
      using c(2) by (auto simp: tx_inv_def)
    then have "length (concat T) \<le> length (stream bs ms)"
      using stream_drop [of bs "length sent" ms] by (cases sent) (auto simp: stream_def)
    then show False
      using unwritten by simp
  qed
qed

end

section \<open>Two parties\<close>

lemma outcome_cases:
  obtains (faults) e where "r = Inl e" | (waits) "r = Inr None" | (goes) x where "r = Inr (Some x)"
  by (cases r) (auto intro: option.exhaust)

datatype call = Sending | Receiving

text \<open>
  \<open>forward\<close> is the direction in which the first party sends, \<open>backward\<close> the other one; each party has the calls that it has
  not returned from, the one it is in included. What it sends and where it receives is in the directions.
\<close>

record 'v session =
  forward :: "'v conv"
  backward :: "'v conv"
  first_calls :: "call list"
  second_calls :: "call list"

definition caller_step :: "('v \<Rightarrow> bytes \<Rightarrow> nat \<Rightarrow> u32 \<Rightarrow> fault + 'v option) \<Rightarrow>
    ('v \<Rightarrow> bytes \<Rightarrow> nat \<Rightarrow> u32 \<Rightarrow> fault + (bytes \<times> 'v) option) \<Rightarrow> (nat \<Rightarrow> nat \<Rightarrow> nat) \<Rightarrow> (nat \<Rightarrow> u8) \<Rightarrow>
    call list \<Rightarrow> 'v conv \<Rightarrow> 'v conv \<Rightarrow> fault + (call list \<times> 'v conv \<times> 'v conv) option" where
  "caller_step wr rd grow junk calls tx rx =
     (case calls of
        [] \<Rightarrow> Inr None
      | Sending # cs \<Rightarrow>
          (case tx_step wr tx of
             Inl e \<Rightarrow> Inl e
           | Inr None \<Rightarrow> Inr None
           | Inr (Some tx') \<Rightarrow> Inr (Some (if tx_run tx' = TxIdle then cs else calls, tx', rx)))
      | Receiving # cs \<Rightarrow>
          (case rx_step rd grow junk rx of
             Inl e \<Rightarrow> Inl e
           | Inr None \<Rightarrow> Inr None
           | Inr (Some rx') \<Rightarrow> Inr (Some (if rx_run rx' = RxIdle then cs else calls, tx, rx'))))"

text \<open>A step of the first party (\<open>True\<close>) or of the second.\<close>

definition session_step where
  "session_step wr rd grow junk first s =
     (if first
      then (case caller_step wr rd grow junk (first_calls s) (forward s) (backward s) of
              Inl e \<Rightarrow> Inl e
            | Inr None \<Rightarrow> Inr None
            | Inr (Some (cs, tx, rx)) \<Rightarrow> Inr (Some (s\<lparr>first_calls := cs, forward := tx, backward := rx\<rparr>)))
      else (case caller_step wr rd grow junk (second_calls s) (backward s) (forward s) of
              Inl e \<Rightarrow> Inl e
            | Inr None \<Rightarrow> Inr None
            | Inr (Some (cs, tx, rx)) \<Rightarrow> Inr (Some (s\<lparr>second_calls := cs, backward := tx, forward := rx\<rparr>))))"

definition session_fire where
  "session_fire wr rd grow junk first s = (case session_step wr rd grow junk first s of Inr r \<Rightarrow> r | Inl e \<Rightarrow> None)"

definition session_faults where
  "session_faults wr rd grow junk s \<longleftrightarrow> (\<exists>first e. session_step wr rd grow junk first s = Inl e)"

definition session_blocked where
  "session_blocked wr rd grow junk s \<longleftrightarrow> (\<forall>first. session_fire wr rd grow junk first s = None)"

text \<open>The same session with the parties named the other way round.\<close>

definition swapped :: "'v session \<Rightarrow> 'v session" where
  "swapped s = \<lparr>forward = backward s, backward = forward s, first_calls = second_calls s, second_calls = first_calls s\<rparr>"

lemma swapped_simps [simp]: "swapped (swapped s) = s" "forward (swapped s) = backward s" "backward (swapped s) = forward s"
    "first_calls (swapped s) = second_calls s" "second_calls (swapped s) = first_calls s"
  by (simp_all add: swapped_def)

lemma session_step_swapped:
  "session_step wr rd grow junk (\<not> first) (swapped s) =
     (case session_step wr rd grow junk first s of Inl e \<Rightarrow> Inl e | Inr r \<Rightarrow> Inr (map_option swapped r))"
  by (simp add: session_step_def swapped_def split: sum.splits option.splits prod.splits)

section \<open>The invariant of a session\<close>

fun sends :: "call list \<Rightarrow> nat" where
  "sends [] = 0"
| "sends (Sending # cs) = Suc (sends cs)"
| "sends (Receiving # cs) = sends cs"

fun recvs :: "call list \<Rightarrow> nat" where
  "recvs [] = 0"
| "recvs (Sending # cs) = recvs cs"
| "recvs (Receiving # cs) = Suc (recvs cs)"

lemma counts_append [simp]: "sends (cs @ ds) = sends cs + sends ds" "recvs (cs @ ds) = recvs cs + recvs ds"
  by (induction cs rule: sends.induct) simp_all

text \<open>The calls left of the program \<open>P\<close> go with the messages left to send and the receives left.\<close>

definition caller_ok :: "call list \<Rightarrow> bytes list \<Rightarrow> bytes list \<Rightarrow> call list \<Rightarrow> 'v conv \<Rightarrow> 'v conv \<Rightarrow> bool" where
  "caller_ok P ms ns calls tx rx \<longleftrightarrow>
     (\<exists>past. P = past @ calls) \<and> sends P = length ms \<and> recvs P = length ns \<and>
     sends calls = length (tx_msgs tx) + (if tx_run tx = TxIdle then 0 else 1) \<and>
     recvs calls = length (rx_args rx) + (if rx_run rx = RxIdle then 0 else 1) \<and>
     (tx_run tx \<noteq> TxIdle \<longrightarrow> (\<exists>cs. calls = Sending # cs)) \<and> (rx_run rx \<noteq> RxIdle \<longrightarrow> (\<exists>cs. calls = Receiving # cs))"

context byte_pipe
begin

definition dir_ok :: "i32 \<Rightarrow> bytes list \<Rightarrow> 'v conv \<Rightarrow> bool" where
  "dir_ok bs ms c \<longleftrightarrow> conv_inv cont cap ok bs ms c \<and> tx_tail bs ms c"

definition session_ok :: "i32 \<Rightarrow> call list \<Rightarrow> call list \<Rightarrow> bytes list \<Rightarrow> bytes list \<Rightarrow> 'v session \<Rightarrow> bool" where
  "session_ok bs P Q ms ns s \<longleftrightarrow>
     dir_ok bs ms (forward s) \<and> dir_ok bs ns (backward s) \<and>
     caller_ok P ms ns (first_calls s) (forward s) (backward s) \<and> caller_ok Q ns ms (second_calls s) (backward s) (forward s)"

lemma session_ok_swapped: "session_ok bs P Q ms ns s \<Longrightarrow> session_ok bs Q P ns ms (swapped s)"
  by (simp add: session_ok_def)

lemma caller_ok_tx:
  assumes tx: "dir_ok bs ms tx" and ok: "caller_ok P ms ns calls tx rx" and head: "calls = Sending # cs"
    and run: "tx_step wr tx = Inr (Some tx')"
  shows "caller_ok P ms ns (if tx_run tx' = TxIdle then cs else calls) tx' rx"
proof -
  have rx: "rx_run rx = RxIdle"
    using ok head by (auto simp: caller_ok_def)
  show ?thesis
  proof (cases "tx_run tx")
    case TxIdle
    then obtain m ms' where "tx_msgs tx = m # ms'" "tx_msgs tx' = ms'" "tx_run tx' \<noteq> TxIdle"
      using run by (auto simp: tx_step_def split: list.splits)
    then show ?thesis
      using ok head TxIdle rx by (auto simp: caller_ok_def)
  next
    case (TxSend reqs n)
    show ?thesis
    proof (cases reqs)
      case Nil
      then have "tx_msgs tx' = tx_msgs tx" "tx_run tx' = TxIdle"
        using run TxSend by (auto simp: tx_step_def)
      moreover have "\<exists>past. P = past @ cs"
        using ok head by (auto simp: caller_ok_def intro: exI [of _ "_ @ [Sending]"])
      ultimately show ?thesis
        using ok head TxSend rx by (simp add: caller_ok_def)
    next
      case (Cons r rs)
      then have "tx_msgs tx' = tx_msgs tx" "tx_run tx' = TxSend rs n"
        using run TxSend by (cases r; auto simp: tx_step_def split: if_splits sum.splits option.splits)+
      then show ?thesis
        using ok head TxSend rx by (simp add: caller_ok_def)
    qed
  qed
qed

lemma caller_ok_rx:
  assumes rx: "dir_ok bs ns rx" and ok: "caller_ok P ms ns calls tx rx" and head: "calls = Receiving # cs"
    and run: "rx_step rd grow junk rx = Inr (Some rx')"
  shows "caller_ok P ms ns (if rx_run rx' = RxIdle then cs else calls) tx rx'"
proof -
  have tx: "tx_run tx = TxIdle"
    using ok head by (auto simp: caller_ok_def)
  show ?thesis
  proof (cases "\<exists>a n. rx_run rx = RxBody [] a n")
    case True
    then have "rx_args rx' = rx_args rx" "rx_run rx' = RxIdle"
      using run by (auto simp: rx_step_def)
    moreover have "\<exists>past. P = past @ cs"
      using ok head by (auto simp: caller_ok_def intro: exI [of _ "_ @ [Receiving]"])
    ultimately show ?thesis
      using ok head tx True by (auto simp: caller_ok_def)
  next
    case False
    then have "rx_run rx' \<noteq> RxIdle" "length (rx_args rx') + 1 = length (rx_args rx) + (if rx_run rx = RxIdle then 0 else 1)"
      using run
      by (auto simp: rx_step_def split: rx_run.splits list.splits prod.splits if_splits sum.splits option.splits)
    then show ?thesis
      using ok head tx by (simp add: caller_ok_def)
  qed
qed

text \<open>A step of a party keeps both directions and both parties' books, never faults and reduces the work.\<close>

definition works :: "i32 \<Rightarrow> 'v conv \<Rightarrow> 'v conv \<Rightarrow> nat" where
  "works bs c d = conv_work cont bs c + conv_work cont bs d"

lemma caller_step_ok:
  assumes tx: "dir_ok bs ms tx" and rx: "dir_ok bs ns rx" and mine: "caller_ok P ms ns calls tx rx"
    and other: "caller_ok Q ns ms calls' rx tx"
  shows "case caller_step wr rd grow junk calls tx rx of
      Inl e \<Rightarrow> False
    | Inr None \<Rightarrow> True
    | Inr (Some (cs, tx', rx')) \<Rightarrow> dir_ok bs ms tx' \<and> dir_ok bs ns rx' \<and> caller_ok P ms ns cs tx' rx' \<and>
        caller_ok Q ns ms calls' rx' tx' \<and> works bs tx' rx' < works bs tx rx"
proof (cases calls)
  case (Cons c cs)
  show ?thesis
  proof (cases c)
    case Sending
    note head = Cons [unfolded Sending]
    have inv: "conv_inv cont cap ok bs ms tx"
      using tx by (simp add: dir_ok_def)
    show ?thesis
    proof (cases "tx_step wr tx" rule: outcome_cases)
      case (goes tx')
      have "dir_ok bs ms tx'" "conv_work cont bs tx' < conv_work cont bs tx"
        using tx_step_ok [OF inv] tx_tail_step [OF inv _ goes] tx goes by (simp_all add: dir_ok_def)
      moreover have "caller_ok Q ns ms calls' rx tx'"
        using other tx_step_rx [OF goes] by (simp add: caller_ok_def)
      ultimately show ?thesis
        using caller_ok_tx [OF tx mine head goes] rx goes head by (simp add: caller_step_def works_def split: if_split_asm)
    qed (use tx_step_ok [OF inv] head in \<open>simp_all add: caller_step_def\<close>)
  next
    case Receiving
    note head = Cons [unfolded Receiving]
    have inv: "conv_inv cont cap ok bs ns rx"
      using rx by (simp add: dir_ok_def)
    show ?thesis
    proof (cases "rx_step rd grow junk rx" rule: outcome_cases)
      case (goes rx')
      have "dir_ok bs ns rx'" "conv_work cont bs rx' < conv_work cont bs rx"
        using rx_step_ok [OF inv, of grow junk] tx_tail_rx [OF _ goes] rx goes by (simp_all add: dir_ok_def)
      moreover have "caller_ok Q ns ms calls' rx' tx"
        using other rx_step_tx [OF goes] by (simp add: caller_ok_def)
      ultimately show ?thesis
        using caller_ok_rx [OF rx mine head goes] tx goes head by (simp add: caller_step_def works_def split: if_split_asm)
    qed (use rx_step_ok [OF inv, of grow junk] head in \<open>simp_all add: caller_step_def\<close>)
  qed
qed (simp add: caller_step_def)

lemma session_step_ok:
  assumes ok: "session_ok bs P Q ms ns s"
  shows "case session_step wr rd grow junk first s of
      Inl e \<Rightarrow> False
    | Inr None \<Rightarrow> True
    | Inr (Some s') \<Rightarrow> session_ok bs P Q ms ns s' \<and> works bs (forward s') (backward s') < works bs (forward s) (backward s)"
proof (cases first)
  case True
  then show ?thesis
    using ok caller_step_ok [of bs ms "forward s" ns "backward s" P "first_calls s" Q "second_calls s" grow junk]
    by (auto simp: session_ok_def session_step_def split: sum.splits option.splits prod.splits)
next
  case False
  then show ?thesis
    using ok caller_step_ok [of bs ns "backward s" ms "forward s" Q "second_calls s" P "first_calls s" grow junk]
    by (auto simp: session_ok_def session_step_def works_def split: sum.splits option.splits prod.splits)
qed

lemma session_fire_ok:
  assumes "session_ok bs P Q ms ns s" "session_fire wr rd grow junk first s = Some s'"
  shows "session_ok bs P Q ms ns s'" "works bs (forward s') (backward s') < works bs (forward s) (backward s)"
  using session_step_ok [OF assms(1), of grow junk first] assms(2) by (auto simp: session_fire_def split: sum.splits)

lemma session_never_faults: "session_ok bs P Q ms ns s \<Longrightarrow> \<not> session_faults wr rd grow junk s"
proof
  assume ok: "session_ok bs P Q ms ns s" and "session_faults wr rd grow junk s"
  then obtain first e where "session_step wr rd grow junk first s = Inl e"
    by (auto simp: session_faults_def)
  then show False
    using session_step_ok [OF ok, of grow junk first] by simp
qed

lemma session_runs:
  "run_actions (session_fire wr rd grow junk) ls s = Some s' \<Longrightarrow> session_ok bs P Q ms ns s \<Longrightarrow>
    session_ok bs P Q ms ns s' \<and> length ls + works bs (forward s') (backward s') \<le> works bs (forward s) (backward s)"
proof (induction ls arbitrary: s)
  case (Cons l ls)
  then obtain t where t: "session_fire wr rd grow junk l s = Some t" "run_actions (session_fire wr rd grow junk) ls t = Some s'"
    by (auto split: option.splits)
  then show ?case
    using Cons.IH [OF t(2)] session_fire_ok [OF Cons.prems(2) t(1)] by auto
qed simp

text \<open>The books of a party, read as counts of the calls it has returned from.\<close>

lemma caller_counts:
  assumes "caller_ok P ms ns calls tx rx" "P = past @ calls" "dir_ok bs ns rx"
  shows "tx_done ms tx = sends past" "length (rx_out rx) = recvs past"
proof -
  show "tx_done ms tx = sends past"
    using assms(1,2) by (auto simp: caller_ok_def tx_done_def)
  have "length ns = length (rx_out rx) + recvs calls"
    using assms(1,3)
    by (cases "rx_run rx") (auto simp: caller_ok_def dir_ok_def conv_inv_def rx_inv_def dest!: list_all2_lengthD)
  then show "length (rx_out rx) = recvs past"
    using assms(1,2) by (simp add: caller_ok_def)
qed

text \<open>What a party that cannot move is waiting for.\<close>

lemma caller_waits:
  assumes none: "caller_step wr rd grow junk calls tx rx = Inr None" and dirs: "dir_ok bs ms tx" "dir_ok bs ns rx"
    and mine: "caller_ok P ms ns calls tx rx" and more: "calls \<noteq> []"
  obtains (sending) cs where "calls = Sending # cs" "cont (pipe tx) \<noteq> []" "length (rx_out tx) \<le> tx_done ms tx"
      "\<exists>r reqs n. tx_run tx = TxSend (r # reqs) n" "unat bs < length (stream bs ms)"
    | (receiving) cs where "calls = Receiving # cs" "cont (pipe rx) = []" "tx_done ns rx \<le> length (rx_out rx)"
proof -
  obtain c cs where calls: "calls = c # cs"
    using more by (cases calls) auto
  show thesis
  proof (cases c)
    case Sending
    then have none': "tx_step wr tx = Inr None" and "sends calls \<noteq> 0"
      using none calls by (auto simp: caller_step_def split: sum.splits option.splits)
    then have more': "\<not> (tx_run tx = TxIdle \<and> tx_msgs tx = [])"
      using mine by (auto simp: caller_ok_def)
    have tx: "conv_inv cont cap ok bs ms tx" "tx_tail bs ms tx"
      using dirs(1) by (simp_all add: dir_ok_def)
    have "unat bs < length (stream bs ms)"
      using sender_fits [OF tx(1) _ none'] more' not_le by blast
    then show thesis
      using sender_waits [OF tx none' more'] calls Sending by (intro sending) simp_all
  next
    case Receiving
    then have none': "rx_step rd grow junk rx = Inr None" and "recvs calls \<noteq> 0"
      using none calls by (auto simp: caller_step_def split: sum.splits option.splits)
    then have more': "\<not> (rx_run rx = RxIdle \<and> rx_args rx = [])"
      using mine by (auto simp: caller_ok_def)
    show thesis
      using receiver_waits [OF _ _ none' more', of bs ns] dirs(2) calls Receiving by (intro receiving) (auto simp: dir_ok_def)
  qed
qed

lemma blocked_steps:
  assumes "session_ok bs P Q ms ns s" "session_blocked wr rd grow junk s"
  shows "caller_step wr rd grow junk (first_calls s) (forward s) (backward s) = Inr None"
    "caller_step wr rd grow junk (second_calls s) (backward s) (forward s) = Inr None"
  using assms(2) [unfolded session_blocked_def, rule_format, of True] assms(2) [unfolded session_blocked_def, rule_format, of False]
    session_step_ok [OF assms(1), of grow junk True] session_step_ok [OF assms(1), of grow junk False]
  by (auto simp: session_fire_def session_step_def split: sum.splits option.splits prod.splits)

lemma session_over:
  assumes ok: "session_ok bs P Q ms ns s" and over: "first_calls s = []" "second_calls s = []"
  shows "rx_out (forward s) = ms" "rx_out (backward s) = ns"
proof -
  have dirs: "dir_ok bs ms (forward s)" "dir_ok bs ns (backward s)"
    and books: "caller_ok P ms ns [] (forward s) (backward s)" "caller_ok Q ns ms [] (backward s) (forward s)"
    using ok over by (simp_all add: session_ok_def)
  have "length (rx_out (forward s)) = length ms" "length (rx_out (backward s)) = length ns"
    using caller_counts(2) [OF books(1) _ dirs(2)] caller_counts(2) [OF books(2) _ dirs(1)] books by (auto simp: caller_ok_def)
  moreover obtain r r' where "ms = rx_out (forward s) @ r" "ns = rx_out (backward s) @ r'"
    using conv_inv_prefix dirs unfolding dir_ok_def by metis
  ultimately show "rx_out (forward s) = ms" "rx_out (backward s) = ns"
    by (metis append_Nil2 append_eq_conv_conj take_all_iff order_refl)+
qed

end

section \<open>Which orders of calls are safe\<close>

fun mirror :: "call \<Rightarrow> call" where
  "mirror Sending = Receiving"
| "mirror Receiving = Sending"

lemma mirror_mirror [simp]: "mirror (mirror c) = c"
  by (cases c) simp_all

lemma mirror_counts [simp]: "sends (map mirror cs) = recvs cs" "recvs (map mirror cs) = sends cs"
  by (induction cs rule: sends.induct) simp_all

lemma mirror_pasts:
  assumes "P = past @ calls" "map mirror P = past' @ calls'" "length past < length past'"
  obtains c more where "calls \<noteq> []" "past' = map mirror (past @ hd calls # more)"
proof -
  have past': "past' = map mirror (take (length past') P)"
    using assms(2) by (metis append_eq_conv_conj take_map)
  have "length past' \<le> length P"
    using assms(2) by (metis le_add1 length_append length_map)
  then have "calls \<noteq> []"
    using assms(1,3) by auto
  then obtain c cs where "calls = c # cs"
    by (cases calls) auto
  moreover have "take (length past') P = past @ take (length past' - length past) calls"
    using assms(1,3) by simp
  moreover obtain k where "length past' - length past = Suc k"
    using assms(3) by (metis Suc_diff_Suc)
  ultimately show thesis
    using past' by (intro that [of "take k cs"]) simp_all
qed

context byte_pipe
begin

text \<open>A party that is behind the other one in mirrored programs does not wait.\<close>

lemma behind_moves:
  assumes none: "caller_step wr rd grow junk calls tx rx = Inr None" and dirs: "dir_ok bs ms tx" "dir_ok bs ns rx"
    and books: "caller_ok P ms ns calls tx rx" "caller_ok (map mirror P) ns ms calls' rx tx"
    and pasts: "P = past @ calls" "map mirror P = past' @ calls'" "length past < length past'"
  shows False
proof -
  obtain more where more: "calls \<noteq> []" "past' = map mirror (past @ hd calls # more)"
    by (rule mirror_pasts [OF pasts])
  have counts: "tx_done ms tx = sends past" "length (rx_out rx) = recvs past" "tx_done ns rx = sends past'" "length (rx_out tx) = recvs past'"
    using caller_counts [OF books(1) pasts(1) dirs(2)] caller_counts [OF books(2) pasts(2) dirs(1)] by simp_all
  show False
    by (rule caller_waits [OF none dirs books(1) more(1)]) (use counts more(2) in \<open>simp_all\<close>)
qed

lemma mirrored_done:
  assumes ok: "session_ok bs P (map mirror P) ms ns s" and stuck: "session_blocked wr rd grow junk s"
  shows "first_calls s = []" "second_calls s = []"
proof -
  note none = blocked_steps [OF ok stuck]
  have dirs: "dir_ok bs ms (forward s)" "dir_ok bs ns (backward s)"
    and books: "caller_ok P ms ns (first_calls s) (forward s) (backward s)"
      "caller_ok (map mirror P) ns ms (second_calls s) (backward s) (forward s)"
    using ok by (simp_all add: session_ok_def)
  obtain past past' where pasts: "P = past @ first_calls s" "map mirror P = past' @ second_calls s"
    using books unfolding caller_ok_def by blast
  have "P = map mirror (map mirror P)"
    by (simp add: comp_def)
  then have "\<not> length past < length past'" "\<not> length past' < length past"
    using behind_moves [OF none(1) dirs books pasts] behind_moves [OF none(2) dirs(2,1) books(2) _ pasts(2)] books(1) pasts(1) by metis+
  then have same: "length past = length past'"
    by simp
  then have rest: "second_calls s = map mirror (first_calls s)"
    using pasts by (metis append_eq_append_conv length_map map_append)
  have "first_calls s = []"
  proof (rule ccontr)
    assume more: "first_calls s \<noteq> []"
    then have more': "second_calls s \<noteq> []"
      using rest by simp
    show False
      by (rule caller_waits [OF none(1) dirs books(1) more]; rule caller_waits [OF none(2) dirs(2,1) books(2) more'])
        (use rest in auto)
  qed
  then show "first_calls s = []" "second_calls s = []"
    using rest by simp_all
qed

text \<open>Both send first and then receive: one of the two messages has to fit into the ring.\<close>

lemma exchange_fits:
  assumes none: "caller_step wr rd grow junk calls tx rx = Inr None" "caller_step wr rd grow junk calls' rx tx = Inr None"
    and dirs: "dir_ok bs [m] tx" "dir_ok bs [n] rx"
    and books: "caller_ok [Sending, Receiving] [m] [n] calls tx rx" "caller_ok [Sending, Receiving] [n] [m] calls' rx tx"
    and fits: "length (stream bs [m]) \<le> unat bs"
  shows "calls = [] \<and> calls' = []"
proof -
  have splits: "past = [] \<and> cs = [Sending, Receiving] \<or> past = [Sending] \<and> cs = [Receiving] \<or> past = [Sending, Receiving] \<and> cs = []"
    if "[Sending, Receiving] = past @ cs" for past cs
    using that by (auto simp: Cons_eq_append_conv)
  obtain past past' where pasts: "[Sending, Receiving] = past @ calls" "[Sending, Receiving] = past' @ calls'"
    using books unfolding caller_ok_def by blast
  have counts: "tx_done [m] tx = sends past" "length (rx_out rx) = recvs past" "tx_done [n] rx = sends past'" "length (rx_out tx) = recvs past'"
    using caller_counts [OF books(1) pasts(1) dirs(2)] caller_counts [OF books(2) pasts(2) dirs(1)] by simp_all
  have later: "calls' = []" if "calls = []"
  proof (rule ccontr)
    assume more: "calls' \<noteq> []"
    show False
      by (rule caller_waits [OF none(2) dirs(2,1) books(2) more]) (use counts that splits [OF pasts(1)] splits [OF pasts(2)] in auto)
  qed
  have "calls = []"
  proof (rule ccontr)
    assume more: "calls \<noteq> []"
    show False
    proof (rule caller_waits [OF none(1) dirs books(1) more])
      fix cs assume a: "calls = Receiving # cs" "cont (pipe rx) = []" "tx_done [n] rx \<le> length (rx_out rx)"
      then have calls': "calls' = [Sending, Receiving]"
        using counts splits [OF pasts(1)] splits [OF pasts(2)] by auto
      then have more': "calls' \<noteq> []"
        by simp
      show False
        by (rule caller_waits [OF none(2) dirs(2,1) books(2) more']) (use a(2) calls' in simp_all)
    qed (use fits in simp)
  qed
  then show ?thesis
    using later by blast
qed

end

context bounded_pipe
begin

lemma exchange_stuck:
  assumes dirs: "dir_ok bs [m] tx" "dir_ok bs [n] rx"
    and books: "caller_ok [Sending, Receiving] [m] [n] [Sending, Receiving] tx rx" "caller_ok [Sending, Receiving] [n] [m] [Sending, Receiving] rx tx"
    and long: "unat bs < 4 + length m" and run: "caller_step wr rd grow junk [Sending, Receiving] tx rx = Inr (Some (cs, tx', rx'))"
  shows "cs = [Sending, Receiving]"
proof -
  have rx: "rx_run tx = RxIdle" "rx_out tx = []"
    using books(2) caller_counts(2) [OF books(2) _ dirs(1), of "[]"] by (auto simp: caller_ok_def)
  have "tx_run tx \<noteq> TxSend [] k" for k
    using unread_unsent(2) [of bs m "[]" tx, OF _ _ rx long] dirs(1) by (simp add: dir_ok_def)
  then have "tx_run tx' \<noteq> TxIdle" if "tx_step wr tx = Inr (Some tx')"
    using that by (auto simp: tx_step_def split: tx_run.splits list.splits prod.splits if_splits sum.splits option.splits)
  then show ?thesis
    using run by (auto simp: caller_step_def split: sum.splits option.splits if_splits)
qed

lemma exchange_kept:
  assumes ok: "session_ok bs [Sending, Receiving] [Sending, Receiving] [m] [n] s"
    and calls: "first_calls s = [Sending, Receiving]" "second_calls s = [Sending, Receiving]"
    and long: "unat bs < 4 + length m" "unat bs < 4 + length n"
    and run: "session_fire wr rd grow junk first s = Some s'"
  shows "first_calls s' = [Sending, Receiving]" "second_calls s' = [Sending, Receiving]"
proof -
  have dirs: "dir_ok bs [m] (forward s)" "dir_ok bs [n] (backward s)"
    and books: "caller_ok [Sending, Receiving] [m] [n] [Sending, Receiving] (forward s) (backward s)"
      "caller_ok [Sending, Receiving] [n] [m] [Sending, Receiving] (backward s) (forward s)"
    using ok calls by (simp_all add: session_ok_def)
  show "first_calls s' = [Sending, Receiving]" "second_calls s' = [Sending, Receiving]"
    using run calls exchange_stuck [OF dirs books long(1)] exchange_stuck [OF dirs(2,1) books(2,1) long(2)]
    by (auto simp: session_fire_def session_step_def split: if_splits sum.splits option.splits prod.splits)
qed

lemma exchange_runs:
  "run_actions (session_fire wr rd grow junk) ls s = Some s' \<Longrightarrow>
    session_ok bs [Sending, Receiving] [Sending, Receiving] [m] [n] s \<Longrightarrow> unat bs < 4 + length m \<Longrightarrow> unat bs < 4 + length n \<Longrightarrow>
    first_calls s = [Sending, Receiving] \<Longrightarrow> second_calls s = [Sending, Receiving] \<Longrightarrow>
    first_calls s' = [Sending, Receiving] \<and> second_calls s' = [Sending, Receiving]"
proof (induction ls arbitrary: s)
  case (Cons l ls)
  then obtain t where t: "session_fire wr rd grow junk l s = Some t" "run_actions (session_fire wr rd grow junk) ls t = Some s'"
    by (auto split: option.splits)
  show ?case
    using Cons.IH [OF t(2) session_fire_ok(1) [OF Cons.prems(2) t(1)] Cons.prems(3,4)] exchange_kept [OF Cons.prems(2,5,6,3,4) t(1)] .
qed simp

end

section \<open>Sessions on two rings\<close>

definition session_start :: "'v \<Rightarrow> 'v \<Rightarrow> mem_channel \<Rightarrow> mem_channel \<Rightarrow> call list \<Rightarrow> call list \<Rightarrow>
    bytes list \<Rightarrow> rx_arg list \<Rightarrow> bytes list \<Rightarrow> rx_arg list \<Rightarrow> 'v session" where
  "session_start v w a b P Q ms margs ns nargs =
     \<lparr>forward = conv_start v a b ms margs, backward = conv_start w b a ns nargs, first_calls = P, second_calls = Q\<rparr>"

text \<open>Two unused channels on two empty rings; each receive has a message of the other party that fits.\<close>

definition session_start_ok :: "i32 \<Rightarrow> shm_view \<Rightarrow> shm_view \<Rightarrow> mem_channel \<Rightarrow> mem_channel \<Rightarrow> call list \<Rightarrow> call list \<Rightarrow>
    bytes list \<Rightarrow> rx_arg list \<Rightarrow> bytes list \<Rightarrow> rx_arg list \<Rightarrow> bool" where
  "session_start_ok bs v w a b P Q ms margs ns nargs \<longleftrightarrow>
     (\<forall>r \<in> {v, w}. ring_ok r \<and> buf_size r = bs \<and> contents r = []) \<and>
     conv_start_ok bs a b ms margs \<and> conv_start_ok bs b a ns nargs \<and>
     sends P = length ms \<and> recvs P = length ns \<and> sends Q = length ns \<and> recvs Q = length ms"

lemma session_starts:
  assumes "session_start_ok bs v w a b P Q ms margs ns nargs"
  shows "ring.session_ok bs P Q ms ns (session_start v w a b P Q ms margs ns nargs)"
proof -
  have "ring.dir_ok bs ms (conv_start v a b ms margs)" "ring.dir_ok bs ns (conv_start w b a ns nargs)"
    using assms ring.conv_start_inv by (auto simp: ring.dir_ok_def session_start_ok_def tx_tail_def conv_start_def)
  moreover have "length margs = length ms" "length nargs = length ns"
    using assms by (auto simp: session_start_ok_def conv_start_ok_def dest: list_all2_lengthD)
  ultimately show ?thesis
    using assms by (simp add: ring.session_ok_def session_start_def caller_ok_def session_start_ok_def conv_start_def)
qed

section \<open>Properties\<close>

text \<open>
  C36: Two parties that call \<^verbatim>\<open>send\<close> and \<^verbatim>\<open>recv\<close> of their \<^verbatim>\<open>MemChannel\<close>s in any order, each in its own: whatever the interleaving,
  nothing faults (messages of at most 2 GiB, each received where it fits), in either direction the messages handed out are the first ones sent, byte for byte and in order,
  and every schedule ends, after at most as many steps as the work that the start holds.
\<close>
theorem dialogue_safe:
  assumes "session_start_ok bs v w a b P Q ms margs ns nargs"
    and "run_actions (session_fire write_view read_view grow junk) ls (session_start v w a b P Q ms margs ns nargs) = Some s"
  shows "\<not> session_faults write_view read_view grow junk s \<and>
    (\<exists>rest. ms = rx_out (forward s) @ rest) \<and> (\<exists>rest. ns = rx_out (backward s) @ rest) \<and>
    length ls \<le> conv_work contents bs (conv_start v a b ms margs) + conv_work contents bs (conv_start w b a ns nargs)"
proof -
  have run: "ring.session_ok bs P Q ms ns s" "length ls \<le> ring.works bs (conv_start v a b ms margs) (conv_start w b a ns nargs)"
    using ring.session_runs [OF assms(2) session_starts [OF assms(1)]] by (simp_all add: session_start_def)
  then have "ring.dir_ok bs ms (forward s)" "ring.dir_ok bs ns (backward s)"
    by (simp_all add: ring.session_ok_def)
  then show ?thesis
    using ring.session_never_faults [OF run(1)] ring.conv_inv_prefix run(2) unfolding ring.dir_ok_def ring.works_def by blast
qed

text \<open>Rings of eight bytes, the first message has nine.\<close>

definition demo_dialogue :: "call list \<Rightarrow> bytes \<Rightarrow> bytes \<Rightarrow> shm_view session" where
  "demo_dialogue Q m n = session_start demo_ring demo_ring (demo_channel 0 1) (demo_channel 1 0) [Sending, Receiving] Q [m] demo_args [n] demo_args"

definition demo_fire :: "bool \<Rightarrow> shm_view session \<Rightarrow> shm_view session option" where
  "demo_fire = session_fire write_view read_view (\<lambda>c n. n) (\<lambda>i. 9)"

definition asked_order :: "bool list" where
  "asked_order = [True, True, False, False, True, False, True, True, True, False, False, False, False, True, False, True, True, False]"

lemma demo_dialogue_ok:
  assumes "length m \<le> 2147483648" "length n \<le> 2147483648" "sends Q = 1" "recvs Q = 1"
  shows "session_start_ok 8 demo_ring demo_ring (demo_channel 0 1) (demo_channel 1 0) [Sending, Receiving] Q [m] demo_args [n] demo_args"
  using demo_start_facts assms by (simp add: session_start_ok_def conv_start_ok_def demo_channel_def demo_args_def)

lemma demo_blocked:
  assumes "demo_fire True s = None" "demo_fire False s = None"
  shows "session_blocked write_view read_view (\<lambda>c n. n) (\<lambda>i. 9) s"
  unfolding session_blocked_def
proof
  fix first show "session_fire write_view read_view (\<lambda>c n. n) (\<lambda>i. 9) first s = None"
    using assms unfolding demo_fire_def by (cases first) simp_all
qed

theorem dialogue_safe_witness:
  "\<exists>s. run_actions demo_fire (take 15 asked_order) (demo_dialogue [Receiving, Sending] [1, 2, 3, 4, 5, 6, 7, 8, 9] [7]) = Some s \<and>
    \<not> session_faults write_view read_view (\<lambda>c n. n) (\<lambda>i. 9) s \<and> rx_out (forward s) = [[1, 2, 3, 4, 5, 6, 7, 8, 9]] \<and> rx_out (backward s) = []"
proof -
  let ?m = "[1, 2, 3, 4, 5, 6, 7, 8, 9] :: bytes"
  have "map_option (\<lambda>s. (rx_out (forward s), rx_out (backward s))) (run_actions demo_fire (take 15 asked_order) (demo_dialogue [Receiving, Sending] ?m [7])) =
      Some ([?m], [])"
    by code_simp
  then obtain s where s: "run_actions demo_fire (take 15 asked_order) (demo_dialogue [Receiving, Sending] ?m [7]) = Some s"
      "(rx_out (forward s), rx_out (backward s)) = ([?m], [])"
    by (rule run_part)
  have "session_start_ok 8 demo_ring demo_ring (demo_channel 0 1) (demo_channel 1 0) [Sending, Receiving] [Receiving, Sending] [?m] demo_args [[7]] demo_args"
    by (rule demo_dialogue_ok) simp_all
  from dialogue_safe [OF this s(1) [unfolded demo_fire_def demo_dialogue_def]] s show ?thesis
    by simp
qed

text \<open>
  C6: Mirrored orders of calls never block: when the second party receives where the first one sends and the other way
  round, a schedule in which nobody can move any more has all calls returned and all messages delivered, however small the
  rings are and however long the messages, up to the 2 GiB that \<^verbatim>\<open>send\<close> can handle; each receive has room for its message.
\<close>
theorem mirrored_calls_complete:
  assumes "session_start_ok bs v w a b P (map mirror P) ms margs ns nargs"
    and "reach (session_fire write_view read_view grow junk) (session_start v w a b P (map mirror P) ms margs ns nargs) s"
    and "session_blocked write_view read_view grow junk s"
  shows "first_calls s = [] \<and> second_calls s = [] \<and> rx_out (forward s) = ms \<and> rx_out (backward s) = ns"
proof -
  obtain ls where "run_actions (session_fire write_view read_view grow junk) ls (session_start v w a b P (map mirror P) ms margs ns nargs) = Some s"
    using assms(2) by (auto simp: reach_iff_run)
  then have ok: "ring.session_ok bs P (map mirror P) ms ns s"
    using ring.session_runs session_starts [OF assms(1)] by blast
  show ?thesis
    using ring.mirrored_done [OF ok assms(3)] ring.session_over [OF ok] by blast
qed

theorem mirrored_calls_complete_witness:
  "\<exists>s. run_actions demo_fire asked_order (demo_dialogue [Receiving, Sending] [1, 2, 3, 4, 5, 6, 7, 8, 9] [7]) = Some s \<and>
    rx_out (forward s) = [[1, 2, 3, 4, 5, 6, 7, 8, 9]] \<and> rx_out (backward s) = [[7]]"
proof -
  let ?m = "[1, 2, 3, 4, 5, 6, 7, 8, 9] :: bytes"
  have "map_option (\<lambda>s. (demo_fire True s = None, demo_fire False s = None))
      (run_actions demo_fire asked_order (demo_dialogue [Receiving, Sending] ?m [7])) = Some (True, True)"
    by code_simp
  then obtain s where s: "run_actions demo_fire asked_order (demo_dialogue [Receiving, Sending] ?m [7]) = Some s"
      "reach demo_fire (demo_dialogue [Receiving, Sending] ?m [7]) s" "(demo_fire True s = None, demo_fire False s = None) = (True, True)"
    by (rule run_part)
  have mirror: "[Receiving, Sending] = map mirror [Sending, Receiving]"
    by simp
  have start: "session_start_ok 8 demo_ring demo_ring (demo_channel 0 1) (demo_channel 1 0) [Sending, Receiving] [Receiving, Sending] [?m] demo_args
      [[7]] demo_args"
    by (rule demo_dialogue_ok) simp_all
  have "session_blocked write_view read_view (\<lambda>c n. n) (\<lambda>i. 9) s"
    by (rule demo_blocked) (use s(3) in simp_all)
  from mirrored_calls_complete [OF start [unfolded mirror] s(2) [unfolded demo_fire_def demo_dialogue_def mirror] this] s(1) show ?thesis
    by blast
qed

text \<open>
  C7: Two parties that both send a message and then receive the other's: if one of the messages fits into its ring,
  with the four bytes of its length, every schedule ends with both delivered; if neither does, no schedule gets a party
  out of \<^verbatim>\<open>send\<close>, and every schedule ends with both parties waiting for each other.
\<close>
theorem crossed_sends:
  assumes "session_start_ok bs v w a b [Sending, Receiving] [Sending, Receiving] [m] margs [n] nargs"
    and "reach (session_fire write_view read_view grow junk)
      (session_start v w a b [Sending, Receiving] [Sending, Receiving] [m] margs [n] nargs) s"
  shows "if 4 + length m \<le> unat bs \<or> 4 + length n \<le> unat bs
    then session_blocked write_view read_view grow junk s \<longrightarrow>
      first_calls s = [] \<and> second_calls s = [] \<and> rx_out (forward s) = [m] \<and> rx_out (backward s) = [n]
    else first_calls s = [Sending, Receiving] \<and> second_calls s = [Sending, Receiving]"
proof -
  let ?X = "[Sending, Receiving]" and ?s0 = "session_start v w a b [Sending, Receiving] [Sending, Receiving] [m] margs [n] nargs"
  obtain ls where run: "run_actions (session_fire write_view read_view grow junk) ls ?s0 = Some s"
    using assms(2) by (auto simp: reach_iff_run)
  have start: "ring.session_ok bs ?X ?X [m] [n] ?s0"
    by (rule session_starts [OF assms(1)])
  then have ok: "ring.session_ok bs ?X ?X [m] [n] s"
    using ring.session_runs [OF run] by blast
  then have dirs: "ring.dir_ok bs [m] (forward s)" "ring.dir_ok bs [n] (backward s)"
    and books: "caller_ok ?X [m] [n] (first_calls s) (forward s) (backward s)" "caller_ok ?X [n] [m] (second_calls s) (backward s) (forward s)"
    by (simp_all add: ring.session_ok_def)
  have "valid_buf_size bs" "length m \<le> 2147483648" "length n \<le> 2147483648"
    using assms(1) by (simp_all add: session_start_ok_def conv_start_ok_def)
  then have sizes: "length (stream bs [m]) = 4 + length m" "length (stream bs [n]) = 4 + length n"
    by simp_all
  show ?thesis
  proof (cases "4 + length m \<le> unat bs \<or> 4 + length n \<le> unat bs")
    case True
    have "first_calls s = [] \<and> second_calls s = []" if "session_blocked write_view read_view grow junk s"
      using True ring.exchange_fits [OF ring.blocked_steps [OF ok that] dirs books] sizes
        ring.exchange_fits [OF ring.blocked_steps(2,1) [OF ok that] dirs(2,1) books(2,1)] by auto
    then show ?thesis
      using True ring.session_over [OF ok] by auto
  next
    case False
    then have long: "unat bs < 4 + length m" "unat bs < 4 + length n"
      by simp_all
    have "first_calls s = ?X \<and> second_calls s = ?X"
      by (rule ring_bounded.exchange_runs [OF run start long]) (simp_all add: session_start_def)
    then show ?thesis
      using False by simp
  qed
qed

text \<open>Nine bytes against one, and nine against five, the shortest message that does not fit.\<close>

definition crossed_order :: "bool list" where
  "crossed_order = [True, True, False, False, False, False, False, False, True, False, True, False, True, True, True, False, True, True]"

theorem crossed_sends_witness:
  "(\<exists>s. run_actions demo_fire crossed_order (demo_dialogue [Sending, Receiving] [1, 2, 3, 4, 5, 6, 7, 8, 9] [7]) = Some s \<and>
      rx_out (forward s) = [[1, 2, 3, 4, 5, 6, 7, 8, 9]] \<and> rx_out (backward s) = [[7]]) \<and>
    (\<exists>s. run_actions demo_fire (take 4 crossed_order) (demo_dialogue [Sending, Receiving] [1, 2, 3, 4, 5, 6, 7, 8, 9] [7, 7, 7, 7, 7]) = Some s \<and>
      first_calls s = [Sending, Receiving] \<and> second_calls s = [Sending, Receiving] \<and> session_blocked write_view read_view (\<lambda>c n. n) (\<lambda>i. 9) s)"
proof -
  let ?m = "[1, 2, 3, 4, 5, 6, 7, 8, 9] :: bytes"
  have start: "session_start_ok 8 demo_ring demo_ring (demo_channel 0 1) (demo_channel 1 0) [Sending, Receiving] [Sending, Receiving] [?m] demo_args
      [n] demo_args" if "length n \<le> 9" for n
    by (rule demo_dialogue_ok) (use that in simp_all)
  have "map_option (\<lambda>s. (demo_fire True s = None, demo_fire False s = None))
      (run_actions demo_fire crossed_order (demo_dialogue [Sending, Receiving] ?m [7])) = Some (True, True)"
    by code_simp
  then obtain s where s: "run_actions demo_fire crossed_order (demo_dialogue [Sending, Receiving] ?m [7]) = Some s"
      "reach demo_fire (demo_dialogue [Sending, Receiving] ?m [7]) s" "(demo_fire True s = None, demo_fire False s = None) = (True, True)"
    by (rule run_part)
  have "session_blocked write_view read_view (\<lambda>c n. n) (\<lambda>i. 9) s"
    by (rule demo_blocked) (use s(3) in simp_all)
  with crossed_sends [OF start s(2) [unfolded demo_fire_def demo_dialogue_def]]
  have s': "rx_out (forward s) = [?m] \<and> rx_out (backward s) = [[7]]"
    by simp
  have "map_option (\<lambda>s. (demo_fire True s = None, demo_fire False s = None))
      (run_actions demo_fire (take 4 crossed_order) (demo_dialogue [Sending, Receiving] ?m [7, 7, 7, 7, 7])) = Some (True, True)"
    by code_simp
  then obtain t where t: "run_actions demo_fire (take 4 crossed_order) (demo_dialogue [Sending, Receiving] ?m [7, 7, 7, 7, 7]) = Some t"
      "reach demo_fire (demo_dialogue [Sending, Receiving] ?m [7, 7, 7, 7, 7]) t" "(demo_fire True t = None, demo_fire False t = None) = (True, True)"
    by (rule run_part)
  have blocked: "session_blocked write_view read_view (\<lambda>c n. n) (\<lambda>i. 9) t"
    by (rule demo_blocked) (use t(3) in simp_all)
  from crossed_sends [OF start t(2) [unfolded demo_fire_def demo_dialogue_def]]
  have "first_calls t = [Sending, Receiving] \<and> second_calls t = [Sending, Receiving]"
    by simp
  then show ?thesis
    using s(1) s' t(1) blocked by blast
qed

end
