(* ===== verification/MemLink.thy ===== *)
theory MemLink imports ShmLifecycle TalkRing TwoWay begin

text \<open>
  \<^verbatim>\<open>MemChannel\<close> from its constructor on: two parties set up their shared memory (theory \<^verbatim>\<open>ShmLifecycle\<close>) and then
  talk over it (theory \<^verbatim>\<open>TalkRing\<close>).
\<close>

section \<open>The handshake counts no traffic\<close>

lemma same_counters [simp]:
  "ichannel.truncate (set_view w x fd c) = ichannel.truncate c" "ichannel.truncate (c\<lparr>need_attach := b\<rparr>) = ichannel.truncate c"
  by (cases w) (simp_all add: ichannel.defs)

lemma party_step_counters:
  assumes "party_step E p t fd c y = Some (Inr (c', y'))"
  shows "ichannel.truncate (chan c') = ichannel.truncate (chan c)"
proof (cases "todo c")
  case (Cons op ops)
  then show ?thesis
    using assms
    by (cases op)
      (auto simp: party_step_def create_shm_def attach_shm_def detach_shm_def finish_op_def unmap_views_def close_fd_def Let_def
        split: stage.splits lock_pc.splits option.splits prod.splits sum.splits if_splits)
qed (use assms in \<open>simp add: party_step_def\<close>)

lemma shm_fire_counters:
  assumes "shm_fire E proc l s = Some s'"
  shows "ichannel.truncate (chan (creator s')) = ichannel.truncate (chan (creator s)) \<and>
    ichannel.truncate (chan (attacher s')) = ichannel.truncate (chan (attacher s))"
  using assms party_step_counters by (cases l) (fastforce split: if_splits option.splits sum.splits prod.splits)

text \<open>The traffic counters of a channel.\<close>

definition unused :: "mem_channel \<Rightarrow> bool" where
  "unused c \<longleftrightarrow> m_bytes_send c = 0 \<and> m_packet_send c = 0 \<and> m_bytes_recv c = 0 \<and> m_packet_recv c = 0"

lemma unused_truncate: "ichannel.truncate c' = ichannel.truncate c \<Longrightarrow> unused c' = unused c"
  by (simp add: unused_def ichannel.defs)

interpretation unused_inv: machine_invariant "shm_fire E proc" "\<lambda>s. unused (chan (creator s)) \<and> unused (chan (attacher s))" for E proc
  using shm_fire_counters unused_truncate by unfold_locales blast

lemma MemChannel_unused: "unused (chan (MemChannel a b taskid ecv bs))"
  by (simp add: unused_def MemChannel_def Let_def IChannel_def ichannel.defs)

section \<open>A conversation after the handshake\<close>

text \<open>The ring a channel sends into.\<close>

definition segment_of :: "shm_world \<Rightarrow> mem_channel \<Rightarrow> shm_view" where
  "segment_of s c = seg_view (segments (sys s) ! the (m_send_buf c))"

lemma link_start:
  assumes "a < b" "env_ok E bs ecv" "shm_names y (get_shm_key a b taskid) = None" "shm_names y (get_shm_key b a taskid) = None"
    and "reach (shm_fire E proc) (handshake_start a b taskid ecv bs y) s" "todo (creator s) = []" "todo (attacher s) = []"
    and "(tx, rx) \<in> {(chan (creator s), chan (attacher s)), (chan (attacher s), chan (creator s))}"
    and "\<forall>m \<in> set ms. length m \<le> 2147483648" "list_all2 arg_fits args ms"
  shows "m_recv_buf rx = m_send_buf tx" "conv_start_ok bs tx rx ms args" "ring_ok (segment_of s tx)" "buf_size (segment_of s tx) = bs"
    "contents (segment_of s tx) = []" "enable_cv (segment_of s tx) = ecv"
proof -
  note ok = handshake_ok [OF assms(1-5)]
  have seg: "m_recv_buf rx = m_send_buf tx \<and> segment_of s tx = seg_view (taken_segment E bs ecv)"
    by (rule handshake_done [OF ok assms(6,7)]) (use assms(8) in \<open>auto simp: segment_of_def\<close>)
  then show "m_recv_buf rx = m_send_buf tx" "ring_ok (segment_of s tx)" "buf_size (segment_of s tx) = bs"
    "contents (segment_of s tx) = []" "enable_cv (segment_of s tx) = ecv"
    using taken_segment_ok [OF assms(2)] by simp_all
  have "unused (chan (creator s)) \<and> unused (chan (attacher s))"
    by (rule unused_inv.always [OF assms(5)]) (simp add: handshake_start_def attach_def MemChannel_unused)
  then show "conv_start_ok bs tx rx ms args"
    using shm_okD(4,7) [OF ok] assms(2,8-10) by (auto simp: conv_start_ok_def unused_def same_channel_def env_ok_def)
qed

text \<open>After the handshake the two parties can also talk in both directions, as in theory \<^verbatim>\<open>TwoWay\<close>.\<close>

lemma link_session:
  assumes "a < b" "env_ok E bs ecv" "shm_names y (get_shm_key a b taskid) = None" "shm_names y (get_shm_key b a taskid) = None"
    and "reach (shm_fire E proc) (handshake_start a b taskid ecv bs y) s" "todo (creator s) = []" "todo (attacher s) = []"
    and "\<forall>m \<in> set (ms @ ns). length m \<le> 2147483648" "list_all2 arg_fits margs ms" "list_all2 arg_fits nargs ns"
    and "sends P = length ms" "recvs P = length ns" "sends Q = length ns" "recvs Q = length ms"
  shows "session_start_ok bs (segment_of s (chan (creator s))) (segment_of s (chan (attacher s))) (chan (creator s)) (chan (attacher s))
    P Q ms margs ns nargs"
  using link_start [OF assms(1-7) _ _ assms(9), of "chan (creator s)" "chan (attacher s)"]
    link_start [OF assms(1-7) _ _ assms(10), of "chan (attacher s)" "chan (creator s)"] assms(8,11-14)
  by (simp add: session_start_ok_def)

section \<open>Property\<close>

text \<open>
  C2: A \<^verbatim>\<open>MemChannel\<close> delivers: when two parties have gone through the handshake under any schedule, then in either
  direction, with or without the condition variable, whatever the interleaving of the sender and the receiver, nothing
  faults, the messages (of at most 2 GiB, each received where it fits) arrive in order and byte for byte, and every
  schedule ends with all of them delivered.
\<close>
theorem mem_link_delivers:
  assumes "a < b" "env_ok E bs ecv" "shm_names y (get_shm_key a b taskid) = None" "shm_names y (get_shm_key b a taskid) = None"
    and "reach (shm_fire E proc) (handshake_start a b taskid ecv bs y) s" "todo (creator s) = []" "todo (attacher s) = []"
    and "(tx, rx) \<in> {(chan (creator s), chan (attacher s)), (chan (attacher s), chan (creator s))}"
    and "\<forall>m \<in> set ms. length m \<le> 2147483648" "list_all2 arg_fits args ms"
    and "run_actions (ring_talk grow junk) ls (talk_start (segment_of s tx) tx rx ms args) = Some c"
  shows "m_recv_buf rx = m_send_buf tx \<and> enable_cv (segment_of s tx) = ecv \<and> \<not> talk_faults grow junk c \<and>
    (\<exists>rest. ms = rx_out c @ rest) \<and>
    length (filter moves ls) \<le> talk_bound bs ms args + 2 * length (filter (\<lambda>l. \<not> moves l) ls) \<and>
    (talk_blocked grow junk c \<longrightarrow> rx_out c = ms)"
proof -
  note start = link_start [OF assms(1-10)]
  show ?thesis
    using talk_sound [OF start(2-5) run_reach [OF assms(11)]] talk_bounded [OF start(2-5) assms(11)] start(1,6) by blast
qed

text \<open>The creator's ring after the handshake of theory \<^verbatim>\<open>ShmLifecycle\<close>, and one byte over it.\<close>

definition demo_link :: "(shm_world \<times> ring_state conv) option" where
  "demo_link =
     Option.bind (run_actions (shm_fire demo_env id) demo_handshake (handshake_start 1 2 ''t'' True 8 empty_system))
       (\<lambda>s. map_option (Pair s) (run_actions (ring_talk (\<lambda>c n. n) (\<lambda>i. 9)) demo_cv_talk
          (talk_start (segment_of s (chan (creator s))) (chan (creator s)) (chan (attacher s)) [[7]] demo_args)))"

theorem mem_link_delivers_witness:
  "\<exists>s c. demo_link = Some (s, c) \<and> rx_out c = [[7]] \<and> m_recv_buf (chan (attacher s)) = m_send_buf (chan (creator s))"
proof -
  have "map_option (\<lambda>(s, c). (todo (creator s), todo (attacher s), talk_blocked (\<lambda>c n. n) (\<lambda>i. 9) c)) demo_link = Some ([], [], True)"
    by code_simp
  then obtain s c where sc: "demo_link = Some (s, c)" "todo (creator s) = []" "todo (attacher s) = []" "talk_blocked (\<lambda>c n. n) (\<lambda>i. 9) c"
    by auto
  then have s: "run_actions (shm_fire demo_env id) demo_handshake (handshake_start 1 2 ''t'' True 8 empty_system) = Some s"
    and c: "run_actions (ring_talk (\<lambda>c n. n) (\<lambda>i. 9)) demo_cv_talk
      (talk_start (segment_of s (chan (creator s))) (chan (creator s)) (chan (attacher s)) [[7]] demo_args) = Some c"
    by (auto simp: demo_link_def split: bind_splits)
  have start: "(1 :: u32) < 2" "shm_names empty_system k = None" for k
    by (simp_all add: empty_system_def)
  have fits: "\<forall>m \<in> set [[7 :: u8]]. length m \<le> 2147483648" "list_all2 arg_fits demo_args [[7]]"
    using demo_start_facts(1) by (simp_all add: conv_start_ok_def)
  have "(chan (creator s), chan (attacher s)) \<in> {(chan (creator s), chan (attacher s)), (chan (attacher s), chan (creator s))}"
    by simp
  from mem_link_delivers [OF start(1) demo_env_ok start(2,2) run_reach [OF s] sc(2,3) this fits c] sc(4)
  have "m_recv_buf (chan (attacher s)) = m_send_buf (chan (creator s)) \<and> rx_out c = [[7]]"
    by blast
  then show ?thesis
    using sc(1) by blast
qed

end
