(* ===== verification/ShmExhausted.thy ===== *)
theory ShmExhausted imports ShmLifecycle begin

text \<open>
  The constructor of \<^verbatim>\<open>MemChannel\<close> (\<^verbatim>\<open>src/src/memchannel.cpp\<close>) when the system does not give it its memory: the results of
  \<^verbatim>\<open>ftruncate\<close> and \<^verbatim>\<open>mmap\<close> are not looked at.
\<close>

lemma creator_chan:
  assumes "a < b"
  shows "creator (handshake_start a b taskid ecv bs y) =
    \<lparr>chan = chan (MemChannel a b taskid ecv bs), todo = [Destroy Outgoing, Destroy Incoming, Create Outgoing, Create Incoming, CheckSize],
     stage = Begin, unmapped = [], closed = []\<rparr>"
  using assms by (simp add: handshake_start_def MemChannel_def Let_def)

definition nothing_locked :: "system \<Rightarrow> bool" where
  "nothing_locked y \<longleftrightarrow> (\<forall>k. key_owner (kern y) k = None) \<and> (\<forall>i. record_locks (kern y) i = None)"

lemma fire_creator:
  assumes "party_step E (proc 0) 0 fd c y = Some (Inr (c', y'))" "shm_fault s = None"
    and "run_actions (shm_fire E proc) ls (s\<lparr>creator := c', sys := y'\<rparr>) = r"
  shows "run_actions (shm_fire E proc) ((True, fd) # ls) (s\<lparr>creator := c, sys := y\<rparr>) = r"
  using assms by simp

lemma open_succeeds:
  obtains i k' where "open_lock_file True path k = (Some i, k')" "record_locks k' = record_locks k" "key_owner k' = key_owner k"
  by (cases "lock_files k path") (auto simp: open_lock_file_def)

text \<open>The creator alone, up to its first access of the view: nine system calls.\<close>

lemma exhausted_run:
  assumes "a < b" "nothing_locked y" "\<not> grows E (length (segments y)) \<or> \<not> maps E (length (segments y))" "0 < view_size E"
  shows "\<exists>s. run_actions (shm_fire E proc) (replicate 9 (True, fd)) (handshake_start a b taskid ecv bs y) = Some s \<and>
    shm_fault s = Some OutOfBounds \<and> shm_names (sys s) (get_shm_key a b taskid) = Some (length (segments y))"
proof -
  define k where "k = get_shm_key a b taskid"
  define c where "c = chan (MemChannel a b taskid ecv bs)"
  define party where "party = (\<lambda>ops g. \<lparr>chan = c, todo = ops @ [Create Outgoing, Create Incoming, CheckSize], stage = g, unmapped = [], closed = []\<rparr>)"
  have key: "shm_name c Outgoing = k"
    unfolding c_def k_def by (rule MemChannel_names)
  note key = key key [unfolded shm_name.simps]
  define y2 where "y2 = shm_unlink (shm_name c Incoming) (shm_unlink (shm_name c Outgoing) y)"
  have kern2: "kern y2 = kern y"
    by (simp add: y2_def shm_unlink_def)
  obtain i k4 where open4: "open_lock_file True (lock_file (tmp_dir E) k) (kern y2) = (Some i, k4)"
      "record_locks k4 = record_locks (kern y)" "key_owner k4 = key_owner (kern y)"
    unfolding kern2 by (rule open_succeeds)
  have free: "record_locks k4 i = None" "key_owner k4 (p, k) = None" for p
    using open4(2,3) assms(2) by (simp_all add: nothing_locked_def)
  define k5 where "k5 = k4\<lparr>record_locks := (record_locks k4)(i \<mapsto> proc 0)\<rparr>"
  define k6 where "k6 = k5\<lparr>key_owner := (key_owner k5)((proc 0, k) := Some 0)\<rparr>"
  define x where "x = length (segments y)"
  define y7 where "y7 = y2\<lparr>kern := k6, shm_names := (shm_names y2)(k \<mapsto> x), segments := segments y @ [\<lparr>seg_size = 0, seg_view = zero_view 0\<rparr>]\<rparr>"
  define y8 where "y8 = y7\<lparr>segments := (if grows E x then (segments y7)[x := ftruncate (view_size E) (map_size E c) (segments y7 ! x)] else segments y7)\<rparr>"
  have start: "creator (handshake_start a b taskid ecv bs y) = party [Destroy Outgoing, Destroy Incoming] Begin"
      "sys (handshake_start a b taskid ecv bs y) = y" "shm_fault (handshake_start a b taskid ecv bs y) = None"
    using creator_chan [OF assms(1)] by (simp_all add: party_def c_def handshake_start_def)
  have 1: "party_step E (proc 0) 0 fd (party [Destroy Outgoing, Destroy Incoming] Begin) y =
      Some (Inr (party [Destroy Incoming] Begin, shm_unlink (shm_name c Outgoing) y))"
    by (simp add: party_step_def party_def)
  have 2: "party_step E (proc 0) 0 fd (party [Destroy Incoming] Begin) (shm_unlink (shm_name c Outgoing) y) = Some (Inr (party [] Begin, y2))"
    by (simp add: party_step_def party_def y2_def)
  have 3: "party_step E (proc 0) 0 fd (party [] Begin) y2 = Some (Inr (party [] (CreateLock (Opening k)), y2))"
    by (simp add: party_step_def party_def create_shm_def key)
  have 4: "party_step E (proc 0) 0 fd (party [] (CreateLock (Opening k))) y2 = Some (Inr (party [] (CreateLock (Opened k (Some i))), y2\<lparr>kern := k4\<rparr>))"
    by (simp add: party_step_def party_def create_shm_def lock_run_def open4(1))
  have 5: "party_step E (proc 0) 0 fd (party [] (CreateLock (Opened k (Some i)))) (y2\<lparr>kern := k4\<rparr>) =
      Some (Inr (party [] (CreateLock (Locked k (Some i))), y2\<lparr>kern := k5\<rparr>))"
    by (simp add: party_step_def party_def create_shm_def lock_run_def set_lock_wait_def free k5_def)
  have 6: "party_step E (proc 0) 0 fd (party [] (CreateLock (Locked k (Some i)))) (y2\<lparr>kern := k5\<rparr>) =
      Some (Inr (party [] (CreateLock (Held k (Some i))), y2\<lparr>kern := k6\<rparr>))"
    using free(2) by (simp add: party_step_def party_def create_shm_def lock_run_def mutex_lock_def k5_def k6_def)
  have 7: "party_step E (proc 0) 0 fd (party [] (CreateLock (Held k (Some i)))) (y2\<lparr>kern := k6\<rparr>) =
      Some (Inr (party [] (CreateSize (Held k (Some i)) x), y7))"
    by (simp add: party_step_def party_def create_shm_def shm_create_def Let_def y7_def x_def y2_def shm_unlink_def key)
  have 8: "party_step E (proc 0) 0 fd (party [] (CreateSize (Held k (Some i)) x)) y7 =
      Some (Inr (party [] (CreateInit (Held k (Some i)) x), y8))"
    by (simp add: party_step_def party_def create_shm_def Let_def y8_def)
  have "segments y7 ! x = \<lparr>seg_size = 0, seg_view = zero_view 0\<rparr>"
    by (simp add: y7_def x_def)
  then have "\<not> maps E x \<or> seg_size (segments y8 ! x) < view_size E"
    using assms(3,4) by (auto simp: y8_def x_def)
  then have 9: "party_step E (proc 0) 0 fd (party [] (CreateInit (Held k (Some i)) x)) y8 = Some (Inl OutOfBounds)"
    by (auto simp: party_step_def party_def create_shm_def Let_def)
  let ?s0 = "handshake_start a b taskid ecv bs y"
  have s0: "?s0 = ?s0\<lparr>creator := party [Destroy Outgoing, Destroy Incoming] Begin, sys := y\<rparr>"
    by (simp add: start(1) [symmetric] handshake_start_def)
  note run = fire_creator [where E = E and proc = proc and fd = fd and s = ?s0, OF _ start(3)]
  let ?s9 = "?s0\<lparr>creator := party [] (CreateInit (Held k (Some i)) x), sys := y8, shm_fault := Some OutOfBounds\<rparr>"
  have "run_actions (shm_fire E proc)
      [(True, fd), (True, fd), (True, fd), (True, fd), (True, fd), (True, fd), (True, fd), (True, fd), (True, fd)]
      (?s0\<lparr>creator := party [Destroy Outgoing, Destroy Incoming] Begin, sys := y\<rparr>) = Some ?s9"
    by (rule run [OF 1], rule run [OF 2], rule run [OF 3], rule run [OF 4], rule run [OF 5], rule run [OF 6], rule run [OF 7],
      rule run [OF 8], simp add: start(3) 9)
  then have "run_actions (shm_fire E proc)
      [(True, fd), (True, fd), (True, fd), (True, fd), (True, fd), (True, fd), (True, fd), (True, fd), (True, fd)] ?s0 = Some ?s9"
    unfolding s0 [symmetric] .
  moreover have "replicate 9 (True, fd) = [(True, fd), (True, fd), (True, fd), (True, fd), (True, fd), (True, fd), (True, fd), (True, fd), (True, fd)]"
    by (simp add: eval_nat_numeral)
  moreover have "shm_names y8 k = Some x"
    by (simp add: y8_def y7_def)
  ultimately show ?thesis
    by (simp add: k_def x_def)
qed

end
