(* ===== verification/ShmProgress.thy ===== *)
theory ShmProgress imports ShmLifecycle begin

text \<open>
  The handshake of theory \<^verbatim>\<open>ShmLifecycle\<close> comes to an end: the two parties never block each other for good, and every step
  but a poll in vain is progress.
\<close>

section \<open>Progress\<close>

fun lock_rank :: "lock_pc \<Rightarrow> nat" where
  "lock_rank (Opening key) = 7"
| "lock_rank (Opened key fd) = 6"
| "lock_rank (Locked key fd) = 5"
| "lock_rank (Held key fd) = 4"
| "lock_rank (Freeing key fd) = 3"
| "lock_rank (Closing key fd) = 2"
| "lock_rank (Released key) = 1"

fun stage_rank :: "stage \<Rightarrow> nat" where
  "stage_rank Begin = 19"
| "stage_rank (CreateLock pc) = 10 + lock_rank pc"
| "stage_rank (CreateSize pc x) = 13"
| "stage_rank (CreateInit pc x) = 12"
| "stage_rank (CreateFree pc x) = lock_rank pc"
| "stage_rank (AttachLock pc x) = 10 + lock_rank pc"
| "stage_rank (AttachUnlink pc x) = 12"
| "stage_rank (AttachFree pc x) = lock_rank pc"
| "stage_rank DetachUnlink = 5"

definition party_rank :: "party \<Rightarrow> nat" where
  "party_rank c = (case todo c of [] \<Rightarrow> 0 | op # ops \<Rightarrow> 20 * length ops + stage_rank (stage c))"

lemma lock_rank_bounds [simp]: "0 < lock_rank pc" "lock_rank pc \<noteq> 0" "lock_rank pc \<le> 7"
  by (cases pc; simp)+

lemma give_back_rank: "lock_rank (give_back pc) < 12"
  by (rule le_less_trans [OF lock_rank_bounds(3)]) simp

lemma stage_rank_bounds: "0 < stage_rank g" "stage_rank g \<le> 19"
proof -
  have "lock_rank pc \<le> 9" "lock_rank pc \<le> 19" for pc
    by (rule order_trans [OF lock_rank_bounds(3)], simp)+
  then show "0 < stage_rank g" "stage_rank g \<le> 19"
    by (cases g; simp)+
qed

lemma lock_run_rank:
  assumes "lock_run E p t pc y = Some (pc', y')"
  shows "lock_rank pc' < lock_rank pc"
  using assms
  by (cases pc) (auto simp: lock_run_def open_lock_file_def set_lock_wait_def mutex_lock_def split: option.splits if_splits)

lemma rank_less:
  assumes "todo c = op # ops"
    and "todo c' = ops \<and> (stage c' = Begin \<or> stage c' = stage c) \<or> todo c' = todo c \<and> stage_rank (stage c') < stage_rank (stage c)"
  shows "party_rank c' < party_rank c"
  using assms stage_rank_bounds(1) [of "stage c"] by (cases ops) (auto simp: party_rank_def)

text \<open>The one step that is no progress: the attacher looks for a name and does not find it.\<close>

definition polls_in_vain :: "party \<Rightarrow> system \<Rightarrow> bool" where
  "polls_in_vain c y \<longleftrightarrow> stage c = Begin \<and> (\<exists>w ops. todo c = Attach w # ops \<and> shm_names y (shm_name (chan c) w) = None)"

lemma party_step_rank:
  assumes run: "party_step E p t fd c y = Some (Inr (c', y'))"
  shows "c' = c \<and> y' = y \<and> polls_in_vain c y \<or> party_rank c' < party_rank c"
proof (cases "todo c")
  case (Cons op ops)
  note less = rank_less [OF Cons]
  show ?thesis
  proof (cases op)
    case (Create w)
    then have "create_shm E p t fd w c y = Some (Inr (c', y'))"
      using run Cons by (simp add: party_step_def)
    then show ?thesis
      by (auto simp: create_shm_def Let_def finish_op_def Cons give_back_rank
          dest: lock_run_rank intro!: less split: stage.splits lock_pc.splits option.splits prod.splits sum.splits if_splits)
  next
    case (Attach w)
    then have "attach_shm E p t fd w c y = Some (Inr (c', y'))"
      using run Cons by (simp add: party_step_def)
    then show ?thesis
      by (auto simp: attach_shm_def Let_def finish_op_def Cons Attach give_back_rank polls_in_vain_def
          dest: lock_run_rank intro!: less split: stage.splits lock_pc.splits option.splits prod.splits sum.splits if_splits)
  next
    case (Detach w)
    then have "detach_shm w c y = Some (Inr (c', y'))"
      using run Cons by (simp add: party_step_def)
    then show ?thesis
      by (auto simp: detach_shm_def Let_def Cons intro!: less split: stage.splits option.splits if_splits)
  qed (use run Cons in \<open>auto simp: party_step_def unmap_views_def close_fd_def intro!: less split: option.splits if_splits sum.splits\<close>)
qed (use run in \<open>simp add: party_step_def\<close>)

section \<open>Who holds a lock\<close>

fun holds_key :: "lock_pc option \<Rightarrow> string \<Rightarrow> bool" where
  "holds_key None key = False"
| "holds_key (Some pc) key = (owns_key pc \<and> pc_key pc = key)"

fun holds_record :: "lock_pc option \<Rightarrow> nat \<Rightarrow> bool" where
  "holds_record None i = False"
| "holds_record (Some pc) i = (owns_record pc \<and> pc_fd pc = Some (Some i))"

definition party_lock :: "shm_world \<Rightarrow> nat \<Rightarrow> lock_pc option" where
  "party_lock s t = stage_lock (stage (if t = 0 then creator s else attacher s))"

text \<open>Every lock in the kernel is held by one of the two parties.\<close>

definition locks_ok :: "(nat \<Rightarrow> nat) \<Rightarrow> shm_world \<Rightarrow> bool" where
  "locks_ok proc s \<longleftrightarrow>
     (\<forall>p key t. key_owner (kern (sys s)) (p, key) = Some t \<longrightarrow> t < 2 \<and> p = proc t \<and> holds_key (party_lock s t) key) \<and>
     (\<forall>i p. record_locks (kern (sys s)) i = Some p \<longrightarrow> (\<exists>t < 2. p = proc t \<and> holds_record (party_lock s t) i))"

text \<open>What thread \<open>t\<close> of process \<open>p\<close> does to the locks when its position changes from \<open>x\<close> to \<open>x'\<close>.\<close>

definition lock_move :: "nat \<Rightarrow> nat \<Rightarrow> kernel \<Rightarrow> lock_pc option \<Rightarrow> kernel \<Rightarrow> lock_pc option \<Rightarrow> bool" where
  "lock_move p t k x k' x' \<longleftrightarrow>
     (\<forall>q key u. key_owner k' (q, key) = Some u \<longrightarrow>
       u = t \<and> q = p \<and> holds_key x' key \<or> key_owner k (q, key) = Some u \<and> \<not> (u = t \<and> q = p \<and> holds_key x key)) \<and>
     (\<forall>i q. record_locks k' i = Some q \<longrightarrow>
       q = p \<and> holds_record x' i \<or> record_locks k i = Some q \<and> \<not> (q = p \<and> holds_record x i))"

lemma lock_move_same:
  assumes "key_owner k' = key_owner k" "record_locks k' = record_locks k" "holds_key x' = holds_key x" "holds_record x' = holds_record x"
  shows "lock_move p t k x k' x'"
  using assms by (auto simp: lock_move_def)

lemma give_back_holds: "holds_key (Some (give_back pc)) = holds_key (Some pc)" "holds_record (Some (give_back pc)) = holds_record (Some pc)"
  by (cases pc; auto intro!: ext)+

lemma idle_holds:
  "holds_key (Some (Opening key)) = holds_key None" "holds_record (Some (Opening key)) = holds_record None"
  "holds_key (Some (Released key)) = holds_key None" "holds_record (Some (Released key)) = holds_record None"
  by (auto intro!: ext)

lemma lock_run_move:
  assumes "lock_run E p t pc y = Some (pc', y')"
  shows "lock_move p t (kern y) (Some pc) (kern y') (Some pc')"
  using assms
  by (cases pc)
    (auto simp: lock_run_def open_lock_file_def set_lock_wait_def close_lock_file_def mutex_lock_def lock_move_def
      split: option.splits if_splits)

lemma party_step_lock:
  assumes run: "party_step E p t fd c y = Some (Inr (c', y'))"
  shows "(\<exists>pc pc'. lock_run E p t pc y = Some (pc', y') \<and> stage_lock (stage c) = Some pc \<and> stage_lock (stage c') = Some pc') \<or>
    key_owner (kern y') = key_owner (kern y) \<and> record_locks (kern y') = record_locks (kern y) \<and>
    holds_key (stage_lock (stage c')) = holds_key (stage_lock (stage c)) \<and>
    holds_record (stage_lock (stage c')) = holds_record (stage_lock (stage c))"
proof (cases "todo c")
  case (Cons op ops)
  show ?thesis
  proof (cases op)
    case (Create w)
    then have "create_shm E p t fd w c y = Some (Inr (c', y'))"
      using run Cons by (simp add: party_step_def)
    then show ?thesis
      by (auto simp: create_shm_def Let_def finish_op_def shm_create_def give_back_holds idle_holds
          split: stage.splits lock_pc.splits option.splits prod.splits sum.splits if_splits)
  next
    case (Attach w)
    then have "attach_shm E p t fd w c y = Some (Inr (c', y'))"
      using run Cons by (simp add: party_step_def)
    then show ?thesis
      by (auto simp: attach_shm_def Let_def finish_op_def shm_unlink_def delete_file_lock_def give_back_holds idle_holds
          split: stage.splits lock_pc.splits option.splits prod.splits sum.splits if_splits)
  next
    case (Detach w)
    then have "detach_shm w c y = Some (Inr (c', y'))"
      using run Cons by (simp add: party_step_def)
    then show ?thesis
      by (auto simp: detach_shm_def Let_def shm_unlink_def split: stage.splits option.splits if_splits)
  qed (use run Cons in \<open>auto simp: party_step_def unmap_views_def close_fd_def shm_unlink_def split: option.splits if_splits sum.splits\<close>)
qed (use run in \<open>simp add: party_step_def\<close>)

lemma party_step_lock_move:
  assumes run: "party_step E p t fd c y = Some (Inr (c', y'))"
  shows "lock_move p t (kern y) (stage_lock (stage c)) (kern y') (stage_lock (stage c'))"
  using party_step_lock [OF run] lock_run_move lock_move_same by (metis (no_types, lifting))

lemma locks_okD:
  assumes "locks_ok proc s"
  shows "key_owner (kern (sys s)) (p, key) = Some t \<Longrightarrow> t < 2 \<and> p = proc t \<and> holds_key (party_lock s t) key"
    "record_locks (kern (sys s)) i = Some p \<Longrightarrow> \<exists>t < 2. p = proc t \<and> holds_record (party_lock s t) i"
  using assms unfolding locks_ok_def by blast+

lemma locks_ok_move:
  assumes ok: "locks_ok proc s" and t: "t < 2"
    and move: "lock_move (proc t) t (kern (sys s)) (party_lock s t) (kern (sys s')) (party_lock s' t)"
    and other: "\<And>u. u < 2 \<Longrightarrow> u \<noteq> t \<Longrightarrow> party_lock s' u = party_lock s u"
  shows "locks_ok proc s'"
proof -
  have "u < 2 \<and> q = proc u \<and> holds_key (party_lock s' u) key" if "key_owner (kern (sys s')) (q, key) = Some u" for q key u
  proof (cases "u = t \<and> q = proc t \<and> holds_key (party_lock s' t) key")
    case False
    then have "key_owner (kern (sys s)) (q, key) = Some u" "\<not> (u = t \<and> q = proc t \<and> holds_key (party_lock s t) key)"
      using move that unfolding lock_move_def by blast+
    then show ?thesis
      using ok other [of u] unfolding locks_ok_def by metis
  qed (use t in simp)
  moreover have "\<exists>u < 2. q = proc u \<and> holds_record (party_lock s' u) i" if "record_locks (kern (sys s')) i = Some q" for q i
  proof (cases "q = proc t \<and> holds_record (party_lock s' t) i")
    case False
    then have "record_locks (kern (sys s)) i = Some q" "\<not> (q = proc t \<and> holds_record (party_lock s t) i)"
      using move that unfolding lock_move_def by blast+
    then show ?thesis
      using ok other unfolding locks_ok_def by metis
  qed (use t in blast)
  ultimately show ?thesis
    unfolding locks_ok_def by blast
qed

lemma locks_ok_fire:
  assumes ok: "locks_ok proc s" and run: "shm_fire E proc l s = Some s'"
  shows "locks_ok proc s'"
proof -
  obtain first fd where l: "l = (first, fd)"
    by (cases l)
  have "party_lock (s\<lparr>shm_fault := e\<rparr>) = party_lock s" for e
    by (rule ext) (simp add: party_lock_def)
  then have fault: "locks_ok proc (s\<lparr>shm_fault := e\<rparr>)" for e
    using ok by (simp add: locks_ok_def)
  show ?thesis
  proof (cases first)
    case True
    have "locks_ok proc (s\<lparr>creator := c, sys := y\<rparr>)" if "party_step E (proc 0) 0 fd (creator s) (sys s) = Some (Inr (c, y))" for c y
      by (rule locks_ok_move [OF ok, of 0]) (use party_step_lock_move [OF that] in \<open>simp_all add: party_lock_def\<close>)
    then show ?thesis
      using run fault unfolding l by (auto simp: True split: if_splits option.splits sum.splits)
  next
    case False
    have "locks_ok proc (s\<lparr>attacher := c, sys := y\<rparr>)" if "party_step E (proc 1) 1 fd (attacher s) (sys s) = Some (Inr (c, y))" for c y
      by (rule locks_ok_move [OF ok, of 1]) (use party_step_lock_move [OF that] in \<open>simp_all add: party_lock_def\<close>)
    then show ?thesis
      using run fault unfolding l by (auto simp: False split: if_splits option.splits sum.splits)
  qed
qed

interpretation locks_inv: machine_invariant "shm_fire E proc" "locks_ok proc" for E proc
  by unfold_locales (rule locks_ok_fire)

section \<open>Waiting\<close>

text \<open>A party that cannot move waits for a record lock of another process or for the mutex of its own.\<close>

definition waits_for :: "nat \<Rightarrow> kernel \<Rightarrow> lock_pc \<Rightarrow> bool" where
  "waits_for p k pc \<longleftrightarrow>
     (\<exists>key i q. pc = Opened key (Some i) \<and> record_locks k i = Some q \<and> q \<noteq> p) \<or>
     (\<exists>key fd u. pc = Locked key fd \<and> key_owner k (p, key) = Some u)"

lemma lock_run_waits:
  assumes "lock_run E p t pc y = None" "\<not> is_held pc" "\<forall>key. pc \<noteq> Released key"
  shows "waits_for p (kern y) pc"
  using assms
  by (cases pc)
    (auto simp: lock_run_def open_lock_file_def set_lock_wait_def mutex_lock_def waits_for_def split: option.splits if_splits)

lemma creator_waits:
  assumes none: "party_step E p t fd c y = None" and ok: "creator_todo c" "creator_stage K c" and more: "todo c \<noteq> []"
  shows "\<exists>pc. stage_lock (stage c) = Some pc \<and> waits_for p (kern y) pc"
proof -
  obtain op ops where ops: "todo c = op # ops"
    using more by (cases "todo c") auto
  have "(\<exists>w. op = Destroy w) \<or> op = CheckSize \<or> (\<exists>w. op = Create w)"
    using ok(1) ops by (auto simp: creator_todo_def)
  then obtain w where w: "op = Create w"
    using none ops by (auto simp: party_step_def)
  then have run: "create_shm E p t fd w c y = None"
    using none ops by (simp add: party_step_def)
  then obtain pc where "stage_lock (stage c) = Some pc" "lock_run E p t pc y = None" "\<not> is_held pc" "\<forall>key. pc \<noteq> Released key"
    using ok(2)
    by (cases "stage c")
      (auto simp: create_shm_def creator_stage_def Let_def split: lock_pc.splits option.splits sum.splits prod.splits if_splits)
  then show ?thesis
    using lock_run_waits by blast
qed

lemma attacher_waits:
  assumes none: "party_step E p t fd c y = None" and ok: "attacher_todo c" "attacher_stage K c" and more: "todo c \<noteq> []"
  shows "\<exists>pc. stage_lock (stage c) = Some pc \<and> waits_for p (kern y) pc"
proof -
  obtain op ops where ops: "todo c = op # ops"
    using more by (cases "todo c") auto
  have "op = CheckSize \<or> op = StartAttach \<or> (\<exists>w. op = Attach w)"
    using ok(1) ops by (auto simp: attacher_todo_def)
  then obtain w where w: "op = Attach w"
    using none ops by (auto simp: party_step_def)
  then have run: "attach_shm E p t fd w c y = None"
    using none ops by (simp add: party_step_def)
  then obtain pc where "stage_lock (stage c) = Some pc" "lock_run E p t pc y = None" "\<not> is_held pc" "\<forall>key. pc \<noteq> Released key"
    using ok(2)
    by (cases "stage c")
      (auto simp: attach_shm_def attacher_stage_def Let_def split: lock_pc.splits option.splits sum.splits prod.splits if_splits)
  then show ?thesis
    using lock_run_waits by blast
qed

text \<open>The two parties do not wait for each other, and none waits for itself.\<close>

lemma waits_one_way:
  assumes ok: "locks_ok proc s" and t: "t < 2" "u < 2" "u \<noteq> t"
    and wt: "party_lock s t = Some pc" "waits_for (proc t) (kern (sys s)) pc"
  shows "\<exists>pc'. party_lock s u = Some pc' \<and> \<not> waits_for (proc u) (kern (sys s)) pc'"
proof -
  have two: "v = t \<or> v = u" if "v < 2" for v
    using that t by linarith
  have mine: "\<not> holds_key (Some pc) key" "waits_for p k pc \<Longrightarrow> holds_record (Some pc) i \<Longrightarrow> \<exists>key fd. pc = Locked key fd" for key i p k
    using wt(2) by (auto simp: waits_for_def)
  obtain pc' where pc': "party_lock s u = Some pc'" "(\<exists>key. holds_key (Some pc') key) \<or> (\<exists>key fd. pc = Opened key fd) \<and> (\<exists>i. holds_record (Some pc') i)"
  proof -
    consider (recorded) key i q where "pc = Opened key (Some i)" "record_locks (kern (sys s)) i = Some q" "q \<noteq> proc t"
      | (mutex) key fd v where "pc = Locked key fd" "key_owner (kern (sys s)) (proc t, key) = Some v"
      using wt(2) by (auto simp: waits_for_def)
    then show thesis
    proof cases
      case recorded
      then obtain v where "v < 2" "q = proc v" "holds_record (party_lock s v) i"
        using locks_okD(2) [OF ok] by blast
      then have "holds_record (party_lock s u) i"
        using two [of v] recorded(3) by auto
      then show thesis
        using that recorded(1) by (cases "party_lock s u") auto
    next
      case mutex
      then have v: "v < 2" "holds_key (party_lock s v) key"
        using locks_okD(1) [OF ok] by blast+
      then have "holds_key (party_lock s u) key"
        using two [of v] mine(1) [of key] wt(1) by auto
      then show thesis
        using that by (cases "party_lock s u") auto
    qed
  qed
  have "\<not> waits_for (proc u) (kern (sys s)) pc'"
  proof
    assume w: "waits_for (proc u) (kern (sys s)) pc'"
    then have no_key: "\<not> holds_key (Some pc') key" for key
      by (auto simp: waits_for_def)
    then obtain key fd i where at: "pc = Opened key fd" "holds_record (Some pc') i"
      using pc'(2) by blast
    then obtain key' fd' v where "pc' = Locked key' fd'" "key_owner (kern (sys s)) (proc u, key') = Some v"
      using w by (auto simp: waits_for_def)
    then have "v < 2" "holds_key (party_lock s v) key'"
      using locks_okD(1) [OF ok] by blast+
    then show False
      using two [of v] at(1) no_key [of key'] wt(1) pc'(1) by auto
  qed
  then show ?thesis
    using pc'(1) by blast
qed

section \<open>The handshake ends\<close>

definition shm_rank :: "shm_world \<Rightarrow> nat" where
  "shm_rank s = party_rank (creator s) + party_rank (attacher s)"

definition handshake_over :: "shm_world \<Rightarrow> bool" where
  "handshake_over s \<longleftrightarrow> todo (creator s) = [] \<and> todo (attacher s) = []"

text \<open>A step of either party is progress, or it changes nothing: a poll in vain.\<close>

lemma fire_rank:
  assumes ok: "shm_ok E proc bs ecv K s" and inj: "inj K" and env: "env_ok E bs ecv" and run: "shm_fire E proc l s = Some s'"
  shows "s' = s \<or> shm_rank s' < shm_rank s"
proof -
  obtain first fd where l: "l = (first, fd)"
    by (cases l)
  show ?thesis
  proof (cases first)
    case True
    then obtain r where r: "party_step E (proc 0) 0 fd (creator s) (sys s) = Some r"
      using run l by (auto split: if_splits option.splits)
    then obtain c y where c: "r = Inr (c, y)"
      using creator_step_ok [OF ok inj env] by blast
    then have "s' = s\<lparr>creator := c, sys := y\<rparr>"
      using run l True r by (auto split: if_splits)
    then show ?thesis
      using party_step_rank [OF r [unfolded c]] by (auto simp: shm_rank_def)
  next
    case False
    then obtain r where r: "party_step E (proc 1) 1 fd (attacher s) (sys s) = Some r"
      using run l by (auto split: if_splits option.splits)
    then obtain c y where c: "r = Inr (c, y)"
      using attacher_step_ok [OF ok inj env] by blast
    then have "s' = s\<lparr>attacher := c, sys := y\<rparr>"
      using run l False r by (auto split: if_splits)
    then show ?thesis
      using party_step_rank [OF r [unfolded c]] by (auto simp: shm_rank_def)
  qed
qed

lemma creator_fire:
  assumes ok: "shm_ok E proc bs ecv K s" and inj: "inj K" and env: "env_ok E bs ecv"
    and run: "party_step E (proc 0) 0 0 (creator s) (sys s) = Some r"
  shows "\<exists>l s'. shm_fire E proc l s = Some s' \<and> shm_rank s' < shm_rank s"
proof -
  obtain c y where r: "r = Inr (c, y)"
    using creator_step_ok [OF ok inj env run] by blast
  have "\<not> polls_in_vain (creator s) (sys s)"
    using shm_okD(2) [OF ok] by (auto simp: polls_in_vain_def creator_todo_def)
  then have "party_rank c < party_rank (creator s)"
    using party_step_rank [OF run [unfolded r]] by blast
  then have "shm_fire E proc (True, 0) s = Some (s\<lparr>creator := c, sys := y\<rparr>)" "shm_rank (s\<lparr>creator := c, sys := y\<rparr>) < shm_rank s"
    using run r shm_okD(1) [OF ok] by (simp_all add: shm_rank_def)
  then show ?thesis
    by blast
qed

lemma attacher_fire:
  assumes ok: "shm_ok E proc bs ecv K s" and inj: "inj K" and env: "env_ok E bs ecv"
    and run: "party_step E (proc 1) 1 0 (attacher s) (sys s) = Some r" and finds: "\<not> polls_in_vain (attacher s) (sys s)"
  shows "\<exists>l s'. shm_fire E proc l s = Some s' \<and> shm_rank s' < shm_rank s"
proof -
  obtain c y where r: "r = Inr (c, y)"
    using attacher_step_ok [OF ok inj env run] by blast
  then have "party_rank c < party_rank (attacher s)"
    using party_step_rank [OF run [unfolded r]] finds by blast
  then have "shm_fire E proc (False, 0) s = Some (s\<lparr>attacher := c, sys := y\<rparr>)" "shm_rank (s\<lparr>attacher := c, sys := y\<rparr>) < shm_rank s"
    using run r shm_okD(1) [OF ok] by (simp_all add: shm_rank_def)
  then show ?thesis
    by blast
qed

text \<open>Once the creator is through, the name the attacher looks for is there.\<close>

lemma creator_through:
  assumes ok: "shm_ok E proc bs ecv K s" and through: "todo (creator s) = []"
  shows "stage (creator s) = Begin" "\<not> polls_in_vain (attacher s) (sys s)"
proof -
  note okD = shm_okD [OF ok]
  show "stage (creator s) = Begin"
    using okD(3) through by (auto simp: creator_stage_def split: stage.splits)
  have made: "\<exists>x. made (creator s) w = Made x" for w
    using okD(2) through by (cases w) (auto simp: creator_todo_def made_def)
  show "\<not> polls_in_vain (attacher s) (sys s)"
  proof
    assume "polls_in_vain (attacher s) (sys s)"
    then obtain w ops where at: "stage (attacher s) = Begin" "todo (attacher s) = Attach w # ops"
        "shm_names (sys s) (shm_name (chan (attacher s)) w) = None"
      by (auto simp: polls_in_vain_def)
    have "taken (attacher s) w = Polling"
      using taken_here [OF at(2) okD(5)] at(1) by simp
    moreover obtain x where "made (creator s) (flip w) = Made x"
      using made by blast
    moreover have "shm_name (chan (attacher s)) w = K (flip w)"
      using okD(7) by (simp add: same_channel_def)
    ultimately show False
      using ways_okD(1) [OF okD(8), of "flip w"] at(3) by simp
  qed
qed

lemma handshake_moves:
  assumes ok: "shm_ok E proc bs ecv K s" "locks_ok proc s" and inj: "inj K" and env: "env_ok E bs ecv"
    and more: "\<not> handshake_over s"
  shows "\<exists>l s'. shm_fire E proc l s = Some s' \<and> shm_rank s' < shm_rank s"
proof -
  note okD = shm_okD [OF ok(1)]
  note one_way = waits_one_way [OF ok(2)]
  show ?thesis
  proof (cases "todo (creator s) = []")
    case False
    show ?thesis
    proof (cases "party_step E (proc 0) 0 0 (creator s) (sys s)")
      case None
      obtain pc where "party_lock s 0 = Some pc" "waits_for (proc 0) (kern (sys s)) pc"
        using creator_waits [OF None okD(2,3) False] by (auto simp: party_lock_def)
      then obtain pc' where pc': "stage_lock (stage (attacher s)) = Some pc'" "\<not> waits_for (proc 1) (kern (sys s)) pc'"
        using one_way [of 0 1 pc] by (auto simp: party_lock_def)
      then have "todo (attacher s) \<noteq> []" "stage (attacher s) \<noteq> Begin"
        using okD(6) by (auto simp: attacher_stage_def split: stage.splits)
      then obtain r where "party_step E (proc 1) 1 0 (attacher s) (sys s) = Some r" "\<not> polls_in_vain (attacher s) (sys s)"
        using attacher_waits [OF _ okD(5,6), of E "proc 1" 1 0 "sys s"] pc' by (fastforce simp: polls_in_vain_def)
      then show ?thesis
        by (rule attacher_fire [OF ok(1) inj env])
    qed (rule creator_fire [OF ok(1) inj env])
  next
    case True
    note through = creator_through [OF ok(1) True]
    have more': "todo (attacher s) \<noteq> []"
      using more True by (simp add: handshake_over_def)
    show ?thesis
    proof (cases "party_step E (proc 1) 1 0 (attacher s) (sys s)")
      case None
      obtain pc where "party_lock s 1 = Some pc" "waits_for (proc 1) (kern (sys s)) pc"
        using attacher_waits [OF None okD(5,6) more'] by (auto simp: party_lock_def)
      then show ?thesis
        using one_way [of 1 0 pc] through(1) by (auto simp: party_lock_def)
    qed (rule attacher_fire [OF ok(1) inj env _ through(2)])
  qed
qed

lemma handshake_ends:
  assumes "inj K" "env_ok E bs ecv" "shm_ok E proc bs ecv K s" "locks_ok proc s"
  shows "\<exists>ls s'. run_actions (shm_fire E proc) ls s = Some s' \<and> handshake_over s' \<and> length ls \<le> shm_rank s"
  using assms(3,4)
proof (induction "shm_rank s" arbitrary: s rule: less_induct)
  case less
  show ?case
  proof (cases "handshake_over s")
    case True
    then have "run_actions (shm_fire E proc) [] s = Some s \<and> handshake_over s \<and> length ([] :: (bool \<times> int) list) \<le> shm_rank s"
      by simp
    then show ?thesis
      by blast
  next
    case False
    then obtain l s1 where fire: "shm_fire E proc l s = Some s1" "shm_rank s1 < shm_rank s"
      using handshake_moves [OF less.prems assms(1,2)] by blast
    have "shm_ok E proc bs ecv K s1" "locks_ok proc s1"
      using shm_inv.kept [OF _ fire(1)] locks_ok_fire [OF less.prems(2) fire(1)] assms(1,2) less.prems(1) by blast+
    then obtain ls s' where "run_actions (shm_fire E proc) ls s1 = Some s'" "handshake_over s'" "length ls \<le> shm_rank s1"
      using less.hyps [OF fire(2)] by blast
    then have "run_actions (shm_fire E proc) (l # ls) s = Some s' \<and> handshake_over s' \<and> length (l # ls) \<le> shm_rank s"
      using fire by simp
    then show ?thesis
      by blast
  qed
qed

lemma locks_ok_start:
  assumes "\<forall>k. key_owner (kern y) k = None" "\<forall>i. record_locks (kern y) i = None"
  shows "locks_ok proc (handshake_start a b taskid ecv bs y)"
  using assms by (simp add: locks_ok_def handshake_start_def)

lemma rank_start:
  assumes "a < b"
  shows "shm_rank (handshake_start a b taskid ecv bs y) = 178"
proof -
  have todos: "todo (MemChannel a b taskid ecv bs) = [Destroy Outgoing, Destroy Incoming, Create Outgoing, Create Incoming, CheckSize]"
      "todo (MemChannel b a taskid ecv bs) = [CheckSize]"
    using assms unfolding MemChannel_def Let_def by auto
  then show ?thesis
    by (simp add: shm_rank_def party_rank_def handshake_start_def attach_def MemChannel_chan(9))
qed

text \<open>The steps of a run that change something.\<close>

fun moves_made :: "('l \<Rightarrow> 's \<Rightarrow> 's option) \<Rightarrow> 'l list \<Rightarrow> 's \<Rightarrow> nat" where
  "moves_made fire [] s = 0"
| "moves_made fire (l # ls) s = (case fire l s of None \<Rightarrow> 0 | Some s' \<Rightarrow> (if s' = s then 0 else 1) + moves_made fire ls s')"

lemma moves_bound:
  assumes "inj K" "env_ok E bs ecv"
  shows "shm_ok E proc bs ecv K s \<Longrightarrow> run_actions (shm_fire E proc) ls s = Some s' \<Longrightarrow>
    moves_made (shm_fire E proc) ls s + shm_rank s' \<le> shm_rank s"
proof (induction ls arbitrary: s)
  case (Cons l ls)
  then obtain s1 where fire: "shm_fire E proc l s = Some s1" "run_actions (shm_fire E proc) ls s1 = Some s'"
    by (auto split: option.splits)
  have "shm_ok E proc bs ecv K s1"
    using shm_inv.kept [OF _ fire(1)] assms Cons.prems(1) by blast
  then have "moves_made (shm_fire E proc) ls s1 + shm_rank s' \<le> shm_rank s1"
    using Cons.IH fire(2) by blast
  then show ?case
    using fire_rank [OF Cons.prems(1) assms fire(1)] fire(1) by auto
qed simp

text \<open>
  C8: The handshake cannot get stuck. Whatever the two parties have done so far, at whatever interleaving, as threads of one
  process or in two, they have changed something in at most 178 system calls, and what they still have to do can be
  done: in no more calls than are left of the 178 both are through. No party waits for a lock that is not given back.
\<close>
theorem shm_handshake_progress:
  assumes "a < b" "env_ok E bs ecv" "shm_names y (get_shm_key a b taskid) = None" "shm_names y (get_shm_key b a taskid) = None"
    and "\<forall>k. key_owner (kern y) k = None" "\<forall>i. record_locks (kern y) i = None"
    and "run_actions (shm_fire E proc) ls (handshake_start a b taskid ecv bs y) = Some s"
  shows "\<exists>more s'. run_actions (shm_fire E proc) more s = Some s' \<and> todo (creator s') = [] \<and> todo (attacher s') = [] \<and>
    moves_made (shm_fire E proc) ls (handshake_start a b taskid ecv bs y) + length more \<le> 178"
proof -
  let ?s0 = "handshake_start a b taskid ecv bs y" and ?K = "shm_name (chan (MemChannel a b taskid ecv bs))"
  note start = handshake_start_ok [OF assms(1-4)]
  have ok: "shm_ok E proc bs ecv ?K s"
    by (rule handshake_ok [OF assms(1-4) run_reach [OF assms(7)]])
  have locks: "locks_ok proc s"
    by (rule locks_inv.always_run [OF assms(7) locks_ok_start [OF assms(5,6)]])
  obtain more s' where more: "run_actions (shm_fire E proc) more s = Some s'" "handshake_over s'" "length more \<le> shm_rank s"
    using handshake_ends [OF start(1) assms(2) ok locks] by blast
  have "moves_made (shm_fire E proc) ls ?s0 + shm_rank s \<le> 178"
    using moves_bound [OF start(1) assms(2) start(2) assms(7)] unfolding rank_start [OF assms(1)] .
  then have "moves_made (shm_fire E proc) ls ?s0 + length more \<le> 178"
    using more(3) by linarith
  then show ?thesis
    using more(1,2) unfolding handshake_over_def by blast
qed

text \<open>The attacher waits for the lock while the creator is inside.\<close>

theorem shm_handshake_progress_witness:
  "\<exists>s more s'. run_actions (shm_fire demo_env id) (take 23 demo_handshake) (handshake_start 1 2 ''t'' True 8 empty_system) = Some s \<and>
    shm_fire demo_env id (False, 9) s = None \<and> run_actions (shm_fire demo_env id) more s = Some s' \<and>
    todo (creator s') = [] \<and> todo (attacher s') = [] \<and> length more \<le> 178"
proof -
  let ?s0 = "handshake_start 1 2 ''t'' True 8 empty_system"
  have "map_option (\<lambda>s. shm_fire demo_env id (False, 9) s = None) (run_actions (shm_fire demo_env id) (take 23 demo_handshake) ?s0) = Some True"
    by code_simp
  then obtain s where s: "run_actions (shm_fire demo_env id) (take 23 demo_handshake) ?s0 = Some s" "shm_fire demo_env id (False, 9) s = None"
    by (rule run_part) simp
  have "(1 :: u32) < 2" "shm_names empty_system k = None" "\<forall>k. key_owner (kern empty_system) k = None"
      "\<forall>i. record_locks (kern empty_system) i = None" for k
    by (simp_all add: empty_system_def boot_def)
  from shm_handshake_progress [OF this(1) demo_env_ok this(2,2,3,4) s(1)]
  obtain more s' where "run_actions (shm_fire demo_env id) more s = Some s'" "todo (creator s') = []" "todo (attacher s') = []" "length more \<le> 178"
    using add_leD2 by blast
  then show ?thesis
    using s by blast
qed

end
