(* ===== verification/TearDown.thy ===== *)
theory TearDown imports ShmLifecycle begin

text \<open>
  The destructor of \<^verbatim>\<open>MemChannel\<close> (\<^verbatim>\<open>src/src/memchannel.cpp\<close>): what it gives back after a handshake, and what becomes of
  the other party when it runs before the handshake is over.
\<close>

section \<open>After the handshake\<close>

text \<open>What an operation of the destructor gives back.\<close>

fun frees :: "mem_channel \<Rightarrow> shm_op \<Rightarrow> nat list" where
  "frees c (Unmap b) = [the (m_send_buf c), the (m_recv_buf c)]"
| "frees c _ = []"

fun closes :: "mem_channel \<Rightarrow> shm_op \<Rightarrow> int list" where
  "closes c (CloseFd w) = (if fd_of w c \<noteq> -1 then [fd_of w c] else [])"
| "closes c _ = []"

definition tearing :: "party \<Rightarrow> party \<Rightarrow> bool" where
  "tearing c0 c \<longleftrightarrow>
     chan c = chan c0 \<and>
     (\<exists>ops. todo (delete_MemChannel c0) = ops @ todo c \<and> unmapped c = unmapped c0 @ concat (map (frees (chan c0)) ops) \<and>
        closed c = closed c0 @ concat (map (closes (chan c0)) ops)) \<and>
     (stage c = Begin \<or> stage c = DetachUnlink \<and> (\<exists>w ops. todo c = Detach w # ops))"

definition connected :: "party \<Rightarrow> bool" where
  "connected c \<longleftrightarrow> todo c = [] \<and> stage c = Begin \<and> m_send_buf (chan c) \<noteq> None \<and> m_recv_buf (chan c) \<noteq> None"

lemma tearing_start: "connected c \<Longrightarrow> tearing c (delete_MemChannel c)"
  by (auto simp: tearing_def connected_def delete_MemChannel_def intro!: exI [of _ "[]"])

lemma tearing_next:
  assumes "tearing c0 c" "todo c = op # ops" "chan c' = chan c" "stage c' = Begin" "todo c' = ops"
    "unmapped c' = unmapped c @ frees (chan c) op" "closed c' = closed c @ closes (chan c) op"
  shows "tearing c0 c'"
proof -
  obtain past where d: "todo (delete_MemChannel c0) = past @ todo c" "unmapped c = unmapped c0 @ concat (map (frees (chan c0)) past)"
      "closed c = closed c0 @ concat (map (closes (chan c0)) past)" and chan: "chan c = chan c0"
    using assms(1) by (auto simp: tearing_def)
  then show ?thesis
    unfolding tearing_def using assms(2-) by (intro conjI exI [of _ "past @ [op]"]) simp_all
qed

lemma tearing_ops:
  assumes "tearing c0 c" "connected c0" "todo c = op # ops"
  shows "(\<exists>w. op = Detach w) \<or> (\<exists>b. op = Unmap b) \<or> (\<exists>w. op = CloseFd w)"
proof -
  have "op \<in> set (todo (delete_MemChannel c0))"
    using assms(1,3) by (auto simp: tearing_def)
  then show ?thesis
    using assms(2) by (auto simp: delete_MemChannel_def connected_def split: if_splits)
qed

lemma tearing_step:
  assumes t: "tearing c0 c" and con: "connected c0" and run: "party_step E p tid fd c y = Some r"
  shows "\<exists>c' y'. r = Inr (c', y') \<and> tearing c0 c'"
proof -
  have chan: "chan c = chan c0"
    using t by (simp add: tearing_def)
  obtain op ops where ops: "todo c = op # ops"
    using run by (cases "todo c") (auto simp: party_step_def)
  have moved: "tearing c0 c'" if "c' = c\<lparr>todo := ops, stage := Begin, unmapped := unmapped c @ frees (chan c) op,
      closed := closed c @ closes (chan c) op\<rparr>" for c'
    by (rule tearing_next [OF t ops]) (simp_all add: that)
  have view: "\<exists>x. view_of w (chan c) = Some x" for w
    using con chan by (cases w) (auto simp: connected_def)
  consider (detach) w where "op = Detach w" | (unmap) b where "op = Unmap b" | (close) w where "op = CloseFd w"
    using tearing_ops [OF t con ops] by blast
  then show ?thesis
  proof cases
    case detach
    show ?thesis
    proof (cases "stage c")
      case Begin
      obtain x where x: "view_of w (chan c) = Some x"
        using view by blast
      have "tearing c0 (c\<lparr>stage := DetachUnlink\<rparr>)"
        using t ops detach by (auto simp: tearing_def)
      moreover have "tearing c0 (c\<lparr>todo := ops\<rparr>)"
        by (rule moved) (simp add: detach Begin [symmetric])
      ultimately show ?thesis
        using run ops detach Begin x by (auto simp: party_step_def detach_shm_def Let_def split: if_splits)
    next
      case DetachUnlink
      have "tearing c0 (c\<lparr>todo := ops, stage := Begin\<rparr>)"
        by (rule moved) (simp add: detach)
      then show ?thesis
        using run ops detach DetachUnlink by (auto simp: party_step_def detach_shm_def)
    qed (use t in \<open>auto simp: tearing_def\<close>)
  next
    case unmap
    then have rest: "stage c = Begin"
      using t ops by (auto simp: tearing_def)
    obtain x z where xz: "m_send_buf (chan c) = Some x" "m_recv_buf (chan c) = Some z"
      using con chan by (auto simp: connected_def)
    have "tearing c0 (c\<lparr>unmapped := unmapped c @ [x, z], todo := ops\<rparr>)"
      by (rule moved) (simp add: unmap xz rest [symmetric])
    then show ?thesis
      using run ops unmap xz by (auto simp: party_step_def unmap_views_def)
  next
    case close
    then have rest: "stage c = Begin"
      using t ops by (auto simp: tearing_def)
    have "tearing c0 (close_fd w c)"
      by (rule moved) (simp add: close close_fd_def ops rest [symmetric])
    then show ?thesis
      using run ops close by (auto simp: party_step_def)
  qed
qed

interpretation tear_inv: machine_invariant "shm_fire E proc"
    "\<lambda>s. connected c0 \<and> connected d0 \<and> shm_fault s = None \<and> tearing c0 (creator s) \<and> tearing d0 (attacher s)" for E proc c0 d0
proof
  fix s s' l
  assume inv: "connected c0 \<and> connected d0 \<and> shm_fault s = None \<and> tearing c0 (creator s) \<and> tearing d0 (attacher s)"
    and run: "shm_fire E proc l s = Some s'"
  obtain first fd where l: "l = (first, fd)"
    by (cases l)
  show "connected c0 \<and> connected d0 \<and> shm_fault s' = None \<and> tearing c0 (creator s') \<and> tearing d0 (attacher s')"
    using run inv tearing_step [of c0 "creator s" E "proc 0" 0 fd "sys s"] tearing_step [of d0 "attacher s" E "proc 1" 1 fd "sys s"]
    unfolding l by (cases first) (auto split: option.splits sum.splits)
qed

lemma torn_down:
  assumes "tearing c0 c" "connected c0" "todo c = []"
  shows "unmapped c = unmapped c0 @ [the (m_send_buf (chan c0)), the (m_recv_buf (chan c0))]"
    "closed c = closed c0 @ filter (\<lambda>fd. fd \<noteq> -1) [m_send_fd (chan c0), m_recv_fd (chan c0)]"
  using assms by (auto simp: tearing_def connected_def delete_MemChannel_def split: if_splits)

lemma handshake_connected:
  assumes ok: "shm_ok E proc bs ecv K s" and "todo (creator s) = []" "todo (attacher s) = []"
  shows "connected (creator s)" "connected (attacher s)"
proof -
  note okD = shm_okD [OF ok]
  have "stage (creator s) = Begin" "stage (attacher s) = Begin"
    using okD(3,6) assms(2,3) by (auto simp: creator_stage_def attacher_stage_def split: stage.splits)
  then show "connected (creator s)" "connected (attacher s)"
    using okD(2,5) assms(2,3) by (auto simp: connected_def creator_todo_def attacher_todo_def)
qed

text \<open>
  C19: After the handshake the two destructors end without a fault, however their steps interleave, and each gives back
  its two views and its two descriptors, once.
\<close>
theorem mem_channel_releases:
  assumes "a < b" "env_ok E bs ecv" "shm_names y (get_shm_key a b taskid) = None" "shm_names y (get_shm_key b a taskid) = None"
    and "reach (shm_fire E proc) (handshake_start a b taskid ecv bs y) s" "todo (creator s) = []" "todo (attacher s) = []"
    and "reach (shm_fire E proc) (s\<lparr>creator := delete_MemChannel (creator s), attacher := delete_MemChannel (attacher s)\<rparr>) s'"
  shows "shm_fault s' = None \<and>
    (\<forall>(c, c') \<in> {(creator s, creator s'), (attacher s, attacher s')}. todo c' = [] \<longrightarrow>
      unmapped c' = unmapped c @ [the (m_send_buf (chan c)), the (m_recv_buf (chan c))] \<and>
      closed c' = closed c @ filter (\<lambda>fd. fd \<noteq> -1) [m_send_fd (chan c), m_recv_fd (chan c)])"
proof -
  note ok = handshake_ok [OF assms(1-5)]
  note con = handshake_connected [OF ok assms(6,7)]
  have "connected (creator s) \<and> connected (attacher s) \<and> shm_fault s' = None \<and> tearing (creator s) (creator s') \<and>
      tearing (attacher s) (attacher s')"
    by (rule tear_inv.always [OF assms(8)]) (simp add: con tearing_start shm_okD(1) [OF ok])
  then show ?thesis
    using torn_down [of "creator s" "creator s'"] torn_down [of "attacher s" "attacher s'"] by blast
qed

text \<open>The handshake of theory \<^verbatim>\<open>ShmLifecycle\<close>, then both destructors, a step each in turn.\<close>

definition demo_release :: "(bool \<times> int) list" where
  "demo_release = [(True, 0), (False, 0), (True, 0), (False, 0), (True, 0), (False, 0), (True, 0), (True, 0)]"

definition demo_life :: "(shm_world \<times> shm_world) option" where
  "demo_life =
     Option.bind (run_actions (shm_fire demo_env id) demo_handshake (handshake_start 1 2 ''t'' True 8 empty_system))
       (\<lambda>s. map_option (Pair s) (run_actions (shm_fire demo_env id) demo_release
          (s\<lparr>creator := delete_MemChannel (creator s), attacher := delete_MemChannel (attacher s)\<rparr>)))"

theorem mem_channel_releases_witness:
  "\<exists>s s'. demo_life = Some (s, s') \<and> unmapped (creator s') = unmapped (creator s) @ [0, 1] \<and> closed (creator s') = closed (creator s) @ [6, 8]"
proof -
  have "map_option (\<lambda>(s, s'). (todo (creator s), todo (attacher s), todo (creator s'), m_send_buf (chan (creator s)), m_recv_buf (chan (creator s)),
      m_send_fd (chan (creator s)), m_recv_fd (chan (creator s)))) demo_life = Some ([], [], [], Some 0, Some 1, 6, 8)"
    by code_simp
  then obtain s s' where ss: "demo_life = Some (s, s')" "todo (creator s) = []" "todo (attacher s) = []" "todo (creator s') = []"
      "m_send_buf (chan (creator s)) = Some 0" "m_recv_buf (chan (creator s)) = Some 1" "m_send_fd (chan (creator s)) = 6" "m_recv_fd (chan (creator s)) = 8"
    by auto
  then have s: "run_actions (shm_fire demo_env id) demo_handshake (handshake_start 1 2 ''t'' True 8 empty_system) = Some s"
    and s': "run_actions (shm_fire demo_env id) demo_release
      (s\<lparr>creator := delete_MemChannel (creator s), attacher := delete_MemChannel (attacher s)\<rparr>) = Some s'"
    by (auto simp: demo_life_def split: bind_splits)
  have start: "(1 :: u32) < 2" "shm_names empty_system k = None" for k
    by (simp_all add: empty_system_def)
  from mem_channel_releases [OF start(1) demo_env_ok start(2,2) run_reach [OF s] ss(2,3) run_reach [OF s']] show ?thesis
    using ss by (intro exI [of _ s] exI [of _ s']) simp
qed

section \<open>Before the handshake\<close>

text \<open>A creator that is destroyed as soon as it is made.\<close>

definition destroyed_early :: "u32 \<Rightarrow> u32 \<Rightarrow> string \<Rightarrow> bool \<Rightarrow> i32 \<Rightarrow> system \<Rightarrow> shm_world" where
  "destroyed_early a b taskid ecv bs y =
     (handshake_start a b taskid ecv bs y)\<lparr>creator := delete_MemChannel (MemChannel a b taskid ecv bs)\<rparr>"

text \<open>The attacher polls for a name that is not there, and nobody is left to create it.\<close>

definition stranded :: "way \<Rightarrow> shm_world \<Rightarrow> bool" where
  "stranded w s \<longleftrightarrow>
     todo (creator s) = [] \<and> stage (attacher s) = Begin \<and> take 1 (todo (attacher s)) = [Attach w] \<and>
     shm_names (sys s) (shm_name (chan (attacher s)) w) = None"

lemma stranded_stays:
  assumes "stranded w s" "shm_fire E proc l s = Some s'"
  shows "s' = s"
proof -
  obtain first fd where l: "l = (first, fd)"
    by (cases l)
  obtain ops where ops: "todo (attacher s) = Attach w # ops"
    using assms(1) by (cases "todo (attacher s)") (auto simp: stranded_def)
  have "party_step E p t fd (creator s) y = None" for p t y
    using assms(1) by (simp add: stranded_def party_step_def)
  moreover have "party_step E p t fd (attacher s) (sys s) = Some (Inr (attacher s, sys s))" for p t
    using assms(1) ops by (simp add: stranded_def party_step_def attach_shm_def)
  ultimately show ?thesis
    using assms(2) unfolding l by (cases first) (simp_all split: if_splits)
qed

interpretation strand_inv: machine_invariant "shm_fire E proc" "\<lambda>s'. s' = s \<and> stranded w s" for E proc s w
  using stranded_stays by unfold_locales blast

text \<open>
  A creator that is destroyed before the other party has looked for the segments unlinks them, with all that it has
  sent: the other party then polls for a name that does not come, and \<^verbatim>\<open>attach\<close> never returns.
\<close>
lemma early_delete_strands:
  assumes "stranded w s" "reach (shm_fire E proc) s s'"
  shows "s' = s \<and> todo (attacher s') \<noteq> []"
proof -
  have "s' = s \<and> stranded w s"
    by (rule strand_inv.always [OF assms(2)]) (simp add: assms(1))
  then show ?thesis
    by (auto simp: stranded_def)
qed

lemma early_delete_strands_witness:
  "\<exists>s. reach (shm_fire demo_env id) (destroyed_early 1 2 ''t'' True 8 empty_system) s \<and> shm_fault s = None \<and>
    (\<forall>s'. reach (shm_fire demo_env id) s s' \<longrightarrow> s' = s \<and> todo (attacher s') \<noteq> [])"
proof -
  have "map_option (\<lambda>s. (shm_fault s, stranded Outgoing s)) (run_actions (shm_fire demo_env id) (replicate 30 (True, 6) @ replicate 3 (False, 5))
      (destroyed_early 1 2 ''t'' True 8 empty_system)) = Some (None, True)"
    by code_simp
  then obtain s where s: "reach (shm_fire demo_env id) (destroyed_early 1 2 ''t'' True 8 empty_system) s"
      "(shm_fault s, stranded Outgoing s) = (None, True)"
    by (rule run_part)
  then show ?thesis
    using early_delete_strands [of Outgoing s demo_env id] by (intro exI [of _ s]) simp
qed

text \<open>
  If the other party has opened the segment and not yet counted itself, it finds the count raised by the destructor
  and its assertion fails.
\<close>

lemma early_delete_aborts:
  "\<exists>s. reach (shm_fire demo_env id) (destroyed_early 1 2 ''t'' True 8 empty_system) s \<and> shm_fault s = Some AssertFailed \<and>
    todo (creator s) = []"
proof -
  have "map_option (\<lambda>s. (shm_fault s, todo (creator s))) (run_actions (shm_fire demo_env id)
      (replicate 23 (True, 6) @ replicate 3 (False, 5) @ replicate 7 (True, 6) @ replicate 4 (False, 5))
      (destroyed_early 1 2 ''t'' True 8 empty_system)) = Some (Some AssertFailed, [])"
    by code_simp
  then show ?thesis
    by (rule run_part) auto
qed

end
