(* ===== verification/RingCalls.thy ===== *)
theory RingCalls imports SharedMemoryView begin

text \<open>
  The ring as a type: whatever calls its two parties make on it, a view that \<^verbatim>\<open>init\<close> has made stays well-formed,
  and no call reads or writes outside the ring or the caller's memory.
\<close>

section \<open>Sequences of calls\<close>

text \<open>
  The calls of struct \<^verbatim>\<open>SharedMemoryView\<close> with the caller's memory, the position and the length. A guarded call whose
  guard fails leaves the view as it is; of a call that takes bytes out, those are the first component of the result.
\<close>

datatype ring_call = PutCall bytes nat u32 | GetCall bytes nat u32 | WriteCall bytes nat u32 | ReadCall bytes nat u32

fun make_call :: "ring_call \<Rightarrow> shm_view \<Rightarrow> fault + bytes \<times> shm_view" where
  "make_call (PutCall src pos len) v = (case put v src pos len of Inl e \<Rightarrow> Inl e | Inr v' \<Rightarrow> Inr ([], v'))"
| "make_call (GetCall dst pos len) v =
     (case get v dst pos len of Inl e \<Rightarrow> Inl e | Inr (d, v') \<Rightarrow> Inr (take (used v - used v') (drop pos d), v'))"
| "make_call (WriteCall src pos len) v =
     (case write_view v src pos len of Inl e \<Rightarrow> Inl e | Inr None \<Rightarrow> Inr ([], v) | Inr (Some v') \<Rightarrow> Inr ([], v'))"
| "make_call (ReadCall dst pos len) v =
     (case read_view v dst pos len of
        Inl e \<Rightarrow> Inl e
      | Inr None \<Rightarrow> Inr ([], v)
      | Inr (Some (d, v')) \<Rightarrow> Inr (take (unat len) (drop pos d), v'))"

fun ring_calls :: "ring_call list \<Rightarrow> shm_view \<Rightarrow> fault + bytes \<times> shm_view" where
  "ring_calls [] v = Inr ([], v)"
| "ring_calls (c # cs) v =
     (case make_call c v of
        Inl e \<Rightarrow> Inl e
      | Inr (out, v') \<Rightarrow> (case ring_calls cs v' of Inl e \<Rightarrow> Inl e | Inr (outs, v'') \<Rightarrow> Inr (out @ outs, v'')))"

text \<open>The caller's memory is as long as the caller says.\<close>

fun in_range :: "ring_call \<Rightarrow> bool" where
  "in_range (PutCall src pos len) \<longleftrightarrow> pos + unat len \<le> length src"
| "in_range (GetCall dst pos len) \<longleftrightarrow> pos + unat len \<le> length dst"
| "in_range (WriteCall src pos len) \<longleftrightarrow> pos + unat len \<le> length src"
| "in_range (ReadCall dst pos len) \<longleftrightarrow> pos + unat len \<le> length dst"

text \<open>The bytes a call offers to the ring.\<close>

fun offered :: "ring_call \<Rightarrow> bytes" where
  "offered (PutCall src pos len) = take (unat len) (drop pos src)"
| "offered (WriteCall src pos len) = take (unat len) (drop pos src)"
| "offered c = []"

definition same_setup :: "shm_view \<Rightarrow> shm_view \<Rightarrow> bool" where
  "same_setup v v' \<longleftrightarrow> buf_size v' = buf_size v \<and> enable_cv v' = enable_cv v \<and> client_attached v' = client_attached v"

section \<open>Each call keeps the type\<close>

lemma put_keeps:
  assumes "ring_ok v" "pos + unat len \<le> length src"
  shows "\<exists>v' n. put v src pos len = Inr v' \<and> ring_ok v' \<and> same_setup v v' \<and> n \<le> unat len \<and>
    contents v' = contents v @ take n (drop pos src)"
proof -
  let ?n = "min (unat len) (unat (buf_size v) - used v)"
  have "pos + ?n \<le> length src"
    using assms(2) by simp
  then obtain v' where v': "put v src pos len = Inr v'" "ring_ok v'" "contents v' = contents v @ take ?n (drop pos src)"
      "v' = v\<lparr>buffer := buffer v', ring_in := ring_in v + of_nat ?n\<rparr>"
    using put_refines [OF assms(1) refl] by blast
  from v'(4) have "same_setup v v'"
    unfolding same_setup_def by (metis shm_view.select_convs(1-3) shm_view.surjective shm_view.update_convs(4,6))
  then show ?thesis
    using v'(1-3) by (metis min.cobounded1)
qed

lemma get_keeps:
  assumes "ring_ok v" "pos + unat len \<le> length dst"
  shows "\<exists>v' n. get v dst pos len = Inr (take pos dst @ take n (contents v) @ drop (pos + n) dst, v') \<and> ring_ok v' \<and>
    same_setup v v' \<and> n = min (unat len) (used v) \<and> contents v' = drop n (contents v)"
proof -
  let ?n = "min (unat len) (used v)"
  have "pos + ?n \<le> length dst"
    using assms(2) by simp
  then obtain v' where v': "get v dst pos len = Inr (take pos dst @ take ?n (contents v) @ drop (pos + ?n) dst, v')"
      "ring_ok v'" "contents v' = drop ?n (contents v)" "v' = v\<lparr>ring_out := ring_out v + of_nat ?n\<rparr>"
    using get_refines [OF assms(1) refl] by blast
  from v'(4) have "same_setup v v'"
    by (simp add: same_setup_def)
  then show ?thesis
    using v'(1-3) by blast
qed

lemma taken_part: "pos \<le> length dst \<Longrightarrow> n \<le> length xs \<Longrightarrow> take n (drop pos (take pos dst @ take n xs @ ys)) = take n xs"
  by simp

lemma get_out:
  assumes "ring_ok v" "pos + unat len \<le> length dst"
  shows "\<exists>out v'. get v dst pos len = Inr (out, v') \<and> ring_ok v' \<and> same_setup v v' \<and>
    take (min (unat len) (used v)) (drop pos out) @ contents v' = contents v \<and> used v - used v' = min (unat len) (used v)"
proof -
  obtain v' n where get: "get v dst pos len = Inr (take pos dst @ take n (contents v) @ drop (pos + n) dst, v')" "ring_ok v'"
      "same_setup v v'" "n = min (unat len) (used v)" "contents v' = drop n (contents v)"
    using get_keeps [OF assms] by blast
  have n: "n \<le> length (contents v)" "pos \<le> length dst"
    using get(4) assms(2) by simp_all
  have "take n (drop pos (take pos dst @ take n (contents v) @ drop (pos + n) dst)) @ contents v' = contents v"
    unfolding taken_part [OF n(2,1)] get(5) by simp
  moreover have "used v' = used v - n"
    using arg_cong [OF get(5), of length] by simp
  then have "used v - used v' = n"
    using n(1) by simp
  ultimately show ?thesis
    using get(1-3) unfolding get(4) by blast
qed

lemma make_call_ok:
  assumes ok: "ring_ok v" and range: "in_range c"
  shows "\<exists>out v' n. make_call c v = Inr (out, v') \<and> ring_ok v' \<and> same_setup v v' \<and>
    out @ contents v' = contents v @ take n (offered c)"
proof (cases c)
  case (PutCall src pos len)
  then show ?thesis
    using put_keeps [OF ok, of pos len src] range by (fastforce simp: min_def)
next
  case (WriteCall src pos len)
  have same: "same_setup v v"
    by (simp add: same_setup_def)
  show ?thesis
  proof (cases "can_put v len")
    case True
    then show ?thesis
      using put_keeps [OF ok, of pos len src] range WriteCall by (fastforce simp: min_def write_view_def)
  next
    case False
    then have "make_call c v = Inr ([], v) \<and> [] @ contents v = contents v @ take 0 (offered c)"
      using WriteCall by (simp add: write_view_def)
    then show ?thesis
      using ok same by blast
  qed
next
  case (GetCall dst pos len)
  obtain d v' where "get v dst pos len = Inr (d, v')" "ring_ok v'" "same_setup v v'"
      "take (min (unat len) (used v)) (drop pos d) @ contents v' = contents v" "used v - used v' = min (unat len) (used v)"
    using get_out [OF ok, of pos len dst] range GetCall by auto
  then show ?thesis
    using GetCall by simp
next
  case (ReadCall dst pos len)
  have same: "same_setup v v"
    by (simp add: same_setup_def)
  obtain d v' where get: "get v dst pos len = Inr (d, v')" "ring_ok v'" "same_setup v v'"
      "take (min (unat len) (used v)) (drop pos d) @ contents v' = contents v"
    using get_out [OF ok, of pos len dst] range ReadCall by auto
  show ?thesis
  proof (cases "unat len \<le> used v")
    case True
    then have "can_get v len" "min (unat len) (used v) = unat len"
      by (simp_all add: can_get_def used_def word_le_nat_alt)
    then show ?thesis
      using get ReadCall by (simp add: read_view_def)
  next
    case False
    then have "read_view v dst pos len = Inr None"
      by (simp add: read_view_wait)
    then show ?thesis
      using ok same ReadCall by auto
  qed
qed

text \<open>Of the bytes offered one after the other, each call a prefix.\<close>

fun accepts :: "ring_call list \<Rightarrow> bytes \<Rightarrow> bool" where
  "accepts [] bs \<longleftrightarrow> bs = []"
| "accepts (c # cs) bs \<longleftrightarrow> (\<exists>n \<le> length (offered c). \<exists>rest. bs = take n (offered c) @ rest \<and> accepts cs rest)"

lemma ring_calls_ok:
  "ring_ok v \<Longrightarrow> list_all in_range cs \<Longrightarrow> \<exists>out v' bs. ring_calls cs v = Inr (out, v') \<and> ring_ok v' \<and> same_setup v v' \<and>
    accepts cs bs \<and> out @ contents v' = contents v @ bs"
proof (induction cs arbitrary: v)
  case Nil
  then show ?case
    by (simp add: same_setup_def)
next
  case (Cons c cs)
  then obtain out v1 n where one: "make_call c v = Inr (out, v1)" "ring_ok v1" "same_setup v v1"
      "out @ contents v1 = contents v @ take n (offered c)"
    using make_call_ok [of v c] by auto
  then obtain outs v' bs where rest: "ring_calls cs v1 = Inr (outs, v')" "ring_ok v'" "same_setup v1 v'" "accepts cs bs"
      "outs @ contents v' = contents v1 @ bs"
    using Cons by fastforce
  have "(out @ outs) @ contents v' = contents v @ take n (offered c) @ bs"
    using one(4) rest(5) by (metis append.assoc)
  moreover have "take n (offered c) = take (min n (length (offered c))) (offered c)"
    by (simp add: min_def)
  then have "accepts (c # cs) (take n (offered c) @ bs)"
    unfolding accepts.simps using rest(4) min.cobounded2 by blast
  moreover have "same_setup v v'"
    using one(3) rest(3) by (simp add: same_setup_def)
  ultimately show ?case
    using one(1) rest(1,2) by auto
qed

section \<open>The property\<close>

text \<open>
  C40: A ring that \<^verbatim>\<open>init\<close> has set up in a mapping of its size keeps its type under every sequence of calls of \<^verbatim>\<open>put\<close>,
  \<^verbatim>\<open>get\<close>, \<^verbatim>\<open>write\<close> and \<^verbatim>\<open>read\<close> with lengths of any size: no call copies out of bounds, the size and the flag stay as set up,
  never more than the size is in transit, however often the counters wrap; and what has come out, followed by
  what is still in transit, is what the calls were offered, of each call a prefix.
\<close>
theorem ring_well_formed:
  assumes "pow2 n" "length (buffer v) = unat n" "list_all (\<lambda>i. pthread_rc i = 0) [0, 1, 2, 3, 4, 5, 6, 7]"
    and "list_all in_range cs" "init_view pthread_rc v n cv = Inr v0"
  shows "\<exists>out v' bs. ring_calls cs v0 = Inr (out, v') \<and> ring_ok v' \<and> buf_size v' = n \<and> enable_cv v' = cv \<and>
    length (contents v') \<le> unat n \<and> accepts cs bs \<and> out @ contents v' = bs"
proof -
  have v0: "ring_ok v0" "contents v0 = []" "buf_size v0 = n" "enable_cv v0 = cv"
    using init_view_empty [OF assms(1-3), of cv] assms(5) by auto
  obtain out v' bs where run: "ring_calls cs v0 = Inr (out, v')" "ring_ok v'" "same_setup v0 v'" "accepts cs bs" "out @ contents v' = bs"
    using ring_calls_ok [OF v0(1) assms(4)] unfolding v0(2) by auto
  then have "buf_size v' = n" "enable_cv v' = cv"
    using v0(3,4) by (simp_all add: same_setup_def)
  then show ?thesis
    using run used_le [OF run(2)] by auto
qed

text \<open>Six bytes into a ring of four, in pieces; a write that does not fit waits.\<close>

definition demo_calls :: "ring_call list" where
  "demo_calls = [WriteCall [1, 2, 3] 0 3, WriteCall [9, 9] 0 2, ReadCall [0, 0] 0 2, PutCall [4, 5, 6, 7] 0 4, GetCall (replicate 9 0) 1 8]"

definition raw_ring :: shm_view where
  "raw_ring = \<lparr>buf_size = 0, enable_cv = False, client_attached = 7, ring_in = 3, ring_out = 9, buffer = [0, 0, 0, 0]\<rparr>"

theorem ring_well_formed_witness:
  "\<exists>v0 v'. init_view (\<lambda>_. 0) raw_ring 4 True = Inr v0 \<and> ring_calls demo_calls v0 = Inr ([1, 2, 3, 4, 5, 6], v') \<and> ring_ok v'"
proof -
  have "pow2 4"
    by (auto simp: pow2_def intro!: exI [of _ 2])
  moreover have "length (buffer raw_ring) = unat (4 :: u32)" "list_all in_range demo_calls"
    by code_simp+
  moreover obtain v0 where v0: "init_view (\<lambda>_. 0) raw_ring 4 True = Inr v0"
    by (simp add: init_view_def)
  ultimately obtain out v' where "ring_calls demo_calls v0 = Inr (out, v')" "ring_ok v'"
    using ring_well_formed [of 4 raw_ring "\<lambda>_. 0" demo_calls True v0] by auto
  moreover have "(case init_view (\<lambda>_. 0) raw_ring 4 True of Inr v \<Rightarrow> (case ring_calls demo_calls v of Inr (out, v') \<Rightarrow> out | _ \<Rightarrow> [])) =
      [1, 2, 3, 4, 5, 6]"
    by code_simp
  ultimately show ?thesis
    using v0 by simp
qed

end
