(* ===== verification/GaiaMisc.thy ===== *)
theory GaiaMisc imports Prelude begin

text \<open>
  The helpers \<^verbatim>\<open>src/src/gaiarandom.cpp\<close> (a generator with a seed per thread) and \<^verbatim>\<open>src/src/gaiahelper.cpp\<close> (the name of a
  thread). \<^verbatim>\<open>rand_r\<close>, the clock and \<^verbatim>\<open>prctl\<close> are the C library's and the kernel's: parameters.
\<close>

section \<open>Random numbers\<close>

text \<open>\<open>rand_r seed\<close> is the number it returns and the seed it leaves; a time is in nanoseconds since the epoch.\<close>

type_synonym rand_r = "u32 \<Rightarrow> i32 \<times> u32"

definition fast_seed :: "u64 \<Rightarrow> u32" where
  "fast_seed ns = ucast ns"

definition fast_rand :: "rand_r \<Rightarrow> u32 \<Rightarrow> i32 \<times> u32" where
  "fast_rand R sd = R sd"

text \<open>The two \<^verbatim>\<open>static thread_local\<close> variables of \<^verbatim>\<open>safe_rand\<close>.\<close>

record thread_seed =
  seed_inited :: bool
  local_seed :: u32

definition unseeded :: thread_seed where
  "unseeded = \<lparr>seed_inited = False, local_seed = 0\<rparr>"

definition safe_rand :: "rand_r \<Rightarrow> u64 \<Rightarrow> thread_seed \<Rightarrow> i32 \<times> thread_seed" where
  "safe_rand R ns s =
     (let s1 = (if \<not> seed_inited s then s\<lparr>seed_inited := True, local_seed := fast_seed ns\<rparr> else s);
          (x, sd) = R (local_seed s1)
      in (x, s1\<lparr>local_seed := sd\<rparr>))"

text \<open>Calls of any threads in the order they happen, with the time of each; the result of each.\<close>

fun rand_calls :: "rand_r \<Rightarrow> (nat \<times> u64) list \<Rightarrow> (nat \<Rightarrow> thread_seed) \<Rightarrow> (nat \<times> i32) list" where
  "rand_calls R [] S = []"
| "rand_calls R ((t, ns) # calls) S =
     (let (x, s) = safe_rand R ns (S t) in (t, x) # rand_calls R calls (S(t := s)))"

text \<open>The sequence of \<^verbatim>\<open>rand_r\<close> from a seed.\<close>

fun draws :: "rand_r \<Rightarrow> nat \<Rightarrow> u32 \<Rightarrow> i32 list" where
  "draws R 0 sd = []"
| "draws R (Suc n) sd = (let (x, sd') = R sd in x # draws R n sd')"

abbreviation of_thread :: "nat \<Rightarrow> (nat \<times> 'b) list \<Rightarrow> 'b list" where
  "of_thread t xs \<equiv> map snd (filter (\<lambda>x. fst x = t) xs)"

lemma rand_calls_seeded:
  "seed_inited (S t) \<Longrightarrow> of_thread t (rand_calls R calls S) = draws R (length (of_thread t calls)) (local_seed (S t))"
  by (induction R calls S rule: rand_calls.induct) (auto simp: safe_rand_def Let_def split: prod.splits)

lemma rand_calls_unseeded:
  "\<not> seed_inited (S t) \<Longrightarrow> of_thread t (rand_calls R calls S) =
    (case of_thread t calls of [] \<Rightarrow> [] | ns # rest \<Rightarrow> draws R (Suc (length rest)) (fast_seed ns))"
proof (induction R calls S rule: rand_calls.induct)
  case (2 R u ns calls S)
  obtain x s where call: "safe_rand R ns (S u) = (x, s)"
    by fastforce
  show ?case
  proof (cases "u = t")
    case True
    have "R (fast_seed ns) = (x, local_seed s)" "seed_inited s"
      using call 2(2) True by (auto simp: safe_rand_def Let_def split: prod.splits)
    then show ?thesis
      using rand_calls_seeded [of "S(t := s)" t R calls] True call by simp
  next
    case False
    then show ?thesis
      using 2(1) [OF call [symmetric] refl] 2(2) call by (simp add: fun_upd_def)
  qed
qed simp

text \<open>
  A thread's calls of \<^verbatim>\<open>safe_rand\<close> give the sequence of \<^verbatim>\<open>rand_r\<close> from one seed, the time of its first call modulo
  \<^verbatim>\<open>2^32\<close> nanoseconds, however the calls of other threads fall between them.
\<close>
lemma safe_rand_per_thread:
  "of_thread t (rand_calls R calls (\<lambda>_. unseeded)) =
    (case of_thread t calls of [] \<Rightarrow> [] | ns # rest \<Rightarrow> draws R (Suc (length rest)) (fast_seed ns))"
  by (rule rand_calls_unseeded) (simp add: unseeded_def)

text \<open>Threads whose first calls are a multiple of \<^verbatim>\<open>2^32\<close> nanoseconds apart, or at the same time, draw the same numbers.\<close>

lemma same_seed: "unat ns mod 2 ^ 32 = unat ns' mod 2 ^ 32 \<Longrightarrow> fast_seed ns = fast_seed ns'"
  by (simp add: fast_seed_def word_unat_eq_iff unsigned_ucast_eq take_bit_eq_mod)

section \<open>The name of a thread\<close>

text \<open>
  \<^verbatim>\<open>std::string::resize(16)\<close> pads with null bytes; one more follows in \<^verbatim>\<open>data()\<close>. \<open>prctl\<close> gives the name the
  kernel sets from the bytes its argument points to.
\<close>

definition set_thread_name :: "(bytes \<Rightarrow> bytes) \<Rightarrow> bytes \<Rightarrow> bytes" where
  "set_thread_name prctl name = prctl (take 16 (name @ replicate 16 0) @ [0])"

text \<open>\<^verbatim>\<open>PR_SET_NAME\<close>: up to 16 bytes with the terminating null byte, truncated silently.\<close>

definition sets_name :: "(bytes \<Rightarrow> bytes) \<Rightarrow> bool" where
  "sets_name prctl \<longleftrightarrow> (\<forall>d. 0 \<in> set d \<longrightarrow> prctl d = takeWhile ((\<noteq>) 0) (take 15 d))"

lemma takeWhile_zeros: "takeWhile ((\<noteq>) 0) (take n (xs @ replicate m (0 :: u8))) = takeWhile ((\<noteq>) 0) (take n xs)"
  by (induction xs arbitrary: n) (auto simp: take_Cons split: nat.splits)

lemma thread_name:
  assumes "sets_name prctl"
  shows "set_thread_name prctl name = takeWhile ((\<noteq>) 0) (take 15 name)"
proof -
  have "set_thread_name prctl name = takeWhile ((\<noteq>) 0) (take 15 (take 16 (name @ replicate 16 0) @ [0]))"
    using assms by (simp add: set_thread_name_def sets_name_def)
  also have "take 15 (take 16 (name @ replicate 16 0) @ [0]) = take 15 (name @ replicate 16 (0 :: u8))"
    by (auto simp: min_def)
  finally show ?thesis
    by (simp only: takeWhile_zeros)
qed

end
