(* ===== verification/VectorResize.thy ===== *)
theory VectorResize imports FastResize begin

text \<open>
  \<^verbatim>\<open>resizeWithoutInitialization\<close> for \<^verbatim>\<open>std::vector\<close> (\<^verbatim>\<open>UninitializedMemoryHacks.h\<close>), with the layout of libstdc++ that
  \<^verbatim>\<open>unsafeVectorSetLargerSize\<close> writes into behind the library's back; and how both overloads, of vectors and of strings,
  relate to the library's \<^verbatim>\<open>resize\<close>.
\<close>

section \<open>Vectors\<close>

text \<open>
  The three pointers, in units of an element, and the elements of the allocated storage. As for strings, \<open>grow\<close> is the
  capacity that \<^verbatim>\<open>reserve\<close> picks; \<open>at\<close> is where the allocator puts the new storage, \<open>junk\<close> what is in it.
\<close>

record 'a stdvector =
  M_start :: nat
  M_finish :: nat
  M_end_of_storage :: nat
  cells :: "'a list"

definition vector_ok :: "'a stdvector \<Rightarrow> bool" where
  "vector_ok v \<longleftrightarrow> M_start v \<le> M_finish v \<and> M_finish v \<le> M_end_of_storage v \<and> length (cells v) = M_end_of_storage v - M_start v"

definition vector_size :: "'a stdvector \<Rightarrow> nat" where
  "vector_size v = M_finish v - M_start v"

definition vector_capacity :: "'a stdvector \<Rightarrow> nat" where
  "vector_capacity v = M_end_of_storage v - M_start v"

definition elements :: "'a stdvector \<Rightarrow> 'a list" where
  "elements v = take (vector_size v) (cells v)"

definition vector_reserve :: "(nat \<Rightarrow> nat \<Rightarrow> nat) \<Rightarrow> nat \<Rightarrow> (nat \<Rightarrow> 'a) \<Rightarrow> 'a stdvector \<Rightarrow> nat \<Rightarrow> 'a stdvector" where
  "vector_reserve grow at junk v n =
     (let c = max n (grow (vector_capacity v) n)
      in if n \<le> vector_capacity v then v
         else \<lparr>M_start = at, M_finish = at + vector_size v, M_end_of_storage = at + c,
               cells = elements v @ map junk [vector_size v..<c]\<rparr>)"

definition unsafeVectorSetLargerSize :: "'a stdvector \<Rightarrow> nat \<Rightarrow> 'a stdvector" where
  "unsafeVectorSetLargerSize v n = v\<lparr>M_finish := M_finish v + (n - vector_size v)\<rparr>"

definition vector_resizeWithoutInitialization ::
    "(nat \<Rightarrow> nat \<Rightarrow> nat) \<Rightarrow> nat \<Rightarrow> (nat \<Rightarrow> 'a) \<Rightarrow> 'a stdvector \<Rightarrow> nat \<Rightarrow> 'a stdvector" where
  "vector_resizeWithoutInitialization grow at junk v n =
     (if n \<le> vector_size v then v\<lparr>M_finish := M_start v + n\<rparr>
      else (let v1 = (if n > vector_capacity v then vector_reserve grow at junk v n else v)
            in unsafeVectorSetLargerSize v1 n))"

section \<open>The reference\<close>

text \<open>\<^verbatim>\<open>resize\<close> value-initialises what it adds; \<open>z\<close> is that value.\<close>

definition resized :: "'a \<Rightarrow> 'a list \<Rightarrow> nat \<Rightarrow> 'a list" where
  "resized z xs n = take n xs @ replicate (n - length xs) z"

text \<open>Two sequences of the same length that agree on the first \<open>k\<close> elements.\<close>

definition same_upto :: "nat \<Rightarrow> 'a list \<Rightarrow> 'a list \<Rightarrow> bool" where
  "same_upto k xs ys \<longleftrightarrow> length xs = length ys \<and> take k xs = take k ys"

lemma same_upto_resized:
  assumes "length ys = n" "take (length xs) ys = take n xs"
  shows "same_upto (length xs) ys (resized z xs n)"
  using assms by (cases "n \<le> length xs") (auto simp: same_upto_def resized_def)

lemma length_elements [simp]: "vector_ok v \<Longrightarrow> length (elements v) = vector_size v"
  by (auto simp: vector_ok_def elements_def vector_size_def)

lemma vector_reserve_ok:
  assumes "vector_ok v"
  shows "vector_ok (vector_reserve grow at junk v n)" "elements (vector_reserve grow at junk v n) = elements v"
    "vector_size (vector_reserve grow at junk v n) = vector_size v" "n \<le> vector_capacity (vector_reserve grow at junk v n)"
  using assms by (auto simp: vector_reserve_def Let_def vector_ok_def elements_def vector_size_def vector_capacity_def)

lemma unsafeVectorSetLargerSize_ok:
  assumes "vector_ok v" "vector_size v \<le> n" "n \<le> vector_capacity v"
  shows "vector_ok (unsafeVectorSetLargerSize v n)" "vector_size (unsafeVectorSetLargerSize v n) = n"
    "take (vector_size v) (elements (unsafeVectorSetLargerSize v n)) = elements v"
  using assms by (auto simp: unsafeVectorSetLargerSize_def vector_ok_def elements_def vector_size_def vector_capacity_def min_def)

lemma vector_resize_ok:
  assumes "vector_ok v"
  shows "vector_ok (vector_resizeWithoutInitialization grow at junk v n)"
    "vector_size (vector_resizeWithoutInitialization grow at junk v n) = n"
    "take (vector_size v) (elements (vector_resizeWithoutInitialization grow at junk v n)) = take n (elements v)"
proof -
  let ?r = "vector_resizeWithoutInitialization grow at junk v n"
  have "vector_ok ?r \<and> vector_size ?r = n \<and> take (vector_size v) (elements ?r) = take n (elements v)"
  proof (cases "n \<le> vector_size v")
    case True
    then show ?thesis
      using assms by (auto simp: vector_resizeWithoutInitialization_def vector_ok_def elements_def vector_size_def min_def)
  next
    case False
    define w where "w = (if n > vector_capacity v then vector_reserve grow at junk v n else v)"
    have w: "vector_ok w" "vector_size w = vector_size v" "elements w = elements v" "n \<le> vector_capacity w"
      using vector_reserve_ok [OF assms] assms by (auto simp: w_def)
    have r: "?r = unsafeVectorSetLargerSize w n"
      using False by (simp add: vector_resizeWithoutInitialization_def w_def)
    show ?thesis
      unfolding r using unsafeVectorSetLargerSize_ok [OF w(1) _ w(4)] w(2,3) False assms by simp
  qed
  then show "vector_ok ?r" "vector_size ?r = n" "take (vector_size v) (elements ?r) = take n (elements v)"
    by blast+
qed

text \<open>
  Both overloads give what \<^verbatim>\<open>resize\<close> gives, up to the values of the added elements; in place when the capacity is
  enough.
\<close>

lemma vector_resize_agrees:
  assumes "vector_ok v"
  shows "same_upto (vector_size v) (elements (vector_resizeWithoutInitialization grow at junk v n)) (resized z (elements v) n)"
  using same_upto_resized [of "elements (vector_resizeWithoutInitialization grow at junk v n)" n "elements v" z]
    vector_resize_ok [OF assms, of grow at junk n] assms by simp

lemma vector_resize_in_place:
  "n \<le> vector_capacity v \<Longrightarrow> cells (vector_resizeWithoutInitialization grow at junk v n) = cells v"
  by (simp add: vector_resizeWithoutInitialization_def unsafeVectorSetLargerSize_def)

lemma string_resize_agrees:
  assumes "string_ok s"
  shows "same_upto (str_size s) (chars (fast_resize grow junk s n)) (resized z (chars s) n)"
proof -
  have "take (min n (str_size s)) (chars (fast_resize grow junk s n)) = take (str_size s) (chars (fast_resize grow junk s n))"
    using assms by (cases "n \<le> str_size s") (simp_all add: min_def)
  then show ?thesis
    using same_upto_resized [of "chars (fast_resize grow junk s n)" n "chars s" z] take_chars_fast_resize [OF assms, of n grow junk] assms
    by simp
qed

end
