(* ===== verification/Spec2Isabelle.thy ===== *)
theory Spec2Isabelle imports ChannelFlush ChannelRetains EndToEnd PoolFutures GaiaThread KeyLock MemLink ShmExhausted ShmProgress TearDown RingCalls GaiaMisc VectorResize begin

text \<open>
  A model of gaia-net, the network layer between the parties of a computation, and the theorems that
  make it correct. All paths are under \<^verbatim>\<open>src/src/\<close>.

  \<^bold>\<open>The program.\<close> A party sends and receives messages over an \<^verbatim>\<open>IChannel\<close> (\<^verbatim>\<open>ichannel.h\<close>), of which
  there are two. \<^verbatim>\<open>channel\<close> (\<^verbatim>\<open>channel.cpp\<close>) goes over the network: it owns one or two \<^verbatim>\<open>RpcClient\<close>s
  (\<^verbatim>\<open>grpc_client.cpp\<close>), retries a failed send, receive or flush up to 120 times, and between two attempts
  replaces the client, handing the state of the old one to the new one. An \<^verbatim>\<open>RpcClient\<close> numbers its packets
  and keeps those that are not acknowledged; a thread of its own reads the acknowledgements. The other
  party's packets come out of a Redis list, which \<^verbatim>\<open>RedisClient\<close> (\<^verbatim>\<open>redis_client.cpp\<close>) reads, or are
  pulled from a server. \<^verbatim>\<open>MemChannel\<close> (\<^verbatim>\<open>memchannel.cpp\<close>) connects two parties on one machine by a
  pair of rings in shared memory (\<^verbatim>\<open>SharedMemoryView\<close>). The rest are tools: a thread pool, a queue, events
  and locks.

  \<^bold>\<open>Theories and code.\<close>
  \<^item> \<open>Prelude\<close>: bytes, words of the code's widths, errors as values (\<open>fault\<close>), decimal and little-endian
    encodings. \<open>Prog\<close>: calls that change an object and the world, may throw and may not end
    (\<open>None\<close> is a call that does not return within its fuel). \<open>Machine\<close>: interleaved threads
    as partial functions on a state, reachability, the locale of their invariants, mutexes.
  \<^item> \<open>BytePipe\<close>: the contract of a bounded byte FIFO, as a locale. \<open>SharedMemoryView\<close>: the ring with its
    32-bit counters that wrap, \<^verbatim>\<open>put\<close>, \<^verbatim>\<open>get\<close>, \<^verbatim>\<open>read\<close>, \<^verbatim>\<open>write\<close>; it is the instance. \<open>RingCalls\<close>: any
    sequence of its calls. \<open>RingCv\<close> and \<open>RingSpin\<close>: a writing and a reading thread on it, with the mutex and the condition
    variable and without.
  \<^item> \<open>IChannel\<close>, \<open>FastResize\<close>, \<open>MemChannel\<close>: identity and counters, the string that grows
    uninitialised (\<^verbatim>\<open>gaia_utils/\<close>), framing and the conversation of a sender and a receiver.
    \<open>KeyLock\<close>: \<^verbatim>\<open>get_key_lock\<close> and \<^verbatim>\<open>free_key_lock\<close>. \<open>FileLock\<close>: \<^verbatim>\<open>get_file_lock\<close> and its counterparts, with
    record locks and lock files. \<open>ShmLifecycle\<close>: constructor, \<^verbatim>\<open>attach\<close> and destructor of \<^verbatim>\<open>MemChannel\<close>, and the
    two parties that find each other over the names of their segments. \<open>ShmProgress\<close>: they do find each other, no
    party waits for ever for a lock. \<open>TearDown\<close>: what the destructors give back, and
    what becomes of a party whose counterpart is destroyed early. \<open>ShmExhausted\<close>: the constructor when there is no memory
    for its segment. \<open>VectorResize\<close>: the overload for vectors.
  \<^item> \<open>Talk\<close>: the conversation with the calls of \<^verbatim>\<open>read\<close> and \<^verbatim>\<open>write\<close> taken apart into their steps, over the
    locale \<open>ring_threads\<close> of what a ring with its two threads owes; \<open>TalkCv\<close> (a sublocale of \<open>byte_pipe\<close>) and \<open>TalkSpin\<close>
    provide it, \<open>TalkRing\<close> chooses between them by \<^verbatim>\<open>enable_cv\<close>. \<open>TwoWay\<close>: two parties that send and receive in any
    order over both rings, and which orders block. \<open>MemLink\<close>: handshake and conversation together.
  \<^item> \<open>RedisClient\<close>; \<open>RpcClient\<close> (state, constructor, version), \<open>RpcSend\<close> (\<^verbatim>\<open>Send\<close>, \<^verbatim>\<open>wait_flush\<close>, the
    thread, the handing over, \<^verbatim>\<open>finish\<close>), \<open>RpcReceive\<close> (\<^verbatim>\<open>Recv\<close>), \<open>RpcDelivery\<close> (what arrives on the
    other side), \<open>RpcLedger\<close> (acknowledgements read against packets taken off the queue). \<open>NetDemo\<close>: a small network to evaluate on.
  \<^item> \<open>Channel\<close>: connecting and the retry loops; \<open>ChannelDelivery\<close>, \<open>ChannelReceive\<close>, \<open>EndToEnd\<close>: the
    sending side, the receiving side, and both together; \<open>ChannelRetains\<close>: no message that was taken is lost on the sending side; \<open>ChannelSafety\<close>: what goes wrong, and the LZ4 framing;
    \<open>ChannelFlush\<close>: what the result of \<^verbatim>\<open>flush\<close> says.
  \<^item> \<open>SafeQueue\<close> (\<^verbatim>\<open>SafeQueue.h\<close>, with the locale \<open>fifo\<close>), \<open>ThreadPool\<close> (\<^verbatim>\<open>ThreadPool.h\<close>) and
    \<open>PoolFutures\<close> (what \<^verbatim>\<open>submit\<close> returns),
    \<open>GaiaThread\<close> (\<^verbatim>\<open>gaiathread.cpp\<close>: \<^verbatim>\<open>CThread\<close>, \<^verbatim>\<open>CLock\<close>, \<^verbatim>\<open>CEvent\<close>), \<open>GaiaMisc\<close> (\<^verbatim>\<open>gaiarandom.cpp\<close>,
    \<^verbatim>\<open>gaiahelper.cpp\<close>).

  \<^bold>\<open>How state and effects are represented.\<close> An object is a record with the code's fields. gRPC streams,
  Redis, LZ4, the environment, clocks, the allocation of a growing string and the scheduler are
  parameters: a record of functions on an abstract world (\<open>A\<close> in the statements), of which a theorem assumes
  what it names (an acknowledging server, a Redis list that gives what was pushed, LZ4 as documented).
  An exception, an abort, a null dereference, an access out of bounds are values of \<open>fault\<close>.
  Threads are machines whose actions are the accesses the code makes between two points where
  another thread can interfere.

  \<^bold>\<open>What the lemmas show.\<close> The ring appends and takes in order although its counters wrap, and stays a FIFO
  under every interleaving of two threads, without lost wake-ups. A conversation over it delivers the messages,
  never faults and ends, be the ring's calls atomic or interleaved step by step, and from the constructors of both
  parties on. Two parties that mirror each other's calls never block, also with messages longer than the rings (of at most 2 GiB, received where they fit); two that both send
  first do exactly when neither message fits into its ring. A client's packets are numbered without a gap, and one leaves the queue for each acknowledgement that is read, for no other reason; after a reconnection the unacknowledged
  ones are sent again and the receiver passes on each once, in order; so a message that a sending channel
  accepted has arrived at a relay that acknowledges what it has, or is still queued, and what was accepted
  reaches the receiving channel's callers in order, reconnections included. The loops end. The pool
  runs each task at most once, none that was not submitted, and its outcome is what the future gives; the key lock excludes and its nodes are not
  used after they are erased; the file lock excludes under exact conditions, and two parties that start on unused names end up
  with crossed, initialised rings. A group of theorems exhibits, at the exact conditions, where the code
  does not do what it means to: wrapped lengths, lost wake-ups, a success that is reported for a message
  that was lost, pointers left null or dangling by a failed reconnection.

  \<^bold>\<open>Bounds and fuel.\<close> The loops of 120 attempts recurse on the number of attempts left. \<^verbatim>\<open>Recv\<close> and
  \<^verbatim>\<open>wait_flush\<close> have fuel, as Redis may keep giving elements to skip and an acknowledgement may not come;
  \<open>recv_returns\<close> and \<open>wait_flush_returns\<close> say what fuel is enough: one unit for an element that waits in the
  list and one for each second of the time-out. The handshake of two \<^verbatim>\<open>MemChannel\<close>s takes at most 178 system calls, polls not counted. A conversation over a ring makes at most \<open>talk_bound\<close> steps and two
  for each spurious wake-up. Lengths, counters and sequence numbers
  have the width they have in the code.

  \<^bold>\<open>Not modelled.\<close> Left out for good: the compile-time machinery of
  \<^verbatim>\<open>UninitializedMemoryHacks.h\<close> that reaches private members of the standard library's classes, generated
  protobuf code, logging (commented out in the source), tuning options of gRPC, version strings,
  tests and benchmarks, the failure to create a thread, the sizes given to \<^verbatim>\<open>munmap\<close>. An element of three bytes is an access
  out of bounds in the model; the code reads the terminating null of the string as its fourth byte. The atomic counters of the ring have sequentially consistent loads and stores, as
  \<^verbatim>\<open>std::atomic\<close> has by default.
\<close>

end
